(* ===== verification/Prelude.thy ===== *)
theory Prelude
  imports Main "HOL-Library.Word" "HOL-Library.Monad_Syntax"
begin

text \<open>
  Shared vocabulary of the development: the machine integer types of the kernel
  sources, C objects as byte lists, the flat byte memory that physical addresses
  index, little-endian loads and stores, and the table scans
  \<^verbatim>\<open>for (i = 0; i < N; i++) if (P(table[i])) return i;\<close> that almost every
  subsystem of the kernel is built on.

  Conventions used everywhere: a C integer of width \<open>w\<close> is a \<open>w word\<close>; an
  \<open>int\<close> that only carries an error code is an \<open>int\<close>; a possibly null pointer is an
  option, with \<open>None\<close> for \<^verbatim>\<open>NULL\<close>; a pointer into a byte object is the suffix of the
  object that starts at the pointer, so that \<^verbatim>\<open>p++\<close> is the tail of the list and
  reading the empty suffix is an access outside the object.  Functions that walk
  such pointers return an option whose \<open>None\<close> means that the code accesses memory
  outside the object.
\<close>

unbundle bit_operations_syntax

named_theorems mem_simps \<open>loads from updated memories\<close>
named_theorems scan_simps \<open>characterisations of the table scans\<close>

type_synonym u8 = "8 word"
type_synonym u16 = "16 word"
type_synonym u32 = "32 word"
type_synonym u64 = "64 word"

type_synonym bytes = "u8 list"
type_synonym cptr = "u8 list option"
type_synonym memory = "u64 \<Rightarrow> u8"

subsection \<open>Words\<close>

lemma unat_u8_less: "unat (w :: u8) < 256"
  by (rule less_le_trans [OF unsigned_less]) simp

lemma unat_u16_less: "unat (w :: u16) < 65536"
  by (rule less_le_trans [OF unsigned_less]) simp

lemma unat_u32_less: "unat (w :: u32) < 4294967296"
  by (rule less_le_trans [OF unsigned_less]) simp

lemma unat_u64_less: "unat (w :: u64) < 18446744073709551616"
  by (rule less_le_trans [OF unsigned_less]) simp

lemma unat_ucast_widen:
  "LENGTH('a) \<le> LENGTH('b) \<Longrightarrow> unat (ucast (w :: 'a::len word) :: 'b::len word) = unat w"
  by (simp add: unsigned_ucast_eq take_bit_nat_eq_self less_le_trans [OF unsigned_less])

lemma unat_not_word: "unat (NOT w :: 'a::len word) = 2 ^ LENGTH('a) - 1 - unat w"
proof -
  have "unat w < 2 ^ LENGTH('a)"
    by (rule unsigned_less)
  moreover have "unat (- 1 - w) = unat (- 1 :: 'a word) - unat w"
    by (rule unat_sub) simp
  ultimately show ?thesis
    by (simp add: not_eq_complement unsigned_minus_1_eq_mask mask_eq_exp_minus_1
      flip: minus_diff_commute)
qed

lemma mod_add_cancel_nat: "(s + a) mod m = (s + b) mod m \<Longrightarrow> a mod m = b mod m" for a b s m :: nat
proof (induction a b rule: linorder_wlog)
  case (le a b)
  then have "m dvd (s + b) - (s + a)"
    by (metis add_le_cancel_left mod_eq_dvd_iff_nat)
  then show ?case
    using le(1) by (metis add_diff_cancel_left mod_eq_dvd_iff_nat)
qed metis

lemma unat_less_iff_le_diff: "a \<le> b \<Longrightarrow> unat (b - a) = unat b - unat a" for a b :: "'a::len word"
  by (simp add: unat_sub word_le_nat_alt)

lemma unat_add_no_wrap:
  "unat a + unat b < 2 ^ LENGTH('a) \<Longrightarrow> unat (a + b) = unat a + unat b" for a b :: "'a::len word"
  by (simp add: unat_word_ariths)

lemma and_push_bit_1_iff:
  "(w AND push_bit n 1 \<noteq> 0) \<longleftrightarrow> bit w n" for w :: "'a::len word"
proof
  assume "w AND push_bit n 1 \<noteq> 0"
  then obtain k where "bit (w AND push_bit n 1) k"
    using bit_eqI [of "w AND push_bit n 1" 0] by auto
  then show "bit w n"
    by (auto simp: bit_simps)
next
  assume "bit w n"
  then have "bit (w AND push_bit n 1) n"
    by (auto simp: bit_simps dest: bit_imp_le_length)
  then show "w AND push_bit n 1 \<noteq> 0"
    by (metis bit_0_eq bot_fun_def bot_bool_def)
qed

lemma unat_and_not_mask: "unat (y AND NOT (mask k)) = unat y div 2 ^ k * 2 ^ k" for y :: "'a::len word"
proof (cases "k < LENGTH('a)")
  case True
  have "y AND NOT (mask k) = push_bit k (drop_bit k y)"
    by (rule bit_word_eqI) (auto simp: bit_simps)
  moreover have "unat y div 2 ^ k * 2 ^ k < 2 ^ LENGTH('a)"
    using unsigned_less [of y, where 'a = nat] div_times_less_eq_dividend by (rule le_less_trans [rotated])
  moreover have "unat (2 ^ k :: 'a word) = 2 ^ k"
    using True by (simp add: of_nat_inverse)
  moreover have "unat y div 2 ^ k < 2 ^ LENGTH('a)"
    by (rule le_less_trans [OF div_le_dividend unsigned_less])
  ultimately show ?thesis
    using True by (simp add: push_bit_eq_mult drop_bit_eq_div unat_word_ariths)
next
  case False
  then have "y AND NOT (mask k) = 0"
    by (intro bit_word_eqI) (auto simp: bit_simps)
  moreover have "unat y < 2 ^ k"
    using False unsigned_less [of y, where 'a = nat] by (meson less_le_trans not_less one_le_numeral power_increasing)
  ultimately show ?thesis by simp
qed

subsection \<open>Table scans\<close>

text \<open>The index of the first element that satisfies the test, as a C scan returns it.\<close>

fun scan :: "('a \<Rightarrow> bool) \<Rightarrow> 'a list \<Rightarrow> nat option" where
  "scan P [] = None"
| "scan P (x # xs) = (if P x then Some 0 else map_option Suc (scan P xs))"

lemma scan_None_iff [scan_simps]: "scan P xs = None \<longleftrightarrow> (\<forall>x \<in> set xs. \<not> P x)"
  by (induction xs) auto

lemma scan_Some_iff [scan_simps]:
  "scan P xs = Some i \<longleftrightarrow> i < length xs \<and> P (xs ! i) \<and> (\<forall>j < i. \<not> P (xs ! j))"
proof (induction xs arbitrary: i)
  case Nil
  then show ?case by simp
next
  case (Cons x xs)
  show ?case
    by (cases i) (auto simp: Cons.IH nth_Cons split: nat.splits)
qed

lemma scan_map: "scan P (map f xs) = scan (P \<circ> f) xs"
  by (induction xs) auto

lemma scan_SomeD:
  assumes "scan P xs = Some i"
  shows "i < length xs" and "P (xs ! i)" and "\<And>j. j < i \<Longrightarrow> \<not> P (xs ! j)"
  using assms by (auto simp: scan_Some_iff)

lemma scan_None_nth: "scan P xs = None \<Longrightarrow> i < length xs \<Longrightarrow> \<not> P (xs ! i)"
  by (auto simp: scan_None_iff)

lemma scan_ex: "i < length xs \<Longrightarrow> P (xs ! i) \<Longrightarrow> \<exists>j \<le> i. scan P xs = Some j"
proof -
  assume i: "i < length xs" "P (xs ! i)"
  then have "scan P xs \<noteq> None"
    by (auto simp: scan_None_iff)
  then obtain j where j: "scan P xs = Some j" by auto
  then have "j \<le> i"
    using i by (metis not_le scan_SomeD(3))
  with j show ?thesis by blast
qed

text \<open>An indexed read of an array; \<open>None\<close> is a read outside the array.\<close>

definition at_idx :: "'a list \<Rightarrow> nat \<Rightarrow> 'a option" where
  "at_idx xs i = (if i < length xs then Some (xs ! i) else None)"

lemma at_idx_Some_iff [simp]: "at_idx xs i = Some x \<longleftrightarrow> i < length xs \<and> xs ! i = x"
  by (simp add: at_idx_def)

lemma at_idx_less: "i < length xs \<Longrightarrow> at_idx xs i = Some (xs ! i)"
  by (simp add: at_idx_def)

subsection \<open>Byte memory\<close>

text \<open>
  The x86 loads and stores of 4 and 8 bytes, little-endian.  Byte \<open>i\<close> of the word at
  \<open>a\<close> is the byte at \<open>a + i\<close>; addresses wrap at \<open>2 ^ 64\<close> as address arithmetic does.
\<close>

definition st64 :: "memory \<Rightarrow> u64 \<Rightarrow> u64 \<Rightarrow> memory" where
  "st64 m a v = (\<lambda>x. if x - a < 8 then ucast (drop_bit (8 * unat (x - a)) v) else m x)"

definition ld64 :: "memory \<Rightarrow> u64 \<Rightarrow> u64" where
  "ld64 m a =
     ucast (m a) OR push_bit 8 (ucast (m (a + 1))) OR push_bit 16 (ucast (m (a + 2))) OR
     push_bit 24 (ucast (m (a + 3))) OR push_bit 32 (ucast (m (a + 4))) OR
     push_bit 40 (ucast (m (a + 5))) OR push_bit 48 (ucast (m (a + 6))) OR
     push_bit 56 (ucast (m (a + 7)))"

definition st32 :: "memory \<Rightarrow> u64 \<Rightarrow> u32 \<Rightarrow> memory" where
  "st32 m a v = (\<lambda>x. if x - a < 4 then ucast (drop_bit (8 * unat (x - a)) v) else m x)"

definition ld32 :: "memory \<Rightarrow> u64 \<Rightarrow> u32" where
  "ld32 m a =
     ucast (m a) OR push_bit 8 (ucast (m (a + 1))) OR push_bit 16 (ucast (m (a + 2))) OR
     push_bit 24 (ucast (m (a + 3)))"

lemma ld64_cong: "(\<And>i. i < 8 \<Longrightarrow> m (a + i) = m' (a + i)) \<Longrightarrow> ld64 m a = ld64 m' a"
proof -
  assume h: "\<And>i. i < 8 \<Longrightarrow> m (a + i) = m' (a + i)"
  have "m a = m' a" using h [of 0] by simp
  then show ?thesis
    unfolding ld64_def using h [of 1] h [of 2] h [of 3] h [of 4] h [of 5] h [of 6] h [of 7]
    by simp
qed

lemma byte_split_cases:
  assumes "n < (64::nat)"
  obtains "n < 8" | "8 \<le> n" "n < 16" | "16 \<le> n" "n < 24" | "24 \<le> n" "n < 32"
    | "32 \<le> n" "n < 40" | "40 \<le> n" "n < 48" | "48 \<le> n" "n < 56" | "56 \<le> n" "n < 64"
  using assms by linarith

lemma ld64_st64_same [mem_simps]: "ld64 (st64 m a v) a = v"
proof (rule bit_word_eqI)
  fix n assume "n < LENGTH(64)"
  then have "n < 64" by simp
  then show "bit (ld64 (st64 m a v) a) n = bit v n"
    by (cases rule: byte_split_cases) (simp_all add: ld64_def st64_def bit_simps less_diff_conv2)
qed

lemma word_window_disjoint:
  fixes d i j k :: u64
  assumes "k \<le> d" and "j \<le> 0 - d" and "i < j" and "d \<noteq> 0"
  shows "\<not> d + i < k"
proof -
  have "unat (- d) = 2 ^ 64 - unat d"
    using assms(4) unat_sub_if_size [of 0 d] by (simp add: word_size unat_eq_zero)
  with assms show ?thesis
    using unsigned_less [of d, where 'a = nat] by (auto simp: word_less_nat_alt word_le_nat_alt unat_plus_if' split: if_splits)
qed

lemma ld64_st64_other [mem_simps]:
  assumes "8 \<le> b - a" and "8 \<le> a - b"
  shows "ld64 (st64 m a v) b = ld64 m b"
proof (rule ld64_cong)
  fix i :: u64 assume i: "i < 8"
  have "\<not> (b - a) + i < 8"
    by (rule word_window_disjoint [OF assms(1) _ i]) (use assms in auto)
  then show "st64 m a v (b + i) = m (b + i)"
    by (simp add: st64_def algebra_simps)
qed

subsection \<open>Struct fields in byte buffers\<close>

text \<open>
  The kernel overlays packed structs on byte buffers; on x86 a 16- or 32-bit field is
  stored little-endian.  \<open>put16\<close> and \<open>put32\<close> are the bytes a store of the field leaves in
  the buffer, \<open>get16\<close> and \<open>get32\<close> the value a load at byte offset \<open>i\<close> returns.
\<close>

definition put16 :: "u16 \<Rightarrow> bytes" where
  "put16 v = [ucast v, ucast (drop_bit 8 v)]"

definition put32 :: "u32 \<Rightarrow> bytes" where
  "put32 v = [ucast v, ucast (drop_bit 8 v), ucast (drop_bit 16 v), ucast (drop_bit 24 v)]"

definition get16 :: "bytes \<Rightarrow> nat \<Rightarrow> u16" where
  "get16 bs i = ucast (bs ! i) OR push_bit 8 (ucast (bs ! (i + 1)))"

definition get32 :: "bytes \<Rightarrow> nat \<Rightarrow> u32" where
  "get32 bs i =
     ucast (bs ! i) OR push_bit 8 (ucast (bs ! (i + 1))) OR
     push_bit 16 (ucast (bs ! (i + 2))) OR push_bit 24 (ucast (bs ! (i + 3)))"

definition get64 :: "bytes \<Rightarrow> nat \<Rightarrow> u64" where
  "get64 bs i = ucast (get32 bs i) OR push_bit 32 (ucast (get32 bs (i + 4)))"

text \<open>The same loads with the bounds of the object; \<open>None\<close> is a load that leaves it.\<close>

definition rd16 :: "bytes \<Rightarrow> nat \<Rightarrow> u16 option" where
  "rd16 bs i = (if i + 2 \<le> length bs then Some (get16 bs i) else None)"

definition rd32 :: "bytes \<Rightarrow> nat \<Rightarrow> u32 option" where
  "rd32 bs i = (if i + 4 \<le> length bs then Some (get32 bs i) else None)"

definition rd64 :: "bytes \<Rightarrow> nat \<Rightarrow> u64 option" where
  "rd64 bs i = (if i + 8 \<le> length bs then Some (get64 bs i) else None)"

text \<open>Copying bytes over a part of a buffer; \<open>None\<close> when they do not fit.\<close>

definition blit :: "bytes \<Rightarrow> nat \<Rightarrow> bytes \<Rightarrow> bytes option" where
  "blit dst i src = (if i + length src \<le> length dst then Some (take i dst @ src @ drop (i + length src) dst) else None)"

definition slice :: "bytes \<Rightarrow> nat \<Rightarrow> nat \<Rightarrow> bytes option" where
  "slice bs i n = (if i + n \<le> length bs then Some (take n (drop i bs)) else None)"

lemma blit_length: "blit dst i src = Some out \<Longrightarrow> length out = length dst"
  by (auto simp: blit_def split: if_splits)

lemma length_put16 [simp]: "length (put16 v) = 2"
  by (simp add: put16_def)

lemma length_put32 [simp]: "length (put32 v) = 4"
  by (simp add: put32_def)

lemma get16_put16 [mem_simps]: "length xs = i \<Longrightarrow> get16 (xs @ put16 v @ ys) i = v"
proof (rule bit_word_eqI)
  fix n assume len: "length xs = i" and "n < LENGTH(16)"
  then have "n < 8 \<or> 8 \<le> n \<and> n < 16" by auto
  then show "bit (get16 (xs @ put16 v @ ys) i) n = bit v n"
    using len by (auto simp: get16_def put16_def nth_append bit_simps)
qed

lemma get32_put32 [mem_simps]: "length xs = i \<Longrightarrow> get32 (xs @ put32 v @ ys) i = v"
proof (rule bit_word_eqI)
  fix n assume len: "length xs = i" and "n < LENGTH(32)"
  then have "n < 8 \<or> 8 \<le> n \<and> n < 16 \<or> 16 \<le> n \<and> n < 24 \<or> 24 \<le> n \<and> n < 32" by auto
  then show "bit (get32 (xs @ put32 v @ ys) i) n = bit v n"
    using len by (elim disjE) (simp_all add: get32_def put32_def nth_append bit_simps less_diff_conv2)
qed

end
