(* ===== verification/KString.thy ===== *)
theory KString
  imports Prelude "HOL-Library.Sublist"
begin

text \<open>
  \<^verbatim>\<open>kernel/lib/kstring.c\<close>: the string and memory helpers of the kernel.  A
  \<^verbatim>\<open>const char *\<close> argument is a \<open>cptr\<close>; the recursion consumes the object suffix the
  pointer stands for, so the result \<open>None\<close> is a read (or write) outside the object and
  the lemmas below show that it cannot happen on NUL-terminated strings.  \<open>kmemset\<close> and
  \<open>kmemcpy\<close> work on the flat byte memory, one byte at a time and in the order of the C
  loops.
\<close>

section \<open>The operations\<close>

text \<open>\<^verbatim>\<open>(s1 == s2) ? 0 : (s1 ? 1 : -1)\<close>, reached when one of the pointers is null.\<close>

definition null_cmp :: "cptr \<Rightarrow> cptr \<Rightarrow> int" where
  "null_cmp s1 s2 = (if s1 = None \<and> s2 = None then 0 else if s1 \<noteq> None then 1 else -1)"

fun kstrcmp_loop :: "bytes \<Rightarrow> bytes \<Rightarrow> int option" where
  "kstrcmp_loop (a # s1) (b # s2) =
     (if a \<noteq> 0 \<and> a = b then kstrcmp_loop s1 s2 else Some (uint a - uint b))"
| "kstrcmp_loop _ _ = None"

fun kstrcmp :: "cptr \<Rightarrow> cptr \<Rightarrow> int option" where
  "kstrcmp (Some s1) (Some s2) = kstrcmp_loop s1 s2"
| "kstrcmp s1 s2 = Some (null_cmp s1 s2)"

fun kstrncmp_loop :: "nat \<Rightarrow> bytes \<Rightarrow> bytes \<Rightarrow> int option" where
  "kstrncmp_loop 0 s1 s2 = Some 0"
| "kstrncmp_loop (Suc n) (a # s1) (b # s2) =
     (if a \<noteq> b \<or> a = 0 then Some (uint a - uint b) else kstrncmp_loop n s1 s2)"
| "kstrncmp_loop (Suc n) _ _ = None"

fun kstrncmp :: "cptr \<Rightarrow> cptr \<Rightarrow> nat \<Rightarrow> int option" where
  "kstrncmp s1 s2 n =
     (if n = 0 then Some 0
      else case (s1, s2) of
             (Some a, Some b) \<Rightarrow> kstrncmp_loop n a b
           | _ \<Rightarrow> Some (null_cmp s1 s2))"

fun kstrlen_loop :: "bytes \<Rightarrow> nat option" where
  "kstrlen_loop [] = None"
| "kstrlen_loop (c # p) = (if c = 0 then Some 0 else map_option Suc (kstrlen_loop p))"

fun kstrlen :: "cptr \<Rightarrow> nat option" where
  "kstrlen None = Some 0"
| "kstrlen (Some s) = kstrlen_loop s"

text \<open>
  The copy loop of \<open>kstrncpy\<close>: the arguments are the destination and source suffixes at
  index \<open>i\<close> and the remaining length \<open>n - i\<close>; the result is the new destination suffix.
\<close>

fun kstrncpy_loop :: "bytes \<Rightarrow> bytes \<Rightarrow> nat \<Rightarrow> bytes option" where
  "kstrncpy_loop (d # dst) src (Suc 0) = Some (0 # dst)"
| "kstrncpy_loop (d # dst) (c # src) (Suc (Suc n)) =
     (if c \<noteq> 0 then map_option (\<lambda>r. c # r) (kstrncpy_loop dst src (Suc n)) else Some (0 # dst))"
| "kstrncpy_loop _ _ _ = None"

fun kstrncpy :: "cptr \<Rightarrow> cptr \<Rightarrow> nat \<Rightarrow> cptr option" where
  "kstrncpy (Some dst) (Some src) n =
     (if n = 0 then Some (Some dst) else map_option Some (kstrncpy_loop dst src n))"
| "kstrncpy dst src n = Some dst"

fun kstrstr_loop :: "bytes \<Rightarrow> bytes \<Rightarrow> nat \<Rightarrow> cptr option" where
  "kstrstr_loop [] needle nlen = None"
| "kstrstr_loop (c # h) needle nlen =
     (if c = 0 then Some None
      else case kstrncmp (Some (c # h)) (Some needle) nlen of
             None \<Rightarrow> None
           | Some r \<Rightarrow> if r = 0 then Some (Some (c # h)) else kstrstr_loop h needle nlen)"

fun kstrstr :: "cptr \<Rightarrow> cptr \<Rightarrow> cptr option" where
  "kstrstr (Some haystack) (Some needle) =
     (case needle of
        [] \<Rightarrow> None
      | c # _ \<Rightarrow>
          if c = 0 then Some (Some haystack)
          else (case kstrlen (Some needle) of
                  None \<Rightarrow> None
                | Some nlen \<Rightarrow> kstrstr_loop haystack needle nlen))"
| "kstrstr _ _ = Some None"

fun kstrchr_loop :: "bytes \<Rightarrow> int \<Rightarrow> cptr option" where
  "kstrchr_loop [] c = None"
| "kstrchr_loop (b # s) c =
     (if b = 0 then Some (if c = 0 then Some (b # s) else None)
      else if b = word_of_int c then Some (Some (b # s))
      else kstrchr_loop s c)"

fun kstrchr :: "cptr \<Rightarrow> int \<Rightarrow> cptr option" where
  "kstrchr None c = Some None"
| "kstrchr (Some s) c = kstrchr_loop s c"

fun kstrrchr_loop :: "bytes \<Rightarrow> int \<Rightarrow> cptr \<Rightarrow> cptr option" where
  "kstrrchr_loop [] c lst = None"
| "kstrrchr_loop (b # s) c lst =
     (if b = 0 then Some (if c = 0 then Some (b # s) else lst)
      else kstrrchr_loop s c (if b = word_of_int c then Some (b # s) else lst))"

fun kstrrchr :: "cptr \<Rightarrow> int \<Rightarrow> cptr option" where
  "kstrrchr None c = Some None"
| "kstrrchr (Some s) c = kstrrchr_loop s c None"

fun kmemset :: "memory \<Rightarrow> u64 \<Rightarrow> u8 \<Rightarrow> nat \<Rightarrow> memory" where
  "kmemset m p c 0 = m"
| "kmemset m p c (Suc n) = kmemset (m(p := c)) (p + 1) c n"

fun kmemcpy :: "memory \<Rightarrow> u64 \<Rightarrow> u64 \<Rightarrow> nat \<Rightarrow> memory" where
  "kmemcpy m d s 0 = m"
| "kmemcpy m d s (Suc n) = kmemcpy (m(d := m s)) (d + 1) (s + 1) n"

section \<open>C string values\<close>

text \<open>The value of a C string: the bytes before the first NUL.\<close>

definition cval :: "bytes \<Rightarrow> bytes" where
  "cval s = takeWhile (\<lambda>c. c \<noteq> 0) s"

abbreviation nul_term :: "bytes \<Rightarrow> bool" where
  "nul_term s \<equiv> 0 \<in> set s"

lemma cval_Nil [simp]: "cval [] = []"
  and cval_Cons [simp]: "cval (c # s) = (if c = 0 then [] else c # cval s)"
  by (simp_all add: cval_def)

lemma cval_no_nul: "0 \<notin> set (cval s)"
  by (auto simp: cval_def dest: set_takeWhileD)

lemma cval_prefix: "nul_term s \<Longrightarrow> \<exists>rest. s = cval s @ 0 # rest"
  by (induction s) auto

lemma cval_append_nul [simp]: "0 \<notin> set s \<Longrightarrow> cval (s @ 0 # r) = s"
  by (induction s) auto

lemma kstrlen_loop_eq: "kstrlen_loop s = (if nul_term s then Some (length (cval s)) else None)"
  by (induction s) auto

lemma kstrlen_cval: "nul_term s \<Longrightarrow> kstrlen (Some s) = Some (length (cval s))"
  by (simp add: kstrlen_loop_eq)

section \<open>Comparison\<close>

abbreviation byte_less :: "(u8 \<times> u8) set" where
  "byte_less \<equiv> {(a, b). a < b}"

lemma kstrcmp_loop_spec:
  assumes "nul_term s" and "nul_term t"
  shows "\<exists>r. kstrcmp_loop s t = Some r \<and> (r = 0 \<longleftrightarrow> cval s = cval t) \<and>
           (r < 0 \<longleftrightarrow> (cval s, cval t) \<in> lexord byte_less)"
  using assms
proof (induction s t rule: kstrcmp_loop.induct)
  case (1 a s b t)
  show ?case
  proof (cases "a \<noteq> 0 \<and> a = b")
    case True
    then show ?thesis using 1 by auto
  next
    case False
    then show ?thesis
      by (auto simp: word_less_def word_uint_eq_iff order_less_le)
  qed
qed auto

lemma kstrncmp_loop_zero_iff:
  assumes "nul_term s" and "nul_term t"
  shows "\<exists>r. kstrncmp_loop n s t = Some r \<and> (r = 0 \<longleftrightarrow> take n (cval s) = take n (cval t))"
  using assms
  by (induction n s t rule: kstrncmp_loop.induct) (auto simp: word_uint_eq_iff)

lemma kstrncmp_zero_iff:
  assumes "nul_term s" and "nul_term t"
  obtains r where "kstrncmp (Some s) (Some t) n = Some r"
    and "r = 0 \<longleftrightarrow> take n (cval s) = take n (cval t)"
  using kstrncmp_loop_zero_iff [OF assms, of n] by (cases "n = 0") auto

section \<open>Copying\<close>

lemma kstrncpy_loop_eq:
  assumes "nul_term src" and "n \<le> length dst" and "0 < n"
  shows "kstrncpy_loop dst src n =
           Some (take (n - 1) (cval src) @ 0 # drop (Suc (length (take (n - 1) (cval src)))) dst)"
  using assms
  by (induction dst src n rule: kstrncpy_loop.induct) auto

section \<open>Searching\<close>

lemma prefix_iff_take: "prefix xs ys \<longleftrightarrow> take (length xs) ys = xs"
  by (metis append_eq_conv_conj prefix_def)

lemma kstrstr_loop_spec:
  assumes "nul_term h" and "nul_term nd" and "cval nd \<noteq> []" and "nlen = length (cval nd)"
  shows "kstrstr_loop h nd nlen =
           Some (case scan (\<lambda>k. prefix (cval nd) (drop k (cval h))) [0..<length (cval h)] of
                   None \<Rightarrow> None
                 | Some k \<Rightarrow> Some (drop k h))"
  using assms(1)
proof (induction h)
  case Nil
  then show ?case by simp
next
  case (Cons c h)
  show ?case
  proof (cases "c = 0")
    case True
    then show ?thesis by simp
  next
    case False
    then have h: "nul_term h" using Cons.prems by simp
    from assms(2) Cons.prems obtain r where r: "kstrncmp (Some (c # h)) (Some nd) nlen = Some r"
      and r0: "r = 0 \<longleftrightarrow> take nlen (cval (c # h)) = take nlen (cval nd)"
      using kstrncmp_zero_iff by metis
    have r0': "r = 0 \<longleftrightarrow> prefix (cval nd) (cval (c # h))"
      using r0 assms(4) by (simp add: prefix_iff_take)
    have up: "[0..<Suc (length (cval h))] = 0 # map Suc [0..<length (cval h)]"
      by (simp add: upt_conv_Cons map_Suc_upt del: upt_Suc)
    show ?thesis
      using False r r0' Cons.IH [OF h]
      by (simp add: up scan_map comp_def del: kstrncmp.simps upt_Suc split: option.splits)
  qed
qed

lemma kstrchr_loop_spec:
  assumes "nul_term s" and "c \<noteq> 0"
  shows "kstrchr_loop s c =
           Some (map_option (\<lambda>k. drop k s) (scan (\<lambda>b. b = word_of_int c) (cval s)))"
  using assms(1)
proof (induction s)
  case Nil
  then show ?case by simp
next
  case (Cons b s)
  then show ?case using assms(2)
    by (auto simp: option.map_comp comp_def)
qed

lemma kstrrchr_loop_None:
  "nul_term s \<Longrightarrow> word_of_int c \<notin> set (cval s) \<Longrightarrow> c \<noteq> 0 \<Longrightarrow> kstrrchr_loop s c l = Some l"
  by (induction s arbitrary: l) (auto split: if_splits)

lemma kstrrchr_loop_Some:
  assumes "nul_term s" and "c \<noteq> 0" and "cval s = xs @ word_of_int c # ys" and "word_of_int c \<notin> set ys"
  shows "kstrrchr_loop s c l = Some (Some (drop (length xs) s))"
  using assms
proof (induction xs arbitrary: s l)
  case Nil
  then obtain b s' where s: "s = b # s'" by (cases s) auto
  with Nil show ?case
    by (auto simp: kstrrchr_loop_None split: if_splits)
next
  case (Cons x xs)
  then obtain b s' where s: "s = b # s'" by (cases s) auto
  with Cons show ?case
    by (auto split: if_splits)
qed

section \<open>Memory blocks\<close>

text \<open>The address \<open>x\<close> lies in the block of \<open>n\<close> bytes at \<open>p\<close>.\<close>

definition in_block :: "u64 \<Rightarrow> nat \<Rightarrow> u64 \<Rightarrow> bool" where
  "in_block p n x \<longleftrightarrow> unat (x - p) < n"

lemma in_block_Suc:
  assumes "n < 2 ^ 64"
  shows "in_block p (Suc n) x \<longleftrightarrow> x = p \<or> in_block (p + 1) n x"
proof (cases "x = p")
  case True
  then show ?thesis by (simp add: in_block_def)
next
  case False
  then have "x - p \<noteq> 0" by simp
  then have "unat (x - p - 1) = unat (x - p) - 1"
    by (rule unat_minus_one)
  moreover have "unat (x - p) > 0"
    using \<open>x - p \<noteq> 0\<close> by (simp add: unat_gt_0)
  ultimately show ?thesis
    using False by (simp add: in_block_def diff_diff_eq) linarith
qed

lemma kmemset_eq:
  "n \<le> 2 ^ 64 \<Longrightarrow> kmemset m p c n = (\<lambda>x. if in_block p n x then c else m x)"
proof (induction n arbitrary: m p)
  case 0
  then show ?case by (simp add: in_block_def)
next
  case (Suc n)
  then show ?case
    by (auto simp: in_block_Suc fun_eq_iff)
qed

text \<open>Copying between blocks that do not overlap.\<close>

definition disjoint_blocks :: "u64 \<Rightarrow> u64 \<Rightarrow> nat \<Rightarrow> bool" where
  "disjoint_blocks d s n \<longleftrightarrow> (\<forall>x. \<not> (in_block d n x \<and> in_block s n x))"

lemma kmemcpy_outside:
  "n \<le> 2 ^ 64 \<Longrightarrow> \<not> in_block d n x \<Longrightarrow> kmemcpy m d s n x = m x"
  by (induction n arbitrary: m d s) (auto simp: in_block_Suc)

lemma kmemcpy_inside:
  assumes "n \<le> 2 ^ 64" and "disjoint_blocks d s n" and "i < n"
  shows "kmemcpy m d s n (d + of_nat i) = m (s + of_nat i)"
  using assms
proof (induction n arbitrary: m d s i)
  case 0
  then show ?case by simp
next
  case (Suc n)
  have n: "n < 2 ^ 64" using Suc.prems by simp
  have dis: "disjoint_blocks (d + 1) (s + 1) n"
    using Suc.prems(2) n by (auto simp: disjoint_blocks_def in_block_Suc)
  show ?case
  proof (cases i)
    case 0
    have "\<not> in_block (d + 1) n d"
      using n by (simp add: in_block_def unsigned_minus_1_eq_mask mask_eq_exp_minus_1)
    then show ?thesis
      using 0 n by (simp add: kmemcpy_outside)
  next
    case (Suc j)
    have "in_block s (Suc n) (s + of_nat (Suc j))"
      using Suc n \<open>i < Suc n\<close> by (simp add: in_block_def unat_of_nat del: of_nat_Suc)
    then have "s + of_nat (Suc j) \<noteq> d"
      using \<open>disjoint_blocks d s (Suc n)\<close> n
      by (auto simp: disjoint_blocks_def in_block_Suc)
    moreover have "kmemcpy (m(d := m s)) (d + 1) (s + 1) n (d + 1 + of_nat j)
        = (m(d := m s)) (s + 1 + of_nat j)"
      using Suc \<open>i < Suc n\<close> n dis by (intro Suc.IH) auto
    ultimately show ?thesis
      using Suc by (simp add: algebra_simps)
  qed
qed

section \<open>Properties\<close>

text \<open>
  \<open>kstrcmp\<close> on two NUL-terminated strings never reads outside them and orders them:
  the result is zero exactly when the strings are equal and negative exactly when the
  first is lexicographically smaller as a sequence of unsigned bytes.
\<close>

theorem kstrcmp_order:
  assumes "nul_term s" and "nul_term t"
  shows "\<exists>r. kstrcmp (Some s) (Some t) = Some r \<and> (r = 0 \<longleftrightarrow> cval s = cval t) \<and>
           (r < 0 \<longleftrightarrow> (cval s, cval t) \<in> lexord byte_less)"
  using kstrcmp_loop_spec [OF assms] by simp

text \<open>
  \<open>kstrncpy\<close> with a size no larger than the destination stays inside the first \<open>n\<close>
  bytes of the destination, always terminates the copy, and the copied string is the
  source cut to \<open>n - 1\<close> bytes.
\<close>

theorem kstrncpy_bounded:
  assumes "nul_term src" and "0 < n" and "n \<le> length dst"
  shows "\<exists>out. kstrncpy (Some dst) (Some src) n = Some (Some out) \<and> length out = length dst \<and>
           nul_term (take n out) \<and> cval out = take (n - 1) (cval src) \<and> drop n out = drop n dst"
proof -
  let ?k = "take (n - 1) (cval src)"
  let ?out = "?k @ 0 # drop (Suc (length ?k)) dst"
  have k: "length ?k < n" using assms(2) by simp
  have "0 \<notin> set ?k"
    using cval_no_nul by (metis in_set_takeD)
  then have "cval ?out = ?k" by (rule cval_append_nul)
  moreover have "drop n ?out = drop n dst" and "nul_term (take n ?out)"
    using k by (simp_all add: take_Cons' drop_Cons' min_def)
  moreover have "length ?out = length dst" using assms(3) k by simp
  moreover have "kstrncpy (Some dst) (Some src) n = Some (Some ?out)"
    using kstrncpy_loop_eq [OF assms(1,3,2)] assms(2) by simp
  ultimately show ?thesis by blast
qed

text \<open>
  \<open>kstrstr\<close> finds the first occurrence: for a non-empty needle it returns the pointer
  to the least position where the needle is a prefix of the rest of the haystack, and
  \<^verbatim>\<open>NULL\<close> when there is none.
\<close>

theorem kstrstr_first:
  assumes "nul_term h" and "nul_term nd" and "cval nd \<noteq> []"
  shows "kstrstr (Some h) (Some nd) =
           Some (case scan (\<lambda>k. prefix (cval nd) (drop k (cval h))) [0..<length (cval h)] of
                   None \<Rightarrow> None
                 | Some k \<Rightarrow> Some (drop k h))"
proof -
  from assms(3) obtain c nd' where nd: "nd = c # nd'" "c \<noteq> 0"
    by (cases nd) (auto split: if_splits)
  have "kstrlen (Some nd) = Some (length (cval nd))"
    using assms(2) by (rule kstrlen_cval)
  then show ?thesis
    using nd kstrstr_loop_spec [OF assms refl] by (simp del: kstrlen.simps cval_Cons)
qed

end
