(* ===== verification/PhysMem.thy ===== *)
theory PhysMem
  imports KString
begin

text \<open>
  The physical frame allocator of \<^verbatim>\<open>kernel/mm/memory.c\<close>: a bitmap of 32768 frames above
  the physical address 0x2000000.  The state record \<open>mm\<close> also carries what the paging code
  of the same file uses: the kernel's top-level table, the machine's memory, the \<open>cr3\<close>
  register and the translation cache, which \<open>invlpg\<close> and a write to \<open>cr3\<close> flush.

  Pointers are physical addresses (\<open>0\<close> is \<open>NULL\<close>); an outer \<open>None\<close> is an access outside
  the bitmap.
\<close>

section \<open>State\<close>

record mm =
  page_bitmap :: bytes
  kernel_pml4 :: u64
  ram :: memory
  cr3 :: u64
  tlb :: "u64 \<Rightarrow> (u64 \<times> u64) option"

definition MAX_PAGES :: nat where
  "MAX_PAGES = 32768"

definition PAGE_SIZE :: nat where
  "PAGE_SIZE = 4096"

definition phys_memory_base :: u64 where
  "phys_memory_base = 0x2000000"

section \<open>The allocator\<close>

text \<open>\<^verbatim>\<open>page_bitmap[i / 8] & (1 << (i % 8))\<close>\<close>

definition frame_used :: "bytes \<Rightarrow> nat \<Rightarrow> bool" where
  "frame_used bm i = (bm ! (i div 8) AND push_bit (i mod 8) 1 \<noteq> 0)"

text \<open>The bitmap read as an array of 64-bit words.\<close>

definition bm64 :: "bytes \<Rightarrow> nat \<Rightarrow> u64" where
  "bm64 bm k =
     ucast (bm ! (8 * k)) OR push_bit 8 (ucast (bm ! (8 * k + 1))) OR
     push_bit 16 (ucast (bm ! (8 * k + 2))) OR push_bit 24 (ucast (bm ! (8 * k + 3))) OR
     push_bit 32 (ucast (bm ! (8 * k + 4))) OR push_bit 40 (ucast (bm ! (8 * k + 5))) OR
     push_bit 48 (ucast (bm ! (8 * k + 6))) OR push_bit 56 (ucast (bm ! (8 * k + 7)))"

text \<open>The fast path: skip blocks of 64 allocated frames.\<close>

function skip_full :: "bytes \<Rightarrow> nat \<Rightarrow> nat" where
  "skip_full bm i =
     (if i \<le> MAX_PAGES - 64 \<and> bm64 bm (i div 64) = - 1 then skip_full bm (i + 64) else i)"
  by pat_completeness auto
termination
  by (relation "measure (\<lambda>(bm, i). MAX_PAGES - i)") (auto simp: MAX_PAGES_def)

text \<open>The inner loop over \<open>j\<close>: a frame in use, the whole run free, or a read past the bitmap.\<close>

datatype run_scan = Run_Free | Run_Used nat | Run_OOB

function scan_run :: "bytes \<Rightarrow> nat \<Rightarrow> nat \<Rightarrow> nat \<Rightarrow> run_scan" where
  "scan_run bm i count j =
     (if j < count then
        if length bm \<le> (i + j) div 8 then Run_OOB
        else if frame_used bm (i + j) then Run_Used j
        else scan_run bm i count (j + 1)
      else Run_Free)"
  by pat_completeness auto
termination
  by (relation "measure (\<lambda>(bm, i, count, j). count - j)") auto

declare skip_full.simps [simp del] scan_run.simps [simp del]

lemma skip_full_ge: "i \<le> skip_full bm i"
proof (induction bm i rule: skip_full.induct)
  case (1 bm i)
  then show ?case
    by (subst skip_full.simps) auto
qed

text \<open>
  The outer loop.  The bound is the C expression \<^verbatim>\<open>MAX_PAGES - count\<close> in 64-bit unsigned
  arithmetic, so it wraps for \<open>count > MAX_PAGES\<close>.  The result is \<open>None\<close> for a read past
  the bitmap, \<open>Some None\<close> when no run is free, and otherwise the first frame of the run.
\<close>

definition alloc_bound :: "u64 \<Rightarrow> nat" where
  "alloc_bound count = unat (of_nat MAX_PAGES - count)"

function alloc_search :: "bytes \<Rightarrow> u64 \<Rightarrow> nat \<Rightarrow> nat option option" where
  "alloc_search bm count i =
     (if i \<le> alloc_bound count then
        (let i' = (if i mod 64 = 0 \<and> count \<le> 64 then skip_full bm i else i) in
         if alloc_bound count < i' then Some None
         else (case scan_run bm i' (unat count) 0 of
             Run_OOB \<Rightarrow> None
           | Run_Free \<Rightarrow> Some (Some i')
           | Run_Used j \<Rightarrow> alloc_search bm count (i' + j + 1)))
      else Some None)"
  by pat_completeness auto
termination
proof (relation "measure (\<lambda>(bm, count, i). Suc (alloc_bound count) - i)")
  fix bm :: bytes and count :: u64 and i i' j :: nat
  assume "i \<le> alloc_bound count" "i' = (if i mod 64 = 0 \<and> count \<le> 64 then skip_full bm i else i)"
    "\<not> alloc_bound count < i'"
  then show "((bm, count, i' + j + 1), bm, count, i)
    \<in> measure (\<lambda>(bm, count, i). Suc (alloc_bound count) - i)"
    using skip_full_ge [of i bm] by (auto split: if_splits)
qed simp

declare alloc_search.simps [simp del]

text \<open>The marking loop \<^verbatim>\<open>page_bitmap[(i + j) / 8] |= (1 << ((i + j) % 8))\<close>.\<close>

definition set_frame :: "bytes \<Rightarrow> nat \<Rightarrow> bytes" where
  "set_frame bm i = bm[i div 8 := bm ! (i div 8) OR push_bit (i mod 8) 1]"

fun set_frames :: "bytes \<Rightarrow> nat \<Rightarrow> nat \<Rightarrow> bytes" where
  "set_frames bm i 0 = bm"
| "set_frames bm i (Suc n) = set_frames (set_frame bm i) (i + 1) n"

definition frame_addr :: "nat \<Rightarrow> u64" where
  "frame_addr i = phys_memory_base + of_nat (i * PAGE_SIZE)"

definition alloc_pages :: "mm \<Rightarrow> u64 \<Rightarrow> (mm \<times> u64) option" where
  "alloc_pages m count =
     (if count = 0 then Some (m, 0)
      else case alloc_search (page_bitmap m) count 0 of
          None \<Rightarrow> None
        | Some None \<Rightarrow> Some (m, 0)
        | Some (Some i) \<Rightarrow>
            Some (m\<lparr>page_bitmap := set_frames (page_bitmap m) i (unat count),
                    ram := kmemset (ram m) (frame_addr i) 0 (unat count * PAGE_SIZE)\<rparr>,
                  frame_addr i))"

text \<open>\<^verbatim>\<open>page_bitmap[index / 8] &= ~(1 << (index % 8))\<close>\<close>

definition clear_frame :: "bytes \<Rightarrow> nat \<Rightarrow> bytes" where
  "clear_frame bm i = bm[i div 8 := bm ! (i div 8) AND NOT (push_bit (i mod 8) 1)]"

definition free_page :: "mm \<Rightarrow> u64 \<Rightarrow> mm" where
  "free_page m addr =
     (if addr < phys_memory_base then m
      else
        let index = unat (addr - phys_memory_base) div PAGE_SIZE in
        if index < MAX_PAGES then
          m\<lparr>page_bitmap := clear_frame (page_bitmap m) index\<rparr>
        else m)"

definition alloc_page :: "mm \<Rightarrow> (mm \<times> u64) option" where
  "alloc_page m = alloc_pages m 1"

definition mm_get_total_bytes :: nat where
  "mm_get_total_bytes = MAX_PAGES * PAGE_SIZE"

definition mm_get_free_bytes :: "mm \<Rightarrow> nat" where
  "mm_get_free_bytes m =
     length (filter (\<lambda>i. \<not> frame_used (page_bitmap m) i) [0..<MAX_PAGES]) * PAGE_SIZE"

section \<open>Lemmas\<close>

subsection \<open>The bitmap as a set of frames\<close>

definition mm_ok :: "mm \<Rightarrow> bool" where
  "mm_ok m \<longleftrightarrow> length (page_bitmap m) = MAX_PAGES div 8"

definition used_frames :: "mm \<Rightarrow> nat set" where
  "used_frames m = {i. i < MAX_PAGES \<and> frame_used (page_bitmap m) i}"

lemma frame_used_bit: "frame_used bm i \<longleftrightarrow> bit (bm ! (i div 8)) (i mod 8)"
  unfolding frame_used_def by (rule and_push_bit_1_iff)

lemma bit_u8_beyond: "8 \<le> n \<Longrightarrow> \<not> bit (w :: u8) n"
  by (auto dest: bit_imp_le_length)

lemma bm64_bit:
  assumes "q < 8" and "r < 8"
  shows "bit (bm64 bm k) (8 * q + r) = bit (bm ! (8 * k + q)) r"
proof -
  consider "q = 0" | "q = 1" | "q = 2" | "q = 3" | "q = 4" | "q = 5" | "q = 6" | "q = 7"
    using assms(1) by linarith
  then show ?thesis
    by cases (use assms(2) in \<open>auto simp: bm64_def bit_simps bit_u8_beyond\<close>)
qed

lemma bm64_full:
  assumes "bm64 bm k = - 1" and "b < 64"
  shows "frame_used bm (64 * k + b)"
proof -
  have "bit (bm64 bm k) (8 * (b div 8) + b mod 8)"
    using assms by simp
  then have "bit (bm ! (8 * k + b div 8)) (b mod 8)"
    using assms(2) by (subst (asm) bm64_bit) auto
  moreover have "(64 * k + b) div 8 = 8 * k + b div 8" "(64 * k + b) mod 8 = b mod 8"
    by presburger+
  ultimately show ?thesis
    by (simp add: frame_used_bit)
qed

lemma frame_used_set_frame:
  assumes "i div 8 < length bm"
  shows "frame_used (set_frame bm i) k \<longleftrightarrow> k = i \<or> frame_used bm k"
proof (cases "k div 8 = i div 8")
  case True
  then have "k mod 8 = i mod 8 \<longleftrightarrow> k = i"
    by (metis div_mult_mod_eq)
  then show ?thesis
    using assms True by (auto simp: frame_used_bit set_frame_def bit_simps)
next
  case False
  then show ?thesis
    by (auto simp: frame_used_bit set_frame_def)
qed

lemma length_set_frame [simp]: "length (set_frame bm i) = length bm"
  by (simp add: set_frame_def)

lemma length_set_frames [simp]: "length (set_frames bm i n) = length bm"
  by (induction bm i n rule: set_frames.induct) auto

lemma frame_used_set_frames:
  "i + n \<le> 8 * length bm \<Longrightarrow>
    frame_used (set_frames bm i n) k \<longleftrightarrow> i \<le> k \<and> k < i + n \<or> frame_used bm k"
proof (induction bm i n rule: set_frames.induct)
  case (2 bm i n)
  then have "i div 8 < length bm"
    by (simp add: less_mult_imp_div_less mult.commute)
  then show ?case
    using 2 by (auto simp: frame_used_set_frame)
qed auto

lemma frame_used_clear:
  assumes "i div 8 < length bm"
  shows "frame_used (clear_frame bm i) k \<longleftrightarrow> k \<noteq> i \<and> frame_used bm k"
proof (cases "k div 8 = i div 8")
  case True
  then have "k mod 8 = i mod 8 \<longleftrightarrow> k = i"
    by (metis div_mult_mod_eq)
  then show ?thesis
    using assms True by (auto simp: frame_used_bit clear_frame_def bit_simps dest: bit_imp_le_length)
next
  case False
  then show ?thesis
    by (auto simp: frame_used_bit clear_frame_def)
qed

subsection \<open>The search is first fit\<close>

definition run_free :: "bytes \<Rightarrow> nat \<Rightarrow> nat \<Rightarrow> bool" where
  "run_free bm count i \<longleftrightarrow> (\<forall>j < count. \<not> frame_used bm (i + j))"

definition first_fit :: "bytes \<Rightarrow> nat \<Rightarrow> nat option" where
  "first_fit bm count = scan (run_free bm count) [0..<Suc MAX_PAGES - count]"

lemma skip_full_spec:
  "i mod 64 = 0 \<Longrightarrow> i \<le> x \<Longrightarrow> x < skip_full bm i \<Longrightarrow> frame_used bm x"
proof (induction bm i rule: skip_full.induct)
  case (1 bm i)
  show ?case
  proof (cases "i \<le> MAX_PAGES - 64 \<and> bm64 bm (i div 64) = - 1")
    case True
    then have skip: "skip_full bm i = skip_full bm (i + 64)"
      by (simp add: skip_full.simps [of bm i])
    show ?thesis
    proof (cases "x < i + 64")
      case True
      then have "x = 64 * (i div 64) + (x - i)" "x - i < 64"
        using "1.prems" by (auto simp: mult.commute minus_mod_eq_div_mult [symmetric])
      then show ?thesis
        using bm64_full [of bm "i div 64" "x - i"] \<open>i \<le> MAX_PAGES - 64 \<and> _\<close> by simp
    next
      case False
      then show ?thesis
        using 1 \<open>i \<le> MAX_PAGES - 64 \<and> _\<close> skip by simp
    qed
  next
    case False
    then have "skip_full bm i = i"
      by (subst skip_full.simps) auto
    then show ?thesis
      using "1.prems" by simp
  qed
qed

lemma scan_run_spec:
  assumes "length bm = MAX_PAGES div 8" and "i + count \<le> MAX_PAGES"
  shows "case scan_run bm i count j of
      Run_OOB \<Rightarrow> False
    | Run_Free \<Rightarrow> (\<forall>k. j \<le> k \<and> k < count \<longrightarrow> \<not> frame_used bm (i + k))
    | Run_Used k \<Rightarrow> j \<le> k \<and> k < count \<and> frame_used bm (i + k)"
  using assms
proof (induction bm i count j rule: scan_run.induct)
  case (1 bm i count j)
  show ?case
  proof (cases "j < count \<and> \<not> frame_used bm (i + j)")
    case True
    then have "\<not> length bm \<le> (i + j) div 8"
      using 1(2, 3) by (auto simp: MAX_PAGES_def not_le less_mult_imp_div_less)
    then have step: "scan_run bm i count j = scan_run bm i count (j + 1)"
      using True by (simp add: scan_run.simps [of bm i count j])
    show ?thesis
      using 1(1) [OF _ \<open>\<not> length bm \<le> (i + j) div 8\<close> _ 1(2, 3)] True unfolding step
      by (auto split: run_scan.splits simp: Suc_le_eq dest: le_neq_implies_less)
  next
    case False
    then show ?thesis
      using 1(2, 3)
      by (auto simp: scan_run.simps [of bm i count j] MAX_PAGES_def not_le less_mult_imp_div_less)
  qed
qed

lemma alloc_bound_le: "unat count \<le> MAX_PAGES \<Longrightarrow> alloc_bound count = MAX_PAGES - unat count"
  by (simp add: alloc_bound_def MAX_PAGES_def unat_less_iff_le_diff word_le_nat_alt)

lemma run_not_free_used: "frame_used bm x \<Longrightarrow> i \<le> x \<Longrightarrow> x < i + count \<Longrightarrow> \<not> run_free bm count i"
  by (auto simp: run_free_def intro!: exI [of _ "x - i"])

lemma alloc_search_spec:
  assumes "length bm = MAX_PAGES div 8" and "0 < count" and "unat count \<le> MAX_PAGES"
  shows "\<exists>r. alloc_search bm count i = Some r \<and>
    (case r of
        None \<Rightarrow> \<forall>x. i \<le> x \<and> x + unat count \<le> MAX_PAGES \<longrightarrow> \<not> run_free bm (unat count) x
      | Some k \<Rightarrow> i \<le> k \<and> k + unat count \<le> MAX_PAGES \<and> run_free bm (unat count) k \<and>
          (\<forall>x. i \<le> x \<and> x < k \<longrightarrow> \<not> run_free bm (unat count) x))"
  using assms
proof (induction bm count i rule: alloc_search.induct)
  case (1 bm count i)
  let ?n = "unat count"
  have bound: "alloc_bound count = MAX_PAGES - ?n"
    using 1 by (simp add: alloc_bound_le)
  have n: "0 < ?n"
    using 1 by (simp add: unat_gt_0 word_gt_0)
  define i' where "i' = (if i mod 64 = 0 \<and> count \<le> 64 then skip_full bm i else i)"
  have i': "i \<le> i'"
    by (simp add: i'_def skip_full_ge)
  have skipped: "\<not> run_free bm ?n x" if "i \<le> x" "x < i'" for x
    using that n skip_full_spec [of i x bm] run_not_free_used [of bm x x ?n]
    by (auto simp: i'_def split: if_splits)
  show ?case
  proof (cases "i' \<le> alloc_bound count")
    case False
    then have "alloc_search bm count i = Some None"
      using i' by (subst alloc_search.simps) (auto simp: Let_def i'_def)
    then show ?thesis
      using False skipped 1(4) unfolding bound by auto
  next
    case True
    then have fits: "i' + ?n \<le> MAX_PAGES" and i: "i \<le> alloc_bound count"
      using i' 1(4) by (auto simp: bound)
    have step: "alloc_search bm count i = (case scan_run bm i' ?n 0 of
        Run_OOB \<Rightarrow> None | Run_Free \<Rightarrow> Some (Some i')
      | Run_Used j \<Rightarrow> alloc_search bm count (i' + j + 1))"
      using True i by (subst alloc_search.simps) (simp add: Let_def i'_def split: run_scan.splits)
    show ?thesis
    proof (cases "scan_run bm i' ?n 0")
      case Run_Free
      then have "run_free bm ?n i'"
        using scan_run_spec [OF 1(2) fits, of 0] by (simp add: run_free_def)
      then show ?thesis
        using Run_Free step i' fits skipped by auto
    next
      case (Run_Used j)
      then have j: "j < ?n" "frame_used bm (i' + j)"
        using scan_run_spec [OF 1(2) fits, of 0] by simp_all
      then have tried: "\<not> run_free bm ?n x" if "i \<le> x" "x < i' + j + 1" for x
        using that skipped [of x] run_not_free_used [OF j(2), of x ?n] by linarith
      obtain r where r: "alloc_search bm count (i' + j + 1) = Some r"
        and spec: "case r of
          None \<Rightarrow> \<forall>x. i' + j + 1 \<le> x \<and> x + ?n \<le> MAX_PAGES \<longrightarrow> \<not> run_free bm ?n x
        | Some k \<Rightarrow> i' + j + 1 \<le> k \<and> k + ?n \<le> MAX_PAGES \<and> run_free bm ?n k \<and>
            (\<forall>x. i' + j + 1 \<le> x \<and> x < k \<longrightarrow> \<not> run_free bm ?n x)"
        using 1(1) [OF i i'_def _ Run_Used 1(2-4)] True by auto
      then show ?thesis
        using Run_Used step tried i' by (auto split: option.splits) (metis not_less)+
    next
      case Run_OOB
      then show ?thesis
        using scan_run_spec [OF 1(2) fits, of 0] by simp
    qed
  qed
qed

lemma alloc_search_first_fit:
  assumes "length bm = MAX_PAGES div 8" and "0 < count" and "unat count \<le> MAX_PAGES"
  shows "alloc_search bm count 0 = Some (first_fit bm (unat count))"
proof -
  obtain r where "alloc_search bm count 0 = Some r" and r: "case r of
      None \<Rightarrow> \<forall>x. 0 \<le> x \<and> x + unat count \<le> MAX_PAGES \<longrightarrow> \<not> run_free bm (unat count) x
    | Some k \<Rightarrow> 0 \<le> k \<and> k + unat count \<le> MAX_PAGES \<and> run_free bm (unat count) k \<and>
        (\<forall>x. 0 \<le> x \<and> x < k \<longrightarrow> \<not> run_free bm (unat count) x)"
    using alloc_search_spec [OF assms] by blast
  moreover have "first_fit bm (unat count) = r"
  proof (cases r)
    case None
    then show ?thesis
      using r assms(3) by (auto simp: first_fit_def scan_None_iff less_Suc_eq_le)
  next
    case (Some k)
    then show ?thesis
      using r assms(3) by (auto simp: first_fit_def scan_Some_iff)
  qed
  ultimately show ?thesis by simp
qed

lemma scan_run_overrun:
  assumes "length bm = MAX_PAGES div 8" and "i + j \<le> MAX_PAGES" and "MAX_PAGES < i + count"
  shows "scan_run bm i count j = Run_OOB \<or>
    (\<exists>k. scan_run bm i count j = Run_Used k \<and> i + k < MAX_PAGES)"
  using assms
proof (induction bm i count j rule: scan_run.induct)
  case (1 bm i count j)
  show ?case
  proof (cases "length bm \<le> (i + j) div 8")
    case True
    then show ?thesis
      using 1 by (subst (1 2) scan_run.simps) auto
  next
    case False
    then have "i + j < MAX_PAGES" "j < count"
      using 1(2, 4) by (auto simp: MAX_PAGES_def not_le)
    moreover from this have "scan_run bm i count j =
        (if frame_used bm (i + j) then Run_Used j else scan_run bm i count (j + 1))"
      using False by (subst scan_run.simps) simp
    ultimately show ?thesis
      using 1 False by auto
  qed
qed

lemma alloc_search_overrun:
  assumes "length bm = MAX_PAGES div 8" and "MAX_PAGES < unat count" and "i \<le> MAX_PAGES"
  shows "alloc_search bm count i = None"
  using assms
proof (induction bm count i rule: alloc_search.induct)
  case (1 bm count i)
  have c: "\<not> count \<le> 64"
    using 1(3) by (simp add: word_le_nat_alt MAX_PAGES_def)
  have bound: "MAX_PAGES < alloc_bound count"
    using 1(3) unat_u64_less [of count]
    by (simp add: alloc_bound_def unat_sub_if_size word_size MAX_PAGES_def)
  then have i: "i \<le> alloc_bound count" "\<not> alloc_bound count < i"
    using 1(4) by auto
  consider "scan_run bm i (unat count) 0 = Run_OOB"
    | j where "scan_run bm i (unat count) 0 = Run_Used j" "i + j < MAX_PAGES"
    using scan_run_overrun [OF 1(2), of i 0 "unat count"] 1(3, 4) by auto
  then show ?case
  proof cases
    case (2 j)
    then have "alloc_search bm count (i + j + 1) = None"
      using 1(1) [OF i(1) refl _ _ 1(2, 3), of j] i c by auto
    then show ?thesis
      using 2 i c by (subst alloc_search.simps) simp
  qed (use i c in \<open>subst alloc_search.simps, simp\<close>)
qed

subsection \<open>Frame addresses\<close>

lemma unat_frame_addr: "i < MAX_PAGES \<Longrightarrow> unat (frame_addr i) = 0x2000000 + i * 4096"
  by (simp add: frame_addr_def phys_memory_base_def PAGE_SIZE_def MAX_PAGES_def unat_word_ariths
    unat_of_nat)

lemma frame_addr_inj:
  assumes "i < MAX_PAGES" and "j < MAX_PAGES"
  shows "frame_addr i = frame_addr j \<longleftrightarrow> i = j"
proof
  assume "frame_addr i = frame_addr j"
  then have "0x2000000 + i * 4096 = 0x2000000 + j * 4096"
    using unat_frame_addr [OF assms(1)] unat_frame_addr [OF assms(2)] by metis
  then show "i = j" by linarith
qed simp

lemma frame_addr_neq_0:
  assumes "i < MAX_PAGES"
  shows "frame_addr i \<noteq> 0"
proof
  assume "frame_addr i = 0"
  then show False
    using unat_frame_addr [OF assms] by simp
qed

lemma free_page_frame:
  assumes "i < MAX_PAGES"
  shows "free_page m (frame_addr i) = m\<lparr>page_bitmap := clear_frame (page_bitmap m) i\<rparr>"
proof -
  have "\<not> frame_addr i < phys_memory_base"
    using unat_frame_addr [OF assms] by (simp add: phys_memory_base_def word_less_nat_alt)
  moreover have "unat (frame_addr i - phys_memory_base) div PAGE_SIZE = i"
    using assms
    by (simp add: frame_addr_def PAGE_SIZE_def MAX_PAGES_def unat_of_nat unat_word_ariths)
  ultimately show ?thesis
    using assms by (simp add: free_page_def)
qed

lemma used_frames_free_page:
  assumes "mm_ok m" and "i < MAX_PAGES"
  shows "used_frames (free_page m (frame_addr i)) = used_frames m - {i}"
    and "mm_ok (free_page m (frame_addr i))"
    and "ram (free_page m (frame_addr i)) = ram m"
proof -
  have "i div 8 < length (page_bitmap m)"
    using assms by (simp add: mm_ok_def MAX_PAGES_def less_mult_imp_div_less)
  then show "used_frames (free_page m (frame_addr i)) = used_frames m - {i}"
    unfolding free_page_frame [OF assms(2)] used_frames_def by (auto simp: frame_used_clear)
qed (use assms in \<open>simp_all add: free_page_frame mm_ok_def clear_frame_def\<close>)

subsection \<open>The allocation contract\<close>

lemma first_fit_SomeD:
  assumes "first_fit bm n = Some i" and "n \<le> MAX_PAGES"
  shows "i + n \<le> MAX_PAGES" "run_free bm n i" "\<And>x. x < i \<Longrightarrow> \<not> run_free bm n x"
  using assms by (auto simp: first_fit_def scan_Some_iff)

lemma first_fit_None_iff:
  "n \<le> MAX_PAGES \<Longrightarrow> first_fit bm n = None \<longleftrightarrow> (\<forall>x. x + n \<le> MAX_PAGES \<longrightarrow> \<not> run_free bm n x)"
  by (auto simp: first_fit_def scan_None_iff less_Suc_eq_le)

lemma alloc_pages_eq:
  assumes "mm_ok m" and "0 < count" and "unat count \<le> MAX_PAGES"
  shows "alloc_pages m count = Some (case first_fit (page_bitmap m) (unat count) of
      None \<Rightarrow> (m, 0)
    | Some i \<Rightarrow> (m\<lparr>page_bitmap := set_frames (page_bitmap m) i (unat count),
                  ram := kmemset (ram m) (frame_addr i) 0 (unat count * PAGE_SIZE)\<rparr>, frame_addr i))"
  using assms alloc_search_first_fit [of "page_bitmap m" count]
  by (auto simp: alloc_pages_def mm_ok_def split: option.splits)

lemma used_frames_set_frames:
  assumes "mm_ok m" and "i + n \<le> MAX_PAGES"
  shows "used_frames (m\<lparr>page_bitmap := set_frames (page_bitmap m) i n, ram := r\<rparr>) =
    used_frames m \<union> {i..<i + n}"
  using assms by (auto simp: used_frames_def frame_used_set_frames mm_ok_def MAX_PAGES_def)

section \<open>The interface of a page allocator\<close>

text \<open>
  What the rest of the kernel relies on: single zeroed pages taken from a finite pool, the
  same page never handed out twice, and \<open>NULL\<close> exactly when the pool is exhausted.
\<close>

locale page_allocator =
  fixes ok :: "'s \<Rightarrow> bool"
    and pool :: "u64 set"
    and used :: "'s \<Rightarrow> u64 set"
    and mem :: "'s \<Rightarrow> memory"
    and alloc :: "'s \<Rightarrow> ('s \<times> u64) option"
    and free :: "'s \<Rightarrow> u64 \<Rightarrow> 's"
  assumes finite_pool: "finite pool"
    and null_not_pool: "0 \<notin> pool"
    and used_pool: "used s \<subseteq> pool"
    and alloc_full: "ok s \<Longrightarrow> used s = pool \<Longrightarrow> alloc s = Some (s, 0)"
    and alloc_free_page: "ok s \<Longrightarrow> used s \<noteq> pool \<Longrightarrow>
      \<exists>s' p. alloc s = Some (s', p) \<and> ok s' \<and> p \<in> pool \<and> p \<notin> used s \<and> used s' = insert p (used s) \<and>
        mem s' = (\<lambda>x. if in_block p PAGE_SIZE x then 0 else mem s x)"
    and free_pool: "ok s \<Longrightarrow> p \<in> pool \<Longrightarrow>
      ok (free s p) \<and> used (free s p) = used s - {p} \<and> mem (free s p) = mem s"
begin

lemma alloc_total: "ok s \<Longrightarrow> \<exists>s' p. alloc s = Some (s', p) \<and> ok s'"
  using alloc_full alloc_free_page by metis

lemma alloc_null_iff: "ok s \<Longrightarrow> alloc s = Some (s', p) \<Longrightarrow> p = 0 \<longleftrightarrow> used s = pool"
  using alloc_full alloc_free_page null_not_pool by (metis option.inject prod.inject)

lemma alloc_fresh:
  assumes "ok s" and "alloc s = Some (s', p)" and "p \<noteq> 0"
  shows "ok s'" "p \<in> pool" "p \<notin> used s" "used s' = insert p (used s)"
    "mem s' = (\<lambda>x. if in_block p PAGE_SIZE x then 0 else mem s x)"
  using assms alloc_full [of s] alloc_free_page [of s] by (metis option.inject prod.inject)+

lemma alloc_then_free:
  assumes "ok s" and "alloc s = Some (s', p)" and "p \<noteq> 0"
  shows "used (free s' p) = used s"
  using alloc_fresh [OF assms] free_pool [of s' p] by simp

lemma two_allocs_distinct:
  assumes "ok s" and "alloc s = Some (s', p)" and "alloc s' = Some (s'', q)" and "p \<noteq> 0" and "q \<noteq> 0"
  shows "p \<noteq> q"
  using alloc_fresh [OF assms(1, 2, 4)] alloc_fresh [of s' s'' q] assms(3, 5) by auto

end

definition frame_pool :: "u64 set" where
  "frame_pool = frame_addr ` {..<MAX_PAGES}"

definition used_pages :: "mm \<Rightarrow> u64 set" where
  "used_pages m = frame_addr ` used_frames m"

lemma frame_addr_image_eq_iff:
  assumes "A \<subseteq> {..<MAX_PAGES}" and "B \<subseteq> {..<MAX_PAGES}"
  shows "frame_addr ` A = frame_addr ` B \<longleftrightarrow> A = B"
proof -
  have "inj_on frame_addr {..<MAX_PAGES}"
    by (auto intro: inj_onI simp: frame_addr_inj)
  then show ?thesis
    using assms by (rule inj_on_image_eq_iff)
qed

lemma used_frames_le: "used_frames m \<subseteq> {..<MAX_PAGES}"
  by (auto simp: used_frames_def)

lemma used_pages_pool_iff: "used_pages m = frame_pool \<longleftrightarrow> used_frames m = {..<MAX_PAGES}"
  by (simp add: used_pages_def frame_pool_def frame_addr_image_eq_iff used_frames_le)

lemma used_pages_eq_iff: "used_pages m = used_pages m' \<longleftrightarrow> used_frames m = used_frames m'"
  by (simp add: used_pages_def frame_addr_image_eq_iff used_frames_le)

lemma first_fit_1_None: "first_fit (page_bitmap m) 1 = None \<longleftrightarrow> used_frames m = {..<MAX_PAGES}"
proof -
  have "1 \<le> MAX_PAGES"
    by (simp add: MAX_PAGES_def)
  from first_fit_None_iff [OF this] show ?thesis
    by (auto simp: used_frames_def run_free_def Suc_le_eq)
qed

lemma alloc_page_eq:
  "mm_ok m \<Longrightarrow> alloc_page m = Some (case first_fit (page_bitmap m) 1 of
      None \<Rightarrow> (m, 0)
    | Some i \<Rightarrow> (m\<lparr>page_bitmap := set_frames (page_bitmap m) i 1,
                  ram := kmemset (ram m) (frame_addr i) 0 PAGE_SIZE\<rparr>, frame_addr i))"
  using alloc_pages_eq [of m 1, unfolded unsigned_1 mult_1]
  by (simp add: alloc_page_def MAX_PAGES_def del: One_nat_def)

lemma alloc_page_fresh:
  assumes "mm_ok m" and "used_pages m \<noteq> frame_pool"
  shows "\<exists>m' p. alloc_page m = Some (m', p) \<and> mm_ok m' \<and> p \<in> frame_pool \<and> p \<notin> used_pages m \<and>
    used_pages m' = insert p (used_pages m) \<and>
    ram m' = (\<lambda>x. if in_block p PAGE_SIZE x then 0 else ram m x)"
proof -
  obtain i where i: "first_fit (page_bitmap m) 1 = Some i"
    using assms by (auto simp: used_pages_pool_iff simp del: One_nat_def simp flip: first_fit_1_None)
  have fits: "i + 1 \<le> MAX_PAGES" and run: "run_free (page_bitmap m) 1 i"
    using first_fit_SomeD [OF i] by (auto simp: MAX_PAGES_def)
  let ?m' = "m\<lparr>page_bitmap := set_frames (page_bitmap m) i 1,
    ram := kmemset (ram m) (frame_addr i) 0 PAGE_SIZE\<rparr>"
  have "alloc_page m = Some (?m', frame_addr i)"
    using i alloc_page_eq [OF assms(1)] by simp
  moreover have "used_pages ?m' = insert (frame_addr i) (used_pages m)"
    unfolding used_pages_def used_frames_set_frames [OF assms(1) fits] by auto
  moreover have "frame_addr i \<notin> used_pages m"
    using run fits by (auto simp: used_pages_def used_frames_def run_free_def frame_addr_inj)
  moreover have "frame_addr i \<in> frame_pool"
    using fits by (auto simp: frame_pool_def)
  ultimately show ?thesis
    using assms(1) by (auto simp: mm_ok_def kmemset_eq PAGE_SIZE_def)
qed

interpretation pa: page_allocator mm_ok frame_pool used_pages ram alloc_page free_page
proof (unfold_locales, goal_cases)
  case (2)
  then show ?case
    by (auto simp: frame_pool_def dest: frame_addr_neq_0)
next
  case (3 m)
  then show ?case
    by (auto simp: used_pages_def frame_pool_def used_frames_def)
next
  case (4 m)
  then have "first_fit (page_bitmap m) 1 = None"
    by (simp add: first_fit_1_None used_pages_pool_iff del: One_nat_def)
  then show ?case
    using alloc_page_eq [OF 4(1)] by simp
next
  case (6 m p)
  then obtain i where "i < MAX_PAGES" "p = frame_addr i"
    by (auto simp: frame_pool_def)
  then show ?case
    using used_frames_free_page [OF 6(1)]
    by (auto simp: used_pages_def frame_addr_inj used_frames_def image_iff)
qed (use alloc_page_fresh in \<open>auto simp: frame_pool_def\<close>)

lemma mm_get_free_bytes_card: "mm_get_free_bytes m = (MAX_PAGES - card (used_frames m)) * PAGE_SIZE"
proof -
  have "set (filter (\<lambda>i. \<not> frame_used (page_bitmap m) i) [0..<MAX_PAGES]) = {..<MAX_PAGES} - used_frames m"
    by (auto simp: used_frames_def)
  moreover have "card ({..<MAX_PAGES} - used_frames m) = MAX_PAGES - card (used_frames m)"
    by (subst card_Diff_subset) (auto simp: used_frames_def)
  ultimately show ?thesis
    unfolding mm_get_free_bytes_def
    by (metis distinct_card distinct_filter distinct_upt)
qed

lemma card_used_pages: "card (used_pages m) = card (used_frames m)"
  unfolding used_pages_def
  by (intro card_image inj_onI) (simp add: used_frames_def frame_addr_inj)

lemma finite_used_pages [simp]: "finite (used_pages m)"
  by (simp add: used_pages_def used_frames_def)

lemma card_used_frames_le: "card (used_frames m) \<le> MAX_PAGES"
  using card_mono [OF _ used_frames_le, of m] by simp

text \<open>A machine with an empty bitmap, for the concrete instances of the properties.\<close>

definition mm_empty :: mm where
  "mm_empty = \<lparr>page_bitmap = replicate 4096 0, kernel_pml4 = 0, ram = (\<lambda>_. 0), cr3 = 0, tlb = (\<lambda>_. None)\<rparr>"

lemma mm_ok_empty: "mm_ok mm_empty"
  by (simp add: mm_ok_def mm_empty_def MAX_PAGES_def)

lemma frame_used_empty: "i < MAX_PAGES \<Longrightarrow> \<not> frame_used (page_bitmap mm_empty) i"
  by (simp add: frame_used_bit mm_empty_def MAX_PAGES_def less_mult_imp_div_less)

lemma first_fit_empty:
  assumes "n \<le> MAX_PAGES"
  shows "first_fit (page_bitmap mm_empty) n = Some 0"
  using assms frame_used_empty by (simp add: first_fit_def scan_Some_iff run_free_def)

section \<open>Properties\<close>

text \<open>
  C2: for every request of 1 to 32768 frames the optimised search of \<open>alloc_pages\<close> (skipping
  full 64-frame blocks and restarting after the frame that blocked a run) is first fit.  On
  success the run was free, exactly its frames become used, its memory is zeroed and all
  other memory is unchanged; with no free run the state is unchanged and the result is NULL.
\<close>

theorem alloc_pages_first_fit:
  assumes "mm_ok m" and "0 < count" and "unat count \<le> MAX_PAGES"
  shows "\<exists>m' p. alloc_pages m count = Some (m', p) \<and> mm_ok m' \<and>
    (case first_fit (page_bitmap m) (unat count) of
        None \<Rightarrow> p = 0 \<and> m' = m
      | Some i \<Rightarrow> p = frame_addr i \<and> p \<noteq> 0 \<and>
          used_frames m \<inter> {i..<i + unat count} = {} \<and>
          used_frames m' = used_frames m \<union> {i..<i + unat count} \<and>
          ram m' = (\<lambda>x. if in_block p (unat count * PAGE_SIZE) x then 0 else ram m x))"
proof (cases "first_fit (page_bitmap m) (unat count)")
  case None
  then show ?thesis
    using assms alloc_pages_eq [OF assms] by simp
next
  case (Some i)
  note fit = first_fit_SomeD [OF Some assms(3)]
  have "0 < unat count"
    using assms(2) by (simp add: unat_gt_0 word_gt_0)
  then have "frame_addr i \<noteq> 0"
    using fit(1) by (intro frame_addr_neq_0) simp
  moreover have "used_frames m \<inter> {i..<i + unat count} = {}"
    using fit(2) by (auto simp: used_frames_def run_free_def le_iff_add)
  moreover have "unat count * PAGE_SIZE \<le> 2 ^ 64"
    using assms(3) by (simp add: PAGE_SIZE_def MAX_PAGES_def)
  ultimately show ?thesis
    using assms Some alloc_pages_eq [OF assms] used_frames_set_frames [OF assms(1) fit(1)]
    by (auto simp: kmemset_eq mm_ok_def)
qed

theorem alloc_pages_first_fit_witness:
  "\<exists>m'. alloc_pages mm_empty 4 = Some (m', frame_addr 0) \<and> used_frames m' = used_frames mm_empty \<union> {0..<4}"
  using alloc_pages_first_fit [of mm_empty 4] first_fit_empty [of 4]
  by (auto simp: mm_ok_empty MAX_PAGES_def)

text \<open>
  The page life cycle.  \<open>alloc_page\<close> always returns; a non-null result takes exactly one page
  from the free count that \<open>mm_get_free_bytes\<close> reports, and giving it to \<open>free_page\<close> restores
  the count and the set of used frames.
\<close>

theorem alloc_page_lifecycle:
  assumes "mm_ok m"
  shows "\<exists>m' p. alloc_page m = Some (m', p) \<and> (p = 0 \<longleftrightarrow> mm_get_free_bytes m = 0) \<and>
    (p \<noteq> 0 \<longrightarrow> mm_get_free_bytes m' + PAGE_SIZE = mm_get_free_bytes m \<and>
       used_frames (free_page m' p) = used_frames m \<and>
       mm_get_free_bytes (free_page m' p) = mm_get_free_bytes m)"
proof -
  obtain m' p where a: "alloc_page m = Some (m', p)"
    using pa.alloc_total [OF assms] by blast
  have full: "used_pages m = frame_pool \<longleftrightarrow> mm_get_free_bytes m = 0"
  proof -
    have "used_frames m = {..<MAX_PAGES} \<longleftrightarrow> MAX_PAGES \<le> card (used_frames m)"
      using card_seteq [OF _ used_frames_le, of m] by (metis card_lessThan finite_lessThan order_refl)
    then show ?thesis
      by (simp add: used_pages_pool_iff mm_get_free_bytes_card PAGE_SIZE_def)
  qed
  have "mm_get_free_bytes m' + PAGE_SIZE = mm_get_free_bytes m \<and>
    used_frames (free_page m' p) = used_frames m" if "p \<noteq> 0"
  proof -
    note fresh = pa.alloc_fresh [OF assms a that]
    then have "card (used_frames m') = Suc (card (used_frames m))"
      by (simp flip: card_used_pages)
    then have "MAX_PAGES - card (used_frames m) = Suc (MAX_PAGES - card (used_frames m'))"
      using card_used_frames_le [of m'] by simp
    moreover have "used_pages (free_page m' p) = used_pages m"
      by (rule pa.alloc_then_free [OF assms a that])
    then have "used_frames (free_page m' p) = used_frames m"
      by (simp add: used_pages_eq_iff)
    ultimately show ?thesis
      by (simp add: mm_get_free_bytes_card)
  qed
  then show ?thesis
    using a pa.alloc_null_iff [OF assms a] full by (auto simp: mm_get_free_bytes_card)
qed

text \<open>
  C34: the bound \<^verbatim>\<open>MAX_PAGES - count\<close> is unsigned, so a request for more frames than the pool
  has is not refused: whatever the bitmap holds, the search runs past its end.
\<close>

theorem alloc_pages_overrun:
  assumes "mm_ok m" and "MAX_PAGES < unat count"
  shows "alloc_pages m count = None"
  using assms alloc_search_overrun [of "page_bitmap m" count 0]
  by (auto simp: alloc_pages_def mm_ok_def)

theorem alloc_pages_overrun_witness: "alloc_pages mm_empty 32769 = None"
  using alloc_pages_overrun [OF mm_ok_empty, of 32769] by (simp add: MAX_PAGES_def)

end
