(* ===== verification/Paging.thy ===== *)
theory Paging
  imports PhysMem "HOL-Library.Sublist"
begin

text \<open>
  The four-level page tables of \<^verbatim>\<open>kernel/mm/memory.c\<close>, as the code manipulates them: 64-bit
  entries in the byte memory \<open>ram\<close>, reached from \<open>kernel_pml4\<close>.  The reference is \<open>walk\<close>, the
  translation the processor performs from \<open>cr3\<close>, and a translation cache that only
  \<open>invlpg\<close> and \<open>write_cr3\<close> invalidate.
\<close>

section \<open>Entries and indices\<close>

definition PAGE_PRESENT :: u64 where "PAGE_PRESENT = push_bit 0 1"
definition PAGE_WRITABLE :: u64 where "PAGE_WRITABLE = push_bit 1 1"
definition PAGE_USER :: u64 where "PAGE_USER = push_bit 2 1"

definition table_flags :: u64 where
  "table_flags = PAGE_PRESENT OR PAGE_WRITABLE OR PAGE_USER"

definition pml4_idx :: "u64 \<Rightarrow> nat" where "pml4_idx virt = unat (drop_bit 39 virt AND 0x1FF)"
definition pdpt_idx :: "u64 \<Rightarrow> nat" where "pdpt_idx virt = unat (drop_bit 30 virt AND 0x1FF)"
definition pd_idx :: "u64 \<Rightarrow> nat" where "pd_idx virt = unat (drop_bit 21 virt AND 0x1FF)"
definition pt_idx :: "u64 \<Rightarrow> nat" where "pt_idx virt = unat (drop_bit 12 virt AND 0x1FF)"

text \<open>The address of \<^verbatim>\<open>table[i]\<close>, and the tests and masks the code applies to an entry.\<close>

definition ent :: "u64 \<Rightarrow> nat \<Rightarrow> u64" where
  "ent table i = table + of_nat (8 * i)"

definition present :: "u64 \<Rightarrow> bool" where
  "present e \<longleftrightarrow> e AND PAGE_PRESENT \<noteq> 0"

definition huge :: "u64 \<Rightarrow> bool" where
  "huge e \<longleftrightarrow> e AND push_bit 7 1 \<noteq> 0"

definition pte_addr :: "u64 \<Rightarrow> u64" where
  "pte_addr e = e AND NOT 0xFFF"

section \<open>Processor state\<close>

text \<open>The cache is indexed by the 36-bit virtual page number.\<close>

definition vpn :: "u64 \<Rightarrow> u64" where
  "vpn virt = drop_bit 12 virt AND mask 36"

definition write_cr3 :: "mm \<Rightarrow> u64 \<Rightarrow> mm" where
  "write_cr3 m v = m\<lparr>cr3 := v, tlb := (\<lambda>_. None)\<rparr>"

definition invlpg :: "mm \<Rightarrow> u64 \<Rightarrow> mm" where
  "invlpg m virt = m\<lparr>tlb := (tlb m)(vpn virt := None)\<rparr>"

definition mm_flush_tlb :: "mm \<Rightarrow> mm" where
  "mm_flush_tlb m = (if kernel_pml4 m \<noteq> 0 then write_cr3 m (kernel_pml4 m) else m)"

section \<open>Mapping\<close>

text \<open>Allocate a table, clear it and install it in the entry at \<open>ea\<close>.\<close>

definition new_table :: "mm \<Rightarrow> u64 \<Rightarrow> mm option" where
  "new_table m ea =
     (case alloc_page m of
        None \<Rightarrow> None
      | Some (m, p) \<Rightarrow> Some (m\<lparr>ram := st64 (kmemset (ram m) p 0 PAGE_SIZE) ea (p OR table_flags)\<rparr>))"

definition ensure_table :: "mm \<Rightarrow> u64 \<Rightarrow> (mm \<times> bool) option" where
  "ensure_table m ea =
     (if \<not> present (ld64 (ram m) ea) then map_option (\<lambda>m. (m, True)) (new_table m ea)
      else Some (m, False))"

text \<open>The loop that fills a page table with the 512 frames of a 2 MB page.\<close>

fun fill_pt :: "memory \<Rightarrow> u64 \<Rightarrow> u64 \<Rightarrow> nat \<Rightarrow> nat \<Rightarrow> memory" where
  "fill_pt r pt huge_phys i 0 = r"
| "fill_pt r pt huge_phys i (Suc n) =
     fill_pt (st64 r (ent pt i) ((huge_phys + of_nat (i * PAGE_SIZE)) OR table_flags))
       pt huge_phys (i + 1) n"

definition split_huge :: "mm \<Rightarrow> u64 \<Rightarrow> mm option" where
  "split_huge m ea =
     (let huge_phys = ld64 (ram m) ea AND NOT 0x1FFFFF in
      case alloc_page m of
        None \<Rightarrow> None
      | Some (m, p) \<Rightarrow> Some (m\<lparr>ram := st64 (fill_pt (ram m) p huge_phys 0 512) ea (p OR table_flags)\<rparr>))"

definition ensure_pt :: "mm \<Rightarrow> u64 \<Rightarrow> (mm \<times> bool) option" where
  "ensure_pt m ea =
     (if huge (ld64 (ram m) ea) then map_option (\<lambda>m. (m, True)) (split_huge m ea)
      else ensure_table m ea)"

definition map_page :: "mm \<Rightarrow> u64 \<Rightarrow> u64 \<Rightarrow> u64 \<Rightarrow> mm option" where
  "map_page m virt phys flags =
     (case ensure_table m (ent (kernel_pml4 m) (pml4_idx virt)) of
        None \<Rightarrow> None
      | Some (m, l1) \<Rightarrow>
          let pdpt = pte_addr (ld64 (ram m) (ent (kernel_pml4 m) (pml4_idx virt))) in
          (case ensure_table m (ent pdpt (pdpt_idx virt)) of
             None \<Rightarrow> None
           | Some (m, l2) \<Rightarrow>
               let pd = pte_addr (ld64 (ram m) (ent pdpt (pdpt_idx virt))) in
               (case ensure_pt m (ent pd (pd_idx virt)) of
                  None \<Rightarrow> None
                | Some (m, l3) \<Rightarrow>
                    let pt = pte_addr (ld64 (ram m) (ent pd (pd_idx virt)));
                        m = m\<lparr>ram := st64 (ram m) (ent pt (pt_idx virt)) ((phys AND NOT 0xFFF) OR flags)\<rparr>
                    in Some (if l1 \<or> l2 \<or> l3 then mm_flush_tlb m else invlpg m virt))))"

fun map_user_pages_loop :: "mm \<Rightarrow> u64 \<Rightarrow> u64 \<Rightarrow> nat \<Rightarrow> nat \<Rightarrow> mm option" where
  "map_user_pages_loop m virt phys i 0 = Some m"
| "map_user_pages_loop m virt phys i (Suc n) =
     (case map_page m (virt + of_nat (i * PAGE_SIZE)) (phys + of_nat (i * PAGE_SIZE)) table_flags of
        None \<Rightarrow> None
      | Some m \<Rightarrow> map_user_pages_loop m virt phys (i + 1) n)"

definition map_user_pages :: "mm \<Rightarrow> u64 \<Rightarrow> u64 \<Rightarrow> nat \<Rightarrow> mm option" where
  "map_user_pages m virt phys page_count = map_user_pages_loop m virt phys 0 page_count"

section \<open>Lookup, unmapping and protection\<close>

definition get_pte_ptr :: "mm \<Rightarrow> u64 \<Rightarrow> u64 option" where
  "get_pte_ptr m virt =
     (if kernel_pml4 m = 0 then None
      else
        let e4 = ld64 (ram m) (ent (kernel_pml4 m) (pml4_idx virt)) in
        if \<not> present e4 then None
        else
          let e3 = ld64 (ram m) (ent (pte_addr e4) (pdpt_idx virt)) in
          if \<not> present e3 then None
          else
            let e2 = ld64 (ram m) (ent (pte_addr e3) (pd_idx virt)) in
            if huge e2 then None
            else if \<not> present e2 then None
            else Some (ent (pte_addr e2) (pt_idx virt)))"

definition unmap_page :: "mm \<Rightarrow> u64 \<Rightarrow> mm" where
  "unmap_page m virt =
     (case get_pte_ptr m virt of
        None \<Rightarrow> m
      | Some pte \<Rightarrow>
          if present (ld64 (ram m) pte) then
            let phys = pte_addr (ld64 (ram m) pte);
                m = free_page m phys;
                m = m\<lparr>ram := st64 (ram m) pte 0\<rparr>
            in invlpg m virt
          else m)"

fun unmap_user_pages_loop :: "mm \<Rightarrow> u64 \<Rightarrow> nat \<Rightarrow> nat \<Rightarrow> mm" where
  "unmap_user_pages_loop m virt i 0 = m"
| "unmap_user_pages_loop m virt i (Suc n) =
     unmap_user_pages_loop (unmap_page m (virt + of_nat (i * PAGE_SIZE))) virt (i + 1) n"

definition unmap_user_pages :: "mm \<Rightarrow> u64 \<Rightarrow> nat \<Rightarrow> mm" where
  "unmap_user_pages m virt page_count = unmap_user_pages_loop m virt 0 page_count"

definition modify_page_flags :: "mm \<Rightarrow> u64 \<Rightarrow> u64 \<Rightarrow> mm" where
  "modify_page_flags m virt flags =
     (case get_pte_ptr m virt of
        None \<Rightarrow> m
      | Some pte \<Rightarrow>
          if present (ld64 (ram m) pte) then
            let phys = pte_addr (ld64 (ram m) pte)
            in invlpg (m\<lparr>ram := st64 (ram m) pte (phys OR flags)\<rparr>) virt
          else m)"

definition get_phys_mapping :: "mm \<Rightarrow> u64 \<Rightarrow> u64" where
  "get_phys_mapping m virt =
     (case get_pte_ptr m virt of
        None \<Rightarrow> 0
      | Some pte \<Rightarrow>
          if present (ld64 (ram m) pte) then pte_addr (ld64 (ram m) pte) OR (virt AND 0xFFF) else 0)"

section \<open>Initialisation\<close>

text \<open>The inner loop over the 512 entries of one page directory.\<close>

definition identity_entry :: "nat \<Rightarrow> nat \<Rightarrow> u64" where
  "identity_entry gb i =
     of_nat (gb * 0x40000000 + i * 0x200000) OR PAGE_PRESENT OR PAGE_WRITABLE OR PAGE_USER OR push_bit 7 1"

fun init_pd :: "memory \<Rightarrow> u64 \<Rightarrow> nat \<Rightarrow> nat \<Rightarrow> nat \<Rightarrow> memory" where
  "init_pd r pd gb i 0 = r"
| "init_pd r pd gb i (Suc n) =
     init_pd (st64 r (ent pd i) (identity_entry gb i)) pd gb (i + 1) n"

fun init_pdpt :: "mm \<Rightarrow> u64 \<Rightarrow> nat \<Rightarrow> nat \<Rightarrow> mm option" where
  "init_pdpt m pdpt gb 0 = Some m"
| "init_pdpt m pdpt gb (Suc n) =
     (case alloc_page m of
        None \<Rightarrow> None
      | Some (m, pd) \<Rightarrow>
          init_pdpt (m\<lparr>ram := init_pd (st64 (ram m) (ent pdpt gb) (pd OR table_flags)) pd gb 0 512\<rparr>)
            pdpt (gb + 1) n)"

definition mm_init :: "mm \<Rightarrow> mm option" where
  "mm_init m =
     (case alloc_page (m\<lparr>page_bitmap := replicate (MAX_PAGES div 8) 0\<rparr>) of
        None \<Rightarrow> None
      | Some (m, pml4) \<Rightarrow>
          let m = m\<lparr>kernel_pml4 := pml4\<rparr> in
          (case alloc_page m of
             None \<Rightarrow> None
           | Some (m, pdpt) \<Rightarrow>
               (case init_pdpt (m\<lparr>ram := st64 (ram m) (ent pml4 0) (pdpt OR table_flags)\<rparr>) pdpt 0 4 of
                  None \<Rightarrow> None
                | Some m \<Rightarrow> Some (write_cr3 m pml4))))"

section \<open>Tables in memory\<close>

definition page_aligned :: "u64 \<Rightarrow> bool" where
  "page_aligned a \<longleftrightarrow> 4096 dvd unat a"

lemma page_alignedE:
  assumes "page_aligned a"
  obtains q where "unat a = 4096 * q" "q < 2 ^ 52"
proof -
  from assms obtain q where q: "unat a = 4096 * q"
    by (auto simp: page_aligned_def)
  then show thesis
    using that unat_u64_less [of a] by simp
qed

lemma unat_ent: "page_aligned a \<Longrightarrow> i < 512 \<Longrightarrow> unat (ent a i) = unat a + 8 * i"
  by (elim page_alignedE) (simp add: ent_def unat_word_ariths unat_of_nat)

lemma ent_page:
  assumes "page_aligned a" and "i < 512" and "k < 8"
  shows "unat (ent a i + k) div 4096 = unat a div 4096"
proof -
  obtain q where q: "unat a = 4096 * q" "q < 2 ^ 52"
    using assms(1) by (elim page_alignedE)
  have k: "unat k < 8"
    using assms(3) by (simp add: word_less_nat_alt)
  have "unat (ent a i + k) = 4096 * q + (8 * i + unat k)"
    using unat_ent [OF assms(1, 2)] q k assms(2) by (simp add: unat_word_ariths)
  moreover have "(8 * i + unat k) div 4096 = 0"
    using k assms(2) by simp
  ultimately show ?thesis
    using q(1) by (simp only: div_mult_self4 nonzero_mult_div_cancel_left)
qed

lemma ent_inj:
  assumes "page_aligned a" and "page_aligned b" and "i < 512" and "j < 512"
  shows "ent a i = ent b j \<longleftrightarrow> a = b \<and> i = j"
proof
  assume eq: "ent a i = ent b j"
  obtain q q' where q: "unat a = 4096 * q" "unat b = 4096 * q'"
    using assms(1, 2) by (metis page_alignedE)
  have *: "4096 * q + 8 * i = 4096 * q' + 8 * j"
    using eq unat_ent [OF assms(1, 3)] unat_ent [OF assms(2, 4)] q by metis
  then have "q = q'"
    using assms(3, 4) by linarith
  then show "a = b \<and> i = j"
    using * q by (simp add: word_unat_eq_iff)
qed simp

lemma separate8:
  assumes "8 dvd unat a" and "8 dvd unat b" and "a \<noteq> b"
  shows "8 \<le> b - (a :: u64)"
proof -
  have "8 dvd unat (b - a)"
    using assms(1, 2) unat_u64_less [of a]
    by (auto simp: unat_sub_if_size word_size)
  moreover have "unat (b - a) \<noteq> 0"
    using assms(3) by (simp add: unat_eq_0)
  ultimately have "8 \<le> unat (b - a)"
    by (simp add: dvd_imp_le)
  then show ?thesis
    by (simp add: word_le_nat_alt)
qed

lemma ent_aligned8: "page_aligned a \<Longrightarrow> i < 512 \<Longrightarrow> 8 dvd unat (ent a i)"
proof -
  assume a: "page_aligned a" and i: "i < 512"
  obtain q where "unat a = 8 * (512 * q)"
    using a by (auto elim: page_alignedE)
  then show ?thesis
    using unat_ent [OF a i] by (metis dvd_add dvd_triv_left)
qed

lemma ld64_st64_ent:
  assumes "page_aligned a" and "page_aligned b" and "i < 512" and "j < 512"
  shows "ld64 (st64 r (ent b j) v) (ent a i) =
    (if a = b \<and> i = j then v else ld64 r (ent a i))"
proof (cases "a = b \<and> i = j")
  case True
  then show ?thesis by (simp add: ld64_st64_same)
next
  case False
  then have "ent a i \<noteq> ent b j"
    using assms ent_inj by blast
  then show ?thesis
    unfolding if_not_P [OF False]
    using separate8 [OF ent_aligned8 ent_aligned8, OF assms(1, 3) assms(2, 4)]
      separate8 [OF ent_aligned8 ent_aligned8, OF assms(2, 4) assms(1, 3)]
    by (simp add: ld64_st64_other)
qed

lemma in_block_page:
  assumes "page_aligned p"
  shows "in_block p PAGE_SIZE x \<longleftrightarrow> unat x div 4096 = unat p div 4096"
proof -
  obtain q where q: "unat p = 4096 * q" "q < 2 ^ 52"
    using assms by (elim page_alignedE)
  show ?thesis
  proof (cases "p \<le> x")
    case True
    then have "unat (x - p) = unat x - 4096 * q" "4096 * q \<le> unat x"
      using q by (simp_all add: unat_less_iff_le_diff word_le_nat_alt)
    then show ?thesis
      using q by (auto simp: in_block_def PAGE_SIZE_def)
  next
    case False
    then have less: "unat x < 4096 * q"
      using q by (simp add: word_le_nat_alt)
    then have "unat (x - p) = 2 ^ 64 + unat x - 4096 * q"
      using q by (simp add: unat_sub_if_size word_size)
    moreover have "unat x div 4096 < q"
      using less by (simp add: less_mult_imp_div_less mult.commute)
    ultimately show ?thesis
      using q by (auto simp: in_block_def PAGE_SIZE_def)
  qed
qed

lemma ld64_zeroed:
  assumes "page_aligned a" and "page_aligned p" and "i < 512"
  shows "ld64 (\<lambda>x. if in_block p PAGE_SIZE x then 0 else r x) (ent a i) =
    (if a = p then 0 else ld64 r (ent a i))"
proof (cases "a = p")
  case True
  have "ld64 (\<lambda>x. if in_block p PAGE_SIZE x then 0 else r x) (ent a i) = ld64 (\<lambda>_. 0) (ent a i)"
    using True assms by (intro ld64_cong) (simp add: in_block_page ent_page)
  also have "\<dots> = 0"
    by (simp add: ld64_def)
  finally show ?thesis
    using True by simp
next
  case False
  obtain q q' where "unat a = 4096 * q" "unat p = 4096 * q'"
    using assms(1, 2) by (metis page_alignedE)
  then have "unat a div 4096 \<noteq> unat p div 4096"
    using False by (simp add: word_unat_eq_iff)
  then show ?thesis
    using False assms by (simp) (intro ld64_cong, simp add: in_block_page ent_page)
qed

subsection \<open>Entries\<close>

lemma present_iff: "present e \<longleftrightarrow> bit e 0"
  using and_push_bit_1_iff [of e 0] by (simp add: present_def PAGE_PRESENT_def)

lemma huge_iff: "huge e \<longleftrightarrow> bit e 7"
  unfolding huge_def by (rule and_push_bit_1_iff)

lemma flag_masks:
  "(7 :: u64) = mask 3" "(0x1FF :: u64) = mask 9" "(0xFFF :: u64) = mask 12" "(0x1FFFFF :: u64) = mask 21"
  by (simp_all add: mask_eq_exp_minus_1)

lemma table_flags_eq: "table_flags = mask 3"
  by (simp add: table_flags_def PAGE_PRESENT_def PAGE_WRITABLE_def PAGE_USER_def flip: flag_masks)

lemma bit_pte_addr: "bit (pte_addr e) n \<longleftrightarrow> 12 \<le> n \<and> bit e n"
  unfolding pte_addr_def flag_masks by (auto simp: bit_simps dest: bit_imp_le_length)

lemma page_aligned_iff: "page_aligned a \<longleftrightarrow> (\<forall>n < 12. \<not> bit a n)"
proof -
  have "page_aligned a \<longleftrightarrow> take_bit 12 (unat a) = 0"
    by (simp add: page_aligned_def take_bit_eq_mod mod_eq_0_iff_dvd)
  also have "take_bit 12 (unat a) = unat (take_bit 12 a)"
    by (simp add: unsigned_take_bit_eq)
  also have "unat (take_bit 12 a) = 0 \<longleftrightarrow> take_bit 12 a = 0"
    by (simp add: unat_eq_0)
  also have "\<dots> \<longleftrightarrow> (\<forall>n < 12. \<not> bit a n)"
    by (auto simp: bit_eq_iff bit_simps dest: bit_imp_le_length)
  finally show ?thesis .
qed

lemma page_aligned_pte_addr [simp]: "page_aligned (pte_addr e)"
  by (simp add: page_aligned_iff bit_pte_addr)

lemma pte_addr_table: "page_aligned p \<Longrightarrow> pte_addr (p OR table_flags) = p"
  by (rule bit_word_eqI) (auto simp: bit_pte_addr bit_simps table_flags_eq page_aligned_iff not_less)

lemma present_table: "present (p OR table_flags)"
  by (simp add: present_iff bit_simps table_flags_eq)

lemma not_huge_table: "page_aligned p \<Longrightarrow> \<not> huge (p OR table_flags)"
  by (simp add: huge_iff bit_simps table_flags_eq page_aligned_iff)

lemma table_flags_kept: "(p OR table_flags) AND 7 = 7"
  unfolding flag_masks by (rule bit_word_eqI) (auto simp: bit_simps table_flags_eq)

lemma present_0 [simp]: "\<not> present 0" "\<not> huge 0"
  by (simp_all add: present_iff huge_iff)

lemma idx_less: "pml4_idx v < 512" "pdpt_idx v < 512" "pd_idx v < 512" "pt_idx v < 512"
proof -
  have "unat (w AND 0x1FF) < 512" for w :: u64
    using word_and_le1 [of w "0x1FF"] by (simp add: word_le_nat_alt)
  then show "pml4_idx v < 512" "pdpt_idx v < 512" "pd_idx v < 512" "pt_idx v < 512"
    by (simp_all add: pml4_idx_def pdpt_idx_def pd_idx_def pt_idx_def)
qed

lemma mask_field_eq_iff:
  fixes v w :: u64
  assumes "k + l \<le> 64"
  shows "drop_bit k v AND mask l = drop_bit k w AND mask l \<longleftrightarrow> (\<forall>n < l. bit v (k + n) = bit w (k + n))"
proof
  assume eq: "drop_bit k v AND mask l = drop_bit k w AND mask l"
  have "bit v (k + n) = bit w (k + n)" if "n < l" for n
  proof -
    have "bit (drop_bit k v AND mask l) n = bit (drop_bit k w AND mask l) n"
      using eq by simp
    then show ?thesis
      using that assms by (simp add: bit_simps)
  qed
  then show "\<forall>n < l. bit v (k + n) = bit w (k + n)" by blast
qed (auto intro!: bit_word_eqI simp: bit_simps)

lemma index_eq_iff:
  "k + 9 \<le> 64 \<Longrightarrow> unat (drop_bit k v AND 0x1FF) = unat (drop_bit k w AND 0x1FF) \<longleftrightarrow>
    (\<forall>n < 9. bit v (k + n) = bit w (k + n))" for v w :: u64
  unfolding flag_masks word_unat_eq_iff [symmetric] by (rule mask_field_eq_iff)

lemma all_less_36:
  "(\<forall>n < 36. P n) \<longleftrightarrow> (\<forall>n < 9. P (27 + n)) \<and> (\<forall>n < 9. P (18 + n)) \<and> (\<forall>n < 9. P (9 + n)) \<and> (\<forall>n < 9. P n)"
  for P :: "nat \<Rightarrow> bool"
proof (intro iffI allI impI; (elim conjE)?)
  fix n :: nat
  assume "\<forall>n < 9. P (27 + n)" "\<forall>n < 9. P (18 + n)" "\<forall>n < 9. P (9 + n)" "\<forall>n < 9. P n" "n < 36"
  moreover have "n < 9 \<or> n = 9 + (n - 9) \<and> n - 9 < 9 \<or> n = 18 + (n - 18) \<and> n - 18 < 9 \<or> n = 27 + (n - 27) \<and> n - 27 < 9"
    using \<open>n < 36\<close> by linarith
  ultimately show "P n" by metis
qed auto

lemma vpn_eq_iff:
  "vpn v = vpn w \<longleftrightarrow>
    pml4_idx v = pml4_idx w \<and> pdpt_idx v = pdpt_idx w \<and> pd_idx v = pd_idx w \<and> pt_idx v = pt_idx w"
proof -
  have "vpn v = vpn w \<longleftrightarrow> (\<forall>n < 36. bit v (12 + n) = bit w (12 + n))"
    by (simp add: vpn_def mask_field_eq_iff)
  then show ?thesis
    unfolding all_less_36 pml4_idx_def pdpt_idx_def pd_idx_def pt_idx_def
    by (simp add: index_eq_iff)
qed

section \<open>The reference translation and the invariant\<close>

text \<open>
  The processor's walk from the root table: the physical address and the three permission
  bits of the entry that ends the walk.
\<close>

definition leaf :: "u64 \<Rightarrow> u64 \<Rightarrow> (u64 \<times> u64) option" where
  "leaf e v = (if present e then Some (pte_addr e OR (v AND 0xFFF), e AND 7) else None)"

definition leaf_huge :: "u64 \<Rightarrow> u64 \<Rightarrow> u64 \<times> u64" where
  "leaf_huge e v = ((e AND NOT 0x1FFFFF) OR (v AND 0x1FFFFF), e AND 7)"

definition walk :: "memory \<Rightarrow> u64 \<Rightarrow> u64 \<Rightarrow> (u64 \<times> u64) option" where
  "walk r root v =
     (let e4 = ld64 r (ent root (pml4_idx v)) in
      if \<not> present e4 then None
      else let e3 = ld64 r (ent (pte_addr e4) (pdpt_idx v)) in
      if \<not> present e3 then None
      else let e2 = ld64 r (ent (pte_addr e3) (pd_idx v)) in
      if \<not> present e2 then None
      else if huge e2 then Some (leaf_huge e2 v)
      else leaf (ld64 r (ent (pte_addr e2) (pt_idx v))) v)"

text \<open>
  The table reached along a path of indices.  Paths are listed with the last index first:
  the empty path is the root, \<open>[pdpt_idx v, pml4_idx v]\<close> the page directory of \<open>v\<close>.
\<close>

definition table_entry :: "u64 \<Rightarrow> bool" where
  "table_entry e \<longleftrightarrow> present e \<and> \<not> huge e"

fun tbl :: "memory \<Rightarrow> u64 \<Rightarrow> nat list \<Rightarrow> u64 option" where
  "tbl r root [] = Some root"
| "tbl r root (i # p) =
     (case tbl r root p of
        None \<Rightarrow> None
      | Some a \<Rightarrow> if table_entry (ld64 r (ent a i)) then Some (pte_addr (ld64 r (ent a i))) else None)"

abbreviation tab :: "mm \<Rightarrow> nat list \<Rightarrow> u64 option" where
  "tab m p \<equiv> tbl (ram m) (kernel_pml4 m) p"

definition valid_path :: "nat list \<Rightarrow> bool" where
  "valid_path p \<longleftrightarrow> length p \<le> 3 \<and> (\<forall>i \<in> set p. i < 512)"

text \<open>
  The tables form a tree of allocated frames: no table is reached along two paths.  Entries
  above the leaves carry all three permission bits, and only page directories hold 2 MB
  entries.
\<close>

definition pt_ok :: "mm \<Rightarrow> bool" where
  "pt_ok m \<longleftrightarrow> mm_ok m \<and>
     (\<forall>p a. valid_path p \<and> tab m p = Some a \<longrightarrow> a \<in> used_pages m) \<and>
     (\<forall>p q a. valid_path p \<and> valid_path q \<and> tab m p = Some a \<and> tab m q = Some a \<longrightarrow> p = q) \<and>
     (\<forall>p a i. valid_path p \<and> length p \<le> 2 \<and> i < 512 \<and> tab m p = Some a \<longrightarrow>
        (let e = ld64 (ram m) (ent a i) in
         (present e \<longrightarrow> e AND 7 = 7) \<and> (length p \<le> 1 \<longrightarrow> \<not> huge e) \<and> (huge e \<longrightarrow> present e)))"

lemma pt_okD:
  assumes "pt_ok m"
  shows "mm_ok m"
    and "\<And>p a. valid_path p \<Longrightarrow> tab m p = Some a \<Longrightarrow> a \<in> used_pages m"
    and "\<And>p q a. valid_path p \<Longrightarrow> valid_path q \<Longrightarrow> tab m p = Some a \<Longrightarrow> tab m q = Some a \<Longrightarrow> p = q"
    and "\<And>p a i. valid_path p \<Longrightarrow> length p \<le> 2 \<Longrightarrow> i < 512 \<Longrightarrow> tab m p = Some a \<Longrightarrow>
      present (ld64 (ram m) (ent a i)) \<Longrightarrow> ld64 (ram m) (ent a i) AND 7 = 7"
    and "\<And>p a i. valid_path p \<Longrightarrow> length p \<le> 1 \<Longrightarrow> i < 512 \<Longrightarrow> tab m p = Some a \<Longrightarrow>
      \<not> huge (ld64 (ram m) (ent a i))"
    and "\<And>p a i. valid_path p \<Longrightarrow> length p \<le> 2 \<Longrightarrow> i < 512 \<Longrightarrow> tab m p = Some a \<Longrightarrow>
      huge (ld64 (ram m) (ent a i)) \<Longrightarrow> present (ld64 (ram m) (ent a i))"
proof -
  note ok = assms [unfolded pt_ok_def Let_def]
  show "mm_ok m"
    and "\<And>p a. valid_path p \<Longrightarrow> tab m p = Some a \<Longrightarrow> a \<in> used_pages m"
    and "\<And>p q a. valid_path p \<Longrightarrow> valid_path q \<Longrightarrow> tab m p = Some a \<Longrightarrow> tab m q = Some a \<Longrightarrow> p = q"
    using ok by blast+
  have "\<And>p a i. valid_path p \<Longrightarrow> length p \<le> 2 \<Longrightarrow> i < 512 \<Longrightarrow> tab m p = Some a \<Longrightarrow>
      (present (ld64 (ram m) (ent a i)) \<longrightarrow> ld64 (ram m) (ent a i) AND 7 = 7) \<and>
      (length p \<le> 1 \<longrightarrow> \<not> huge (ld64 (ram m) (ent a i))) \<and>
      (huge (ld64 (ram m) (ent a i)) \<longrightarrow> present (ld64 (ram m) (ent a i)))"
    using ok by blast
  then show "\<And>p a i. valid_path p \<Longrightarrow> length p \<le> 2 \<Longrightarrow> i < 512 \<Longrightarrow> tab m p = Some a \<Longrightarrow>
      present (ld64 (ram m) (ent a i)) \<Longrightarrow> ld64 (ram m) (ent a i) AND 7 = 7"
    and "\<And>p a i. valid_path p \<Longrightarrow> length p \<le> 1 \<Longrightarrow> i < 512 \<Longrightarrow> tab m p = Some a \<Longrightarrow>
      \<not> huge (ld64 (ram m) (ent a i))"
    and "\<And>p a i. valid_path p \<Longrightarrow> length p \<le> 2 \<Longrightarrow> i < 512 \<Longrightarrow> tab m p = Some a \<Longrightarrow>
      huge (ld64 (ram m) (ent a i)) \<Longrightarrow> present (ld64 (ram m) (ent a i))"
    by (meson le_trans one_le_numeral)+
qed

lemma valid_path_Cons: "valid_path (i # p) \<longleftrightarrow> i < 512 \<and> length p \<le> 2 \<and> valid_path p"
  by (auto simp: valid_path_def)

lemma valid_path_Nil [simp]: "valid_path []"
  by (simp add: valid_path_def)

lemma frame_addr_aligned: "i < MAX_PAGES \<Longrightarrow> page_aligned (frame_addr i)"
  unfolding page_aligned_def by (subst unat_frame_addr) (auto intro: dvd_add)

lemma used_pages_aligned: "a \<in> used_pages m \<Longrightarrow> page_aligned a"
  by (auto simp: used_pages_def used_frames_def frame_addr_aligned)

lemma frame_pool_aligned: "a \<in> frame_pool \<Longrightarrow> page_aligned a"
  by (auto simp: frame_pool_def frame_addr_aligned)

lemma tab_aligned: "pt_ok m \<Longrightarrow> valid_path p \<Longrightarrow> tab m p = Some a \<Longrightarrow> page_aligned a"
  using pt_okD(2) used_pages_aligned by blast

section \<open>Installing a table\<close>

text \<open>
  The common effect of the three places where \<open>map_page\<close> adds a level: a fresh frame \<open>n\<close>
  becomes the target of entry \<open>i\<close> of table \<open>a\<close> and no other entry outside \<open>n\<close> changes.
\<close>

definition installs :: "mm \<Rightarrow> mm \<Rightarrow> u64 \<Rightarrow> u64 \<Rightarrow> nat \<Rightarrow> bool" where
  "installs m m' n a i \<longleftrightarrow>
     mm_ok m' \<and> kernel_pml4 m' = kernel_pml4 m \<and> n \<in> frame_pool \<and> n \<notin> used_pages m \<and>
     used_pages m' = insert n (used_pages m) \<and>
     ld64 (ram m') (ent a i) = n OR table_flags \<and>
     (\<forall>b j. page_aligned b \<and> b \<noteq> n \<and> j < 512 \<and> \<not> (b = a \<and> j = i) \<longrightarrow>
        ld64 (ram m') (ent b j) = ld64 (ram m) (ent b j))"

lemma installsD:
  assumes "installs m m' n a i"
  shows "mm_ok m'" "kernel_pml4 m' = kernel_pml4 m" "n \<in> frame_pool" "n \<notin> used_pages m"
    "used_pages m' = insert n (used_pages m)" "ld64 (ram m') (ent a i) = n OR table_flags"
    "page_aligned n"
    "\<And>b j. page_aligned b \<Longrightarrow> b \<noteq> n \<Longrightarrow> j < 512 \<Longrightarrow> \<not> (b = a \<and> j = i) \<Longrightarrow>
      ld64 (ram m') (ent b j) = ld64 (ram m) (ent b j)"
  using assms by (auto simp: installs_def frame_pool_aligned)

lemma table_entry_table: "page_aligned n \<Longrightarrow> table_entry (n OR table_flags)"
  by (simp add: table_entry_def present_table not_huge_table)

text \<open>What a new table may hold: nothing that leads further down, and 2 MB entries only in a page directory.\<close>

definition fresh_entry :: "nat list \<Rightarrow> u64 \<Rightarrow> bool" where
  "fresh_entry path e \<longleftrightarrow> length path \<le> 1 \<longrightarrow>
     \<not> table_entry e \<and> (present e \<longrightarrow> e AND 7 = 7) \<and> (huge e \<longrightarrow> present e \<and> path \<noteq> [])"

lemma fresh_entry_0 [simp]: "fresh_entry path 0"
  by (simp add: fresh_entry_def table_entry_def)

lemma fresh_entry_pt [simp]: "length path = 2 \<Longrightarrow> fresh_entry path e"
  by (simp add: fresh_entry_def)

lemma installs_tab:
  assumes ok: "pt_ok m" and path: "valid_path (i # path)" and a: "tab m path = Some a"
    and old: "\<not> table_entry (ld64 (ram m) (ent a i))" and inst: "installs m m' n a i"
    and new: "\<forall>j < 512. fresh_entry path (ld64 (ram m') (ent n j))"
  shows "valid_path q \<Longrightarrow> tab m' q = (if q = i # path then Some n else tab m q)"
proof (induction q)
  case Nil
  then show ?case
    using installsD(2) [OF inst] by simp
next
  case (Cons j q)
  note vq = Cons.prems [unfolded valid_path_Cons]
  show ?case
  proof (cases "q = i # path")
    case True
    then have "length path \<le> 1"
      using vq by simp
    then have "\<not> table_entry (ld64 (ram m') (ent n j))"
      using new vq by (auto simp: fresh_entry_def)
    moreover have "tab m' q = Some n" "tab m q = None"
      using True Cons.IH vq a old by simp_all
    ultimately show ?thesis
      using True by simp
  next
    case False
    then have eq: "tab m' q = tab m q"
      using Cons.IH vq by simp
    show ?thesis
    proof (cases "tab m q")
      case None
      then show ?thesis
        using eq a by auto
    next
      case (Some b)
      have b: "page_aligned b" "b \<noteq> n"
        using tab_aligned [OF ok _ Some] pt_okD(2) [OF ok _ Some] vq installsD(4) [OF inst] by auto
      show ?thesis
      proof (cases "b = a \<and> j = i")
        case True
        then have "q = path"
          using pt_okD(3) [OF ok] vq path a Some by (metis valid_path_Cons)
        then show ?thesis
          using True eq Some installsD(6, 7) [OF inst] by (simp add: table_entry_table pte_addr_table)
      next
        case False
        then have "j # q \<noteq> i # path"
          using a Some by auto
        moreover have "ld64 (ram m') (ent b j) = ld64 (ram m) (ent b j)"
          using installsD(8) [OF inst b] False vq by blast
        ultimately show ?thesis
          using eq Some by auto
      qed
    qed
  qed
qed

lemma installs_pt_ok:
  assumes ok: "pt_ok m" and path: "valid_path (i # path)" and a: "tab m path = Some a"
    and old: "\<not> table_entry (ld64 (ram m) (ent a i))" and inst: "installs m m' n a i"
    and new: "\<forall>j < 512. fresh_entry path (ld64 (ram m') (ent n j))"
  shows "pt_ok m'"
  unfolding pt_ok_def Let_def
proof (intro conjI allI impI; (elim conjE)?)
  note tab' = installs_tab [OF assms]
  note inst' = installsD [OF inst]
  show "mm_ok m'"
    by (rule inst')
  show "b \<in> used_pages m'" if "valid_path p" "tab m' p = Some b" for p b
    using that pt_okD(2) [OF ok] by (auto simp: tab' inst'(5) split: if_splits)
  show "p = q" if "valid_path p" "valid_path q" "tab m' p = Some b" "tab m' q = Some b" for p q b
    using that pt_okD(2, 3) [OF ok] inst'(4) by (auto simp: tab' split: if_splits)
  fix p :: "nat list" and b :: u64 and j :: nat
  assume p: "valid_path p" "length p \<le> 2" "j < 512" "tab m' p = Some b"
  consider "p = i # path" "b = n" "fresh_entry path (ld64 (ram m') (ent b j))"
    | "tab m p = Some b" "b = a" "j = i" "ld64 (ram m') (ent b j) = n OR table_flags"
    | "tab m p = Some b" "ld64 (ram m') (ent b j) = ld64 (ram m) (ent b j)"
  proof (cases "p = i # path")
    case True
    then show thesis
      using that(1) p new tab' [OF p(1)] by simp
  next
    case False
    then have "tab m p = Some b"
      using p tab' [OF p(1)] by simp
    moreover from this have "b \<noteq> n" "page_aligned b"
      using pt_okD(2) [OF ok p(1)] tab_aligned [OF ok p(1)] inst'(4) by auto
    ultimately show thesis
      using that(2, 3) inst'(6, 8) p(3) by metis
  qed
  note entry = this
  show "ld64 (ram m') (ent b j) AND 7 = 7" if "present (ld64 (ram m') (ent b j))"
    using entry that p pt_okD(4) [OF ok p(1-3)] by cases (simp_all add: table_flags_kept fresh_entry_def)
  show "\<not> huge (ld64 (ram m') (ent b j))" if "length p \<le> 1"
    using entry that p pt_okD(5) [OF ok p(1) that p(3)] inst'(7) 
    by cases (auto simp: not_huge_table fresh_entry_def)
  show "present (ld64 (ram m') (ent b j))" if "huge (ld64 (ram m') (ent b j))"
    using entry that p pt_okD(6) [OF ok p(1-3)] by cases (simp_all add: present_table fresh_entry_def)
qed

subsection \<open>The operations that install\<close>

lemma alloc_page_fields:
  "alloc_page m = Some (m', n) \<Longrightarrow> kernel_pml4 m' = kernel_pml4 m \<and> cr3 m' = cr3 m \<and> tlb m' = tlb m"
  by (auto simp: alloc_page_def alloc_pages_def split: if_splits option.splits)

lemma mm_ok_ram [simp]: "mm_ok (m\<lparr>ram := r\<rparr>) = mm_ok m"
  by (simp add: mm_ok_def)

lemma used_pages_ram [simp]: "used_pages (m\<lparr>ram := r\<rparr>) = used_pages m"
  by (simp add: used_pages_def used_frames_def)

lemma mm_ok_root [simp]: "mm_ok (m\<lparr>kernel_pml4 := r\<rparr>) = mm_ok m"
  by (simp add: mm_ok_def)

lemma used_pages_root [simp]: "used_pages (m\<lparr>kernel_pml4 := r\<rparr>) = used_pages m"
  by (simp add: used_pages_def used_frames_def)

lemma alloc_page_table:
  assumes "mm_ok m" and "used_pages m \<noteq> frame_pool"
  obtains m1 n where "alloc_page m = Some (m1, n)" "mm_ok m1" "n \<in> frame_pool" "n \<notin> used_pages m"
    "used_pages m1 = insert n (used_pages m)" "page_aligned n"
    "\<And>b j. page_aligned b \<Longrightarrow> j < 512 \<Longrightarrow>
      ld64 (ram m1) (ent b j) = (if b = n then 0 else ld64 (ram m) (ent b j))"
    "kernel_pml4 m1 = kernel_pml4 m" "cr3 m1 = cr3 m" "tlb m1 = tlb m"
proof -
  obtain m1 n where al: "alloc_page m = Some (m1, n)"
    using pa.alloc_total [OF assms(1)] by blast
  then have "n \<noteq> 0"
    using pa.alloc_null_iff [OF assms(1)] assms(2) by blast
  note fresh = pa.alloc_fresh [OF assms(1) al this]
  have "ld64 (ram m1) (ent b j) = (if b = n then 0 else ld64 (ram m) (ent b j))"
    if "page_aligned b" "j < 512" for b j
    using fresh(2, 5) that by (simp add: ld64_zeroed frame_pool_aligned)
  then show thesis
    using that al fresh(1-4) frame_pool_aligned alloc_page_fields [OF al] by blast
qed

lemma kmemset_page_ld64:
  assumes "page_aligned n" and "page_aligned b" and "j < 512"
  shows "ld64 (kmemset r n 0 PAGE_SIZE) (ent b j) = (if b = n then 0 else ld64 r (ent b j))"
proof -
  have "kmemset r n 0 PAGE_SIZE = (\<lambda>x. if in_block n PAGE_SIZE x then 0 else r x)"
    by (rule kmemset_eq) (simp add: PAGE_SIZE_def)
  then show ?thesis
    using assms by (simp add: ld64_zeroed)
qed

lemma fill_pt_ld64:
  assumes "page_aligned pt" and "page_aligned b" and "j < 512"
  shows "i + n \<le> 512 \<Longrightarrow> ld64 (fill_pt r pt hp i n) (ent b j) =
    (if b = pt \<and> i \<le> j \<and> j < i + n then (hp + of_nat (j * PAGE_SIZE)) OR table_flags
     else ld64 r (ent b j))"
proof (induction n arbitrary: i r)
  case (Suc n)
  then show ?case
    using assms by (auto simp: ld64_st64_ent simp del: of_nat_mult)
qed auto

lemma new_table_installs:
  assumes "mm_ok m" and "used_pages m \<noteq> frame_pool" and "i < 512" and "a \<in> used_pages m"
  shows "\<exists>m' n. new_table m (ent a i) = Some m' \<and> installs m m' n a i \<and>
    (\<forall>j < 512. ld64 (ram m') (ent n j) = 0) \<and> cr3 m' = cr3 m \<and> tlb m' = tlb m"
proof -
  obtain m1 n where al: "alloc_page m = Some (m1, n)" "mm_ok m1" "n \<in> frame_pool" "n \<notin> used_pages m"
    "used_pages m1 = insert n (used_pages m)" "page_aligned n"
    "\<And>b j. page_aligned b \<Longrightarrow> j < 512 \<Longrightarrow>
      ld64 (ram m1) (ent b j) = (if b = n then 0 else ld64 (ram m) (ent b j))"
    "kernel_pml4 m1 = kernel_pml4 m" "cr3 m1 = cr3 m" "tlb m1 = tlb m"
    using alloc_page_table [OF assms(1, 2)] by blast
  have a: "page_aligned a" "n \<noteq> a"
    using assms(4) al(4) used_pages_aligned by auto
  let ?m' = "m1\<lparr>ram := st64 (kmemset (ram m1) n 0 PAGE_SIZE) (ent a i) (n OR table_flags)\<rparr>"
  have "new_table m (ent a i) = Some ?m'"
    using al(1) by (simp add: new_table_def)
  moreover have "installs m ?m' n a i"
    using al a assms(3) by (auto simp: installs_def ld64_st64_ent kmemset_page_ld64)
  moreover have "\<forall>j < 512. ld64 (ram ?m') (ent n j) = 0"
    using al(6) a assms(3) by (simp add: ld64_st64_ent kmemset_page_ld64)
  ultimately show ?thesis
    using al(9, 10) by fastforce
qed

lemma split_huge_installs:
  assumes "mm_ok m" and "used_pages m \<noteq> frame_pool" and "i < 512" and "a \<in> used_pages m"
  shows "\<exists>m' n. split_huge m (ent a i) = Some m' \<and> installs m m' n a i \<and>
    (\<forall>j < 512. ld64 (ram m') (ent n j) =
       ((ld64 (ram m) (ent a i) AND NOT 0x1FFFFF) + of_nat (j * PAGE_SIZE)) OR table_flags) \<and>
    cr3 m' = cr3 m \<and> tlb m' = tlb m"
proof -
  obtain m1 n where al: "alloc_page m = Some (m1, n)" "mm_ok m1" "n \<in> frame_pool" "n \<notin> used_pages m"
    "used_pages m1 = insert n (used_pages m)" "page_aligned n"
    "\<And>b j. page_aligned b \<Longrightarrow> j < 512 \<Longrightarrow>
      ld64 (ram m1) (ent b j) = (if b = n then 0 else ld64 (ram m) (ent b j))"
    "kernel_pml4 m1 = kernel_pml4 m" "cr3 m1 = cr3 m" "tlb m1 = tlb m"
    using alloc_page_table [OF assms(1, 2)] by blast
  have a: "page_aligned a" "n \<noteq> a"
    using assms(4) al(4) used_pages_aligned by auto
  let ?hp = "ld64 (ram m) (ent a i) AND NOT 0x1FFFFF"
  let ?m' = "m1\<lparr>ram := st64 (fill_pt (ram m1) n ?hp 0 512) (ent a i) (n OR table_flags)\<rparr>"
  have "split_huge m (ent a i) = Some ?m'"
    using al(1) by (simp add: split_huge_def)
  moreover have "installs m ?m' n a i"
    using al a assms(3) by (auto simp: installs_def ld64_st64_ent fill_pt_ld64)
  moreover have "\<forall>j < 512. ld64 (ram ?m') (ent n j) = (?hp + of_nat (j * PAGE_SIZE)) OR table_flags"
    using al(6) a assms(3) by (simp add: ld64_st64_ent fill_pt_ld64 del: of_nat_mult)
  ultimately show ?thesis
    using al(9, 10) by fastforce
qed

subsection \<open>The walk along the tree\<close>

definition pd_path :: "u64 \<Rightarrow> nat list" where
  "pd_path v = [pdpt_idx v, pml4_idx v]"

definition pt_path :: "u64 \<Rightarrow> nat list" where
  "pt_path v = pd_idx v # pd_path v"

lemma valid_paths [simp]: "valid_path [pml4_idx v]" "valid_path (pd_path v)" "valid_path (pt_path v)"
  by (simp_all add: valid_path_def pd_path_def pt_path_def idx_less)

lemma length_paths [simp]: "length (pd_path v) = 2" "length (pt_path v) = 3"
  by (simp_all add: pd_path_def pt_path_def)

lemma pt_ok_root: "pt_ok m \<Longrightarrow> kernel_pml4 m \<noteq> 0"
  using pt_okD(2) [of m "[]" "kernel_pml4 m"] pa.used_pool [of m] pa.null_not_pool by auto

lemma walk_tab:
  assumes "pt_ok m"
  shows "walk (ram m) (kernel_pml4 m) v =
    (case tab m (pd_path v) of
       None \<Rightarrow> None
     | Some pd \<Rightarrow>
         if huge (ld64 (ram m) (ent pd (pd_idx v))) then Some (leaf_huge (ld64 (ram m) (ent pd (pd_idx v))) v)
         else (case tab m (pt_path v) of
             None \<Rightarrow> None
           | Some pt \<Rightarrow> leaf (ld64 (ram m) (ent pt (pt_idx v))) v))"
proof -
  have nh4: "\<not> huge (ld64 (ram m) (ent (kernel_pml4 m) (pml4_idx v)))"
    using pt_okD(5) [OF assms, of "[]"] by (simp add: idx_less)
  have nh3: "\<not> huge (ld64 (ram m) (ent a (pdpt_idx v)))" if "tab m [pml4_idx v] = Some a" for a
    using pt_okD(5) [OF assms, of "[pml4_idx v]"] that by (simp add: idx_less)
  have pr: "present (ld64 (ram m) (ent a (pd_idx v)))"
    if "tab m (pd_path v) = Some a" "huge (ld64 (ram m) (ent a (pd_idx v)))" for a
    using pt_okD(6) [OF assms valid_paths(2) _ idx_less(3) that(1)] that(2) by simp
  show ?thesis
    using nh4 nh3 pr
    by (auto simp: walk_def Let_def pd_path_def pt_path_def table_entry_def split: option.splits if_splits)
qed

lemma get_pte_ptr_tab:
  assumes "pt_ok m"
  shows "get_pte_ptr m v = map_option (\<lambda>pt. ent pt (pt_idx v)) (tab m (pt_path v))"
proof -
  have "kernel_pml4 m \<noteq> 0"
    using assms by (rule pt_ok_root)
  moreover have "\<not> huge (ld64 (ram m) (ent (kernel_pml4 m) (pml4_idx v)))"
    using pt_okD(5) [OF assms, of "[]"] by (simp add: idx_less)
  moreover have "\<not> huge (ld64 (ram m) (ent a (pdpt_idx v)))" if "tab m [pml4_idx v] = Some a" for a
    using pt_okD(5) [OF assms, of "[pml4_idx v]"] that by (simp add: idx_less)
  ultimately show ?thesis
    by (auto simp: get_pte_ptr_def Let_def pd_path_def pt_path_def table_entry_def split: option.splits if_splits)
qed

lemma installs_ld:
  assumes ok: "pt_ok m" and path: "valid_path (i # path)" and a: "tab m path = Some a"
    and inst: "installs m m' n a i"
    and "tab m q = Some b" "valid_path q" "j < 512" "j # q \<noteq> i # path"
  shows "ld64 (ram m') (ent b j) = ld64 (ram m) (ent b j)"
proof -
  have "page_aligned b" "b \<noteq> n"
    using assms tab_aligned pt_okD(2) installsD(4) [OF inst] by blast+
  moreover have "\<not> (b = a \<and> j = i)"
    using assms pt_okD(3) [OF ok] by (metis valid_path_Cons)
  ultimately show ?thesis
    using installsD(8) [OF inst] assms by blast
qed

lemma pt_path_longer: "valid_path (i # path) \<Longrightarrow> j # pt_path v \<noteq> i # path"
  using length_paths(2) [of v] by (auto simp: valid_path_Cons)

text \<open>Installing an empty table changes no translation.\<close>

lemma installs_zero_walk:
  assumes ok: "pt_ok m" and path: "valid_path (i # path)" and a: "tab m path = Some a"
    and old: "\<not> present (ld64 (ram m) (ent a i))" "\<not> huge (ld64 (ram m) (ent a i))"
    and inst: "installs m m' n a i" and zero: "\<forall>j < 512. ld64 (ram m') (ent n j) = 0"
  shows "walk (ram m') (kernel_pml4 m') v = walk (ram m) (kernel_pml4 m) v"
proof -
  have te: "\<not> table_entry (ld64 (ram m) (ent a i))"
    using old by (simp add: table_entry_def)
  have zero': "\<forall>j < 512. fresh_entry path (ld64 (ram m') (ent n j))"
    using zero by simp
  note tab' = installs_tab [OF ok path a te inst zero']
  have ok': "pt_ok m'"
    using installs_pt_ok [OF ok path a te inst zero'] .
  have none: "tab m (i # path) = None"
    using a te by simp
  note ld = installs_ld [OF ok path a inst]
  show ?thesis
  proof (cases "pd_path v = i # path")
    case True
    then have "tab m' (pd_path v) = Some n" "tab m (pd_path v) = None"
      using tab' [OF path] none by (simp_all only: if_True simp_thms)
    moreover from this have "tab m (pt_path v) = None" "pt_path v \<noteq> i # path"
      using True by (auto simp: pt_path_def)
    ultimately have "tab m' (pd_path v) = Some n" "tab m (pd_path v) = None" "tab m' (pt_path v) = None"
      using tab' [OF valid_paths(3)] by simp_all
    then show ?thesis
      using zero by (simp add: walk_tab ok ok' idx_less)
  next
    case False
    then have pd: "tab m' (pd_path v) = tab m (pd_path v)"
      using tab' by simp
    show ?thesis
    proof (cases "tab m (pd_path v)")
      case None
      then show ?thesis
        by (simp add: walk_tab ok ok' pd)
    next
      case (Some d)
      show ?thesis
      proof (cases "pt_path v = i # path")
        case True
        then have "tab m' (pt_path v) = Some n" "tab m (pt_path v) = None"
          using tab' [OF path] none by (simp_all only: if_True simp_thms)
        moreover have "d = a" "pd_idx v = i"
          using True Some a by (auto simp: pt_path_def)
        moreover have "\<not> huge (n OR table_flags)"
          using installsD(7) [OF inst] by (rule not_huge_table)
        ultimately show ?thesis
          using Some zero old installsD(6) [OF inst]
          by (simp add: walk_tab ok ok' pd idx_less leaf_def)
      next
        case False
        then have pt: "tab m' (pt_path v) = tab m (pt_path v)"
          using tab' by simp
        have "ld64 (ram m') (ent d (pd_idx v)) = ld64 (ram m) (ent d (pd_idx v))"
          using ld [OF Some] False by (simp add: idx_less pt_path_def)
        moreover have "ld64 (ram m') (ent t (pt_idx v)) = ld64 (ram m) (ent t (pt_idx v))"
          if "tab m (pt_path v) = Some t" for t
          using ld [OF that valid_paths(3) idx_less(4) pt_path_longer [OF path]] .
        ultimately show ?thesis
          using Some pt by (auto simp: walk_tab ok ok' pd split: option.splits)
      qed
    qed
  qed
qed

text \<open>Replacing a 2 MB entry by the table of its 512 pages changes no translation.\<close>

lemma leaf_split:
  assumes "e AND 7 = 7"
  shows "leaf (((e AND NOT 0x1FFFFF) + of_nat (pt_idx v * PAGE_SIZE)) OR table_flags) v =
    Some (leaf_huge e v)"
proof -
  let ?off = "push_bit 12 (drop_bit 12 v AND mask 9)"
  have off: "of_nat (pt_idx v * PAGE_SIZE) = ?off"
    unfolding pt_idx_def PAGE_SIZE_def flag_masks by (simp add: push_bit_eq_mult)
  have "(e AND NOT (mask 21)) + ?off = (e AND NOT (mask 21)) OR ?off"
    by (rule disjunctive_add) (auto simp: bit_simps)
  then have "leaf (((e AND NOT 0x1FFFFF) + of_nat (pt_idx v * PAGE_SIZE)) OR table_flags) v =
    leaf ((e AND NOT (mask 21)) OR ?off OR mask 3) v"
    unfolding off flag_masks table_flags_eq by (simp add: or.assoc)
  moreover have "present ((e AND NOT (mask 21)) OR ?off OR mask 3)"
    by (simp add: present_iff bit_simps)
  moreover have "pte_addr ((e AND NOT (mask 21)) OR ?off OR mask 3) OR (v AND mask 12) =
    (e AND NOT (mask 21)) OR (v AND mask 21)"
    by (rule bit_word_eqI) (auto simp: bit_pte_addr bit_simps)
  moreover have "((e AND NOT (mask 21)) OR ?off OR mask 3) AND mask 3 = mask 3"
    by (rule bit_word_eqI) (auto simp: bit_simps)
  ultimately show ?thesis
    using assms unfolding leaf_def leaf_huge_def flag_masks by simp
qed

lemma installs_split_walk:
  assumes ok: "pt_ok m" and path: "valid_path (i # path)" and a: "tab m path = Some a"
    and len: "length path = 2" and old: "huge (ld64 (ram m) (ent a i))"
    and inst: "installs m m' n a i"
    and new: "\<forall>j < 512. ld64 (ram m') (ent n j) =
      ((ld64 (ram m) (ent a i) AND NOT 0x1FFFFF) + of_nat (j * PAGE_SIZE)) OR table_flags"
  shows "walk (ram m') (kernel_pml4 m') v = walk (ram m) (kernel_pml4 m) v"
proof -
  have te: "\<not> table_entry (ld64 (ram m) (ent a i))"
    using old by (simp add: table_entry_def)
  have zero: "\<forall>j < 512. fresh_entry path (ld64 (ram m') (ent n j))"
    using len by simp
  note tab' = installs_tab [OF ok path a te inst zero]
  note ld = installs_ld [OF ok path a inst]
  have ok': "pt_ok m'"
    using installs_pt_ok [OF ok path a te inst zero] .
  have "pd_path v \<noteq> i # path"
    using len by (auto simp: pd_path_def)
  then have pd: "tab m' (pd_path v) = tab m (pd_path v)"
    using tab' by simp
  have flags: "ld64 (ram m) (ent a i) AND 7 = 7"
    using pt_okD(4, 6) [OF ok, of path i a] path len a old by (auto simp: valid_path_Cons)
  show ?thesis
  proof (cases "pt_path v = i # path")
    case True
    then have "tab m' (pt_path v) = Some n" and d: "pd_path v = path" "pd_idx v = i"
      using tab' [OF path] by (simp_all only: if_True simp_thms) (simp_all add: pt_path_def)
    moreover have "\<not> huge (n OR table_flags)"
      using installsD(7) [OF inst] by (rule not_huge_table)
    moreover have "leaf (ld64 (ram m') (ent n (pt_idx v))) v = Some (leaf_huge (ld64 (ram m) (ent a i)) v)"
      using leaf_split [OF flags] new [rule_format, OF idx_less(4)] by presburger
    ultimately show ?thesis
      using old a pd installsD(6) [OF inst] by (simp add: walk_tab ok ok')
  next
    case False
    then have pt: "tab m' (pt_path v) = tab m (pt_path v)"
      using tab' by simp
    have "ld64 (ram m') (ent d (pd_idx v)) = ld64 (ram m) (ent d (pd_idx v))"
      if "tab m (pd_path v) = Some d" for d
      using ld [OF that] False by (simp add: idx_less pt_path_def)
    moreover have "ld64 (ram m') (ent t (pt_idx v)) = ld64 (ram m) (ent t (pt_idx v))"
      if "tab m (pt_path v) = Some t" for t
      using ld [OF that valid_paths(3) idx_less(4) pt_path_longer [OF path]] .
    ultimately show ?thesis
      using pt by (auto simp: walk_tab ok ok' pd split: option.splits)
  qed
qed

subsection \<open>Storing a leaf entry\<close>

lemma leaf_store_tab:
  assumes ok: "pt_ok m" and p: "valid_path p" "length p = 3" "tab m p = Some a" and "i < 512"
  shows "valid_path q \<Longrightarrow> tab (m\<lparr>ram := st64 (ram m) (ent a i) e\<rparr>) q = tab m q"
proof (induction q)
  case (Cons j q)
  then have q: "valid_path q" "length q \<le> 2" "j < 512"
    by (simp_all add: valid_path_Cons)
  show ?case
  proof (cases "tab m q")
    case (Some b)
    then have "b \<noteq> a"
      using pt_okD(3) [OF ok q(1) p(1)] p q by auto
    then have "ld64 (st64 (ram m) (ent a i) e) (ent b j) = ld64 (ram m) (ent b j)"
      using tab_aligned [OF ok q(1) Some] tab_aligned [OF ok p(1, 3)] q(3) assms(5) by (simp add: ld64_st64_ent)
    then show ?thesis
      using Cons.IH [OF q(1)] Some by simp
  next
    case None
    then show ?thesis
      using Cons.IH [OF q(1)] by simp
  qed
qed simp

lemma leaf_store_ok:
  assumes ok: "pt_ok m" and p: "valid_path p" "length p = 3" "tab m p = Some a" and i: "i < 512"
  shows "pt_ok (m\<lparr>ram := st64 (ram m) (ent a i) e\<rparr>)"
proof -
  let ?m' = "m\<lparr>ram := st64 (ram m) (ent a i) e\<rparr>"
  note tab' = leaf_store_tab [OF assms, of _ e]
  have "ld64 (ram ?m') (ent b j) = ld64 (ram m) (ent b j)"
    if "valid_path q" "length q \<le> 2" "j < 512" "tab m q = Some b" for q b j
  proof -
    have "b \<noteq> a"
      using pt_okD(3) [OF ok that(1) p(1)] p that by auto
    then show ?thesis
      using tab_aligned [OF ok that(1, 4)] tab_aligned [OF ok p(1, 3)] that(3) i by (simp add: ld64_st64_ent)
  qed
  then show ?thesis
    unfolding pt_ok_def Let_def
    using pt_okD [OF ok] tab' by (auto simp del: mm.simps) 
qed

lemma tab_pt_pathD:
  assumes "tab m (pt_path v) = Some t"
  obtains d where "tab m (pd_path v) = Some d" "\<not> huge (ld64 (ram m) (ent d (pd_idx v)))"
  using assms by (auto simp: pt_path_def table_entry_def split: option.splits if_splits)

lemma leaf_store_walk:
  assumes ok: "pt_ok m" and a: "tab m (pt_path u) = Some a"
  shows "walk (st64 (ram m) (ent a (pt_idx u)) e) (kernel_pml4 m) v =
    (if vpn v = vpn u then leaf e v else walk (ram m) (kernel_pml4 m) v)"
proof -
  let ?m' = "m\<lparr>ram := st64 (ram m) (ent a (pt_idx u)) e\<rparr>"
  note store = ok valid_paths(3) length_paths(2) a idx_less(4)
  have ok': "pt_ok ?m'"
    by (rule leaf_store_ok [OF store])
  note tab' = leaf_store_tab [OF store, of _ u e]
  have al: "page_aligned a"
    using tab_aligned [OF ok _ a] by simp
  have ld: "ld64 (ram ?m') (ent b j) = (if q = pt_path u \<and> j = pt_idx u then e else ld64 (ram m) (ent b j))"
    if "tab m q = Some b" "valid_path q" "j < 512" for q b j
    using tab_aligned [OF ok that(2, 1)] al that pt_okD(3) [OF ok that(2) valid_paths(3) that(1)] a
    by (auto simp: ld64_st64_ent idx_less)
  have same: "vpn v = vpn u \<longleftrightarrow> pt_path v = pt_path u \<and> pt_idx v = pt_idx u"
    by (auto simp: vpn_eq_iff pt_path_def pd_path_def)
  have pd: "pd_path v \<noteq> pt_path u"
    using length_paths by (metis numeral_eq_iff semiring_norm(88))
  have ld_pd: "ld64 (ram ?m') (ent d (pd_idx v)) = ld64 (ram m) (ent d (pd_idx v))"
    if "tab m (pd_path v) = Some d" for d
    using ld [OF that valid_paths(2) idx_less(3)] pd by simp
  note ld_pt = ld [OF _ valid_paths(3) idx_less(4)]
  have "walk (ram ?m') (kernel_pml4 ?m') v =
    (if vpn v = vpn u then leaf e v else walk (ram m) (kernel_pml4 m) v)"
  proof (cases "vpn v = vpn u")
    case True
    then have pt: "tab m (pt_path v) = Some a"
      using same a by simp
    then obtain d where "tab m (pd_path v) = Some d" "\<not> huge (ld64 (ram m) (ent d (pd_idx v)))"
      by (rule tab_pt_pathD)
    then show ?thesis
      unfolding walk_tab [OF ok'] tab' [OF valid_paths(2)] tab' [OF valid_paths(3)]
      using pt True same ld_pd ld_pt [OF pt] by simp
  next
    case False
    then show ?thesis
      unfolding walk_tab [OF ok'] walk_tab [OF ok] tab' [OF valid_paths(2)] tab' [OF valid_paths(3)]
      using ld_pd ld_pt same by (auto simp del: mm.simps split: option.splits)
  qed
  then show ?thesis by simp
qed

section \<open>The operations on the invariant and the translation\<close>

abbreviation translate :: "mm \<Rightarrow> u64 \<Rightarrow> (u64 \<times> u64) option" where
  "translate m v \<equiv> walk (ram m) (kernel_pml4 m) v"

text \<open>Allocated pages that are not page tables keep their contents and do not become tables.\<close>

definition data_page :: "mm \<Rightarrow> u64 \<Rightarrow> bool" where
  "data_page m b \<longleftrightarrow> b \<in> used_pages m \<and> (\<forall>q. valid_path q \<longrightarrow> tab m q \<noteq> Some b)"

definition data_kept :: "mm \<Rightarrow> mm \<Rightarrow> bool" where
  "data_kept m m' \<longleftrightarrow> (\<forall>b. data_page m b \<longrightarrow> data_page m' b \<and>
     (\<forall>j < 512. ld64 (ram m') (ent b j) = ld64 (ram m) (ent b j)))"

lemma data_kept_refl: "data_kept m m"
  by (simp add: data_kept_def)

lemma data_kept_trans: "data_kept m m1 \<Longrightarrow> data_kept m1 m2 \<Longrightarrow> data_kept m m2"
  by (simp add: data_kept_def)

lemma installs_data_kept:
  assumes ok: "pt_ok m" and path: "valid_path (i # path)" and a: "tab m path = Some a"
    and old: "\<not> table_entry (ld64 (ram m) (ent a i))" and inst: "installs m m' n a i"
    and new: "\<forall>j < 512. fresh_entry path (ld64 (ram m') (ent n j))"
  shows "data_kept m m'"
  unfolding data_kept_def
proof (intro allI impI)
  fix b assume b: "data_page m b"
  have "valid_path path"
    using path by (simp add: valid_path_Cons)
  then have "b \<noteq> a" "b \<noteq> n" "page_aligned b"
    using b a installsD(4) [OF inst] used_pages_aligned by (auto simp: data_page_def)
  then show "data_page m' b \<and> (\<forall>j < 512. ld64 (ram m') (ent b j) = ld64 (ram m) (ent b j))"
    using b installs_tab [OF assms] installsD(5, 8) [OF inst] by (auto simp: data_page_def simp del: tbl.simps)
qed

lemma leaf_store_data_kept:
  assumes ok: "pt_ok m" and p: "valid_path p" "length p = 3" "tab m p = Some a" and i: "i < 512"
  shows "data_kept m (m\<lparr>ram := st64 (ram m) (ent a i) e\<rparr>)"
  unfolding data_kept_def
proof (intro allI impI)
  fix b assume b: "data_page m b"
  then have "b \<noteq> a" "page_aligned b" "page_aligned a"
    using p used_pages_aligned tab_aligned [OF ok p(1, 3)] by (auto simp: data_page_def)
  moreover have "tab (m\<lparr>ram := st64 (ram m) (ent a i) e\<rparr>) q = tab m q" if "valid_path q" for q
    using leaf_store_tab [OF ok p i that] .
  ultimately show "data_page (m\<lparr>ram := st64 (ram m) (ent a i) e\<rparr>) b \<and>
      (\<forall>j < 512. ld64 (ram (m\<lparr>ram := st64 (ram m) (ent a i) e\<rparr>)) (ent b j) = ld64 (ram m) (ent b j))"
    using b i by (auto simp: data_page_def ld64_st64_ent simp del: tbl.simps)
qed

text \<open>A step that adds at most one table and keeps every translation.\<close>

definition extends :: "mm \<Rightarrow> mm \<Rightarrow> bool" where
  "extends m m' \<longleftrightarrow> pt_ok m' \<and> kernel_pml4 m' = kernel_pml4 m \<and> cr3 m' = cr3 m \<and> tlb m' = tlb m \<and>
     translate m' = translate m \<and> used_pages m \<subseteq> used_pages m' \<and> data_kept m m' \<and>
     card (used_pages m') \<le> Suc (card (used_pages m))"

lemma extends_refl: "pt_ok m \<Longrightarrow> extends m m"
  by (simp add: extends_def data_kept_refl)

lemma installs_extends:
  assumes "pt_ok m'" and "installs m m' n a i" and "cr3 m' = cr3 m" "tlb m' = tlb m"
    and "translate m' = translate m" and "data_kept m m'"
  shows "extends m m'"
  using assms installsD [OF assms(2)] by (auto simp: extends_def card_insert_if)

lemma ensure_table_spec:
  assumes ok: "pt_ok m" and path: "valid_path (i # path)" and a: "tab m path = Some a"
    and room: "used_pages m \<noteq> frame_pool" and nh: "\<not> huge (ld64 (ram m) (ent a i))"
  shows "\<exists>m' l. ensure_table m (ent a i) = Some (m', l) \<and> extends m m' \<and>
    tab m' (i # path) = Some (pte_addr (ld64 (ram m') (ent a i))) \<and> (\<not> l \<longrightarrow> m' = m)"
proof (cases "present (ld64 (ram m) (ent a i))")
  case True
  then have "ensure_table m (ent a i) = Some (m, False)"
    by (simp add: ensure_table_def)
  then show ?thesis
    using True a nh extends_refl [OF ok] by (auto simp: table_entry_def)
next
  case False
  have i: "i < 512" "valid_path path"
    using path by (simp_all add: valid_path_Cons)
  obtain m' n where nt: "new_table m (ent a i) = Some m'" and inst: "installs m m' n a i"
    and zero: "\<forall>j < 512. ld64 (ram m') (ent n j) = 0" and regs: "cr3 m' = cr3 m" "tlb m' = tlb m"
    using new_table_installs [OF pt_okD(1) [OF ok] room i(1) pt_okD(2) [OF ok i(2) a]] by blast
  have te: "\<not> table_entry (ld64 (ram m) (ent a i))"
    using False by (simp add: table_entry_def)
  have fresh: "\<forall>j < 512. fresh_entry path (ld64 (ram m') (ent n j))"
    using zero by simp
  have "extends m m'"
    using installs_extends [OF installs_pt_ok [OF ok path a te inst fresh] inst regs]
      installs_zero_walk [OF ok path a False nh inst zero] installs_data_kept [OF ok path a te inst fresh]
    by blast
  moreover have "tab m' (i # path) = Some n"
    using installs_tab [OF ok path a te inst fresh path] by presburger
  ultimately show ?thesis
    using False nt installsD(6, 7) [OF inst]
    by (auto simp: ensure_table_def pte_addr_table simp del: tbl.simps)
qed

lemma ensure_pt_spec:
  assumes ok: "pt_ok m" and path: "valid_path (i # path)" "length path = 2" and a: "tab m path = Some a"
    and room: "used_pages m \<noteq> frame_pool"
  shows "\<exists>m' l. ensure_pt m (ent a i) = Some (m', l) \<and> extends m m' \<and>
    tab m' (i # path) = Some (pte_addr (ld64 (ram m') (ent a i))) \<and> (\<not> l \<longrightarrow> m' = m)"
proof (cases "huge (ld64 (ram m) (ent a i))")
  case False
  then show ?thesis
    using ensure_table_spec [OF ok path(1) a room False] by (simp add: ensure_pt_def)
next
  case True
  have i: "i < 512" "valid_path path"
    using path by (simp_all add: valid_path_Cons)
  obtain m' n where sh: "split_huge m (ent a i) = Some m'" and inst: "installs m m' n a i"
    and new: "\<forall>j < 512. ld64 (ram m') (ent n j) =
      ((ld64 (ram m) (ent a i) AND NOT 0x1FFFFF) + of_nat (j * PAGE_SIZE)) OR table_flags"
    and regs: "cr3 m' = cr3 m" "tlb m' = tlb m"
    using split_huge_installs [OF pt_okD(1) [OF ok] room i(1) pt_okD(2) [OF ok i(2) a]] by blast
  have te: "\<not> table_entry (ld64 (ram m) (ent a i))"
    using True by (simp add: table_entry_def)
  have fresh: "\<forall>j < 512. fresh_entry path (ld64 (ram m') (ent n j))"
    using path(2) by simp
  have "extends m m'"
    using installs_extends [OF installs_pt_ok [OF ok path(1) a te inst fresh] inst regs]
      installs_split_walk [OF ok path(1) a path(2) True inst new]
      installs_data_kept [OF ok path(1) a te inst fresh] by blast
  moreover have "tab m' (i # path) = Some n"
    using installs_tab [OF ok path(1) a te inst fresh path(1)] by presburger
  ultimately show ?thesis
    using True sh installsD(6, 7) [OF inst]
    by (auto simp: ensure_pt_def pte_addr_table simp del: tbl.simps)
qed

text \<open>The cache only holds translations of the current tables.\<close>

definition tlb_ok :: "mm \<Rightarrow> bool" where
  "tlb_ok m \<longleftrightarrow> cr3 m = kernel_pml4 m \<and> (\<forall>v t. v AND 0xFFF = 0 \<and> tlb m (vpn v) = Some t \<longrightarrow> translate m v = Some t)"

definition free_frames :: "mm \<Rightarrow> nat" where
  "free_frames m = card frame_pool - card (used_pages m)"

lemma room_if_free: "0 < free_frames m \<Longrightarrow> used_pages m \<noteq> frame_pool"
  by (auto simp: free_frames_def)

lemma extends_free: "extends m m' \<Longrightarrow> free_frames m - 1 \<le> free_frames m'"
  by (simp add: extends_def free_frames_def) linarith

lemma extends_trans_fields:
  assumes "extends m m1" and "extends m1 m2"
  shows "kernel_pml4 m2 = kernel_pml4 m" "cr3 m2 = cr3 m" "tlb m2 = tlb m" "translate m2 = translate m"
    "used_pages m \<subseteq> used_pages m2" "pt_ok m2"
  using assms by (auto simp: extends_def)

text \<open>The three levels \<open>map_page\<close> goes through before it writes the leaf.\<close>

lemma map_page_levels:
  assumes ok: "pt_ok m" and room: "3 \<le> free_frames m"
  obtains m3 pt l where "pt_ok m3" "kernel_pml4 m3 = kernel_pml4 m" "cr3 m3 = cr3 m" "tlb m3 = tlb m"
    "translate m3 = translate m" "used_pages m \<subseteq> used_pages m3" "tab m3 (pt_path virt) = Some pt"
    "\<not> l \<longrightarrow> m3 = m" "data_kept m m3"
    "\<And>phys flags. map_page m virt phys flags =
       Some (let m' = m3\<lparr>ram := st64 (ram m3) (ent pt (pt_idx virt)) ((phys AND NOT 0xFFF) OR flags)\<rparr>
             in if l then mm_flush_tlb m' else invlpg m' virt)"
proof -
  have "\<not> huge (ld64 (ram m) (ent (kernel_pml4 m) (pml4_idx virt)))"
    using pt_okD(5) [OF ok valid_path_Nil _ idx_less(1)] by simp
  then obtain m1 l1 where m1: "ensure_table m (ent (kernel_pml4 m) (pml4_idx virt)) = Some (m1, l1)"
    "extends m m1" "\<not> l1 \<longrightarrow> m1 = m"
    "tab m1 [pml4_idx virt] = Some (pte_addr (ld64 (ram m1) (ent (kernel_pml4 m) (pml4_idx virt))))"
    using ensure_table_spec [OF ok valid_paths(1), of "kernel_pml4 m" virt] room_if_free [of m] room by auto
  define pdpt where "pdpt = pte_addr (ld64 (ram m1) (ent (kernel_pml4 m) (pml4_idx virt)))"
  have ok1: "pt_ok m1" and room1: "2 \<le> free_frames m1"
    using m1(2) extends_free [OF m1(2)] room by (auto simp: extends_def)
  have "\<not> huge (ld64 (ram m1) (ent pdpt (pdpt_idx virt)))"
    using pt_okD(5) [OF ok1 valid_paths(1) _ idx_less(2) m1(4)] by (simp add: pdpt_def)
  then obtain m2 l2 where m2: "ensure_table m1 (ent pdpt (pdpt_idx virt)) = Some (m2, l2)"
    "extends m1 m2" "\<not> l2 \<longrightarrow> m2 = m1"
    "tab m2 (pd_path virt) = Some (pte_addr (ld64 (ram m2) (ent pdpt (pdpt_idx virt))))"
    using ensure_table_spec [OF ok1 valid_paths(2) [unfolded pd_path_def] m1(4) room_if_free]
      room1 unfolding pdpt_def pd_path_def by auto
  define pd where "pd = pte_addr (ld64 (ram m2) (ent pdpt (pdpt_idx virt)))"
  have ok2: "pt_ok m2" and room2: "1 \<le> free_frames m2"
    using m2(2) extends_free [OF m2(2)] room1 by (auto simp: extends_def)
  obtain m3 l3 where m3: "ensure_pt m2 (ent pd (pd_idx virt)) = Some (m3, l3)"
    "extends m2 m3" "\<not> l3 \<longrightarrow> m3 = m2"
    "tab m3 (pt_path virt) = Some (pte_addr (ld64 (ram m3) (ent pd (pd_idx virt))))"
    using ensure_pt_spec [OF ok2 valid_paths(3) [unfolded pt_path_def] length_paths(1) m2(4) room_if_free]
      room2 unfolding pd_def pt_path_def by auto
  have fields: "kernel_pml4 m1 = kernel_pml4 m" "kernel_pml4 m2 = kernel_pml4 m"
    using m1(2) m2(2) by (simp_all add: extends_def)
  show thesis
  proof (rule that [of m3 "pte_addr (ld64 (ram m3) (ent pd (pd_idx virt)))" "l1 \<or> l2 \<or> l3"])
    show "\<not> (l1 \<or> l2 \<or> l3) \<longrightarrow> m3 = m"
      using m1(3) m2(3) m3(3) by simp
    show "map_page m virt phys flags =
       Some (let m' = m3\<lparr>ram := st64 (ram m3) (ent (pte_addr (ld64 (ram m3) (ent pd (pd_idx virt)))) (pt_idx virt))
                       ((phys AND NOT 0xFFF) OR flags)\<rparr>
             in if l1 \<or> l2 \<or> l3 then mm_flush_tlb m' else invlpg m' virt)" for phys flags
      unfolding map_page_def using m1(1) m2(1) m3(1) fields
      by (simp add: Let_def flip: pdpt_def pd_def)
    show "data_kept m m3"
      using m1(2) m2(2) m3(2) unfolding extends_def by (meson data_kept_trans)
  qed (use m1(2) m2(2) m3(2, 4) in \<open>auto simp: extends_def\<close>)
qed

lemma mm_ok_regs [simp]:
  "pt_ok (m\<lparr>tlb := t\<rparr>) = pt_ok m" "pt_ok (m\<lparr>cr3 := c\<rparr>) = pt_ok m"
  by (simp_all add: pt_ok_def mm_ok_def used_pages_def used_frames_def)

lemma leaf_store_tlb_ok:
  assumes "pt_ok m" and "tlb_ok m" and "tab m (pt_path u) = Some a"
  shows "tlb_ok (invlpg (m\<lparr>ram := st64 (ram m) (ent a (pt_idx u)) e\<rparr>) u)"
  using assms leaf_store_walk [OF assms(1, 3)] by (auto simp: tlb_ok_def invlpg_def split: if_splits)

lemma map_page_spec:
  assumes ok: "pt_ok m" and room: "3 \<le> free_frames m"
  obtains m' pt where "map_page m virt phys flags = Some m'" "pt_ok m'"
    "\<And>v. translate m' v =
      (if vpn v = vpn virt then leaf ((phys AND NOT 0xFFF) OR flags) v else translate m v)"
    "tlb_ok m \<longrightarrow> tlb_ok m'" "used_pages m \<subseteq> used_pages m'" "kernel_pml4 m' = kernel_pml4 m"
    "tab m' (pt_path virt) = Some pt"
    "ld64 (ram m') (ent pt (pt_idx virt)) = (phys AND NOT 0xFFF) OR flags" "data_kept m m'"
proof -
  let ?e = "(phys AND NOT 0xFFF) OR flags"
  obtain m3 pt l where m3: "pt_ok m3" "kernel_pml4 m3 = kernel_pml4 m" "cr3 m3 = cr3 m" "tlb m3 = tlb m"
    "translate m3 = translate m" "used_pages m \<subseteq> used_pages m3" "tab m3 (pt_path virt) = Some pt"
    "\<not> l \<longrightarrow> m3 = m" "data_kept m m3"
    and mp: "map_page m virt phys flags =
       Some (let m' = m3\<lparr>ram := st64 (ram m3) (ent pt (pt_idx virt)) ?e\<rparr>
             in if l then mm_flush_tlb m' else invlpg m' virt)"
    using map_page_levels [OF assms] by metis
  let ?m4 = "m3\<lparr>ram := st64 (ram m3) (ent pt (pt_idx virt)) ?e\<rparr>"
  let ?m' = "if l then mm_flush_tlb ?m4 else invlpg ?m4 virt"
  have same: "ram ?m' = ram ?m4" "kernel_pml4 ?m' = kernel_pml4 ?m4" "used_pages ?m' = used_pages ?m4"
    by (simp_all add: mm_flush_tlb_def write_cr3_def invlpg_def used_pages_def used_frames_def)
  have ok4: "pt_ok ?m4"
    by (rule leaf_store_ok [OF m3(1) valid_paths(3) length_paths(2) m3(7) idx_less(4)])
  have walk4: "translate ?m4 v = (if vpn v = vpn virt then leaf ?e v else translate m v)" for v
    using leaf_store_walk [OF m3(1, 7), of ?e v] m3(5) by (simp add: fun_eq_iff)
  show thesis
  proof (rule that [of ?m' pt])
    show "pt_ok ?m'"
      using ok4 by (simp add: mm_flush_tlb_def write_cr3_def invlpg_def)
    show "translate ?m' v = (if vpn v = vpn virt then leaf ?e v else translate m v)" for v
      using walk4 same by metis
    show "tlb_ok m \<longrightarrow> tlb_ok ?m'"
      using leaf_store_tlb_ok [OF m3(1) _ m3(7), of ?e] m3(8) pt_ok_root [OF m3(1)]
      by (auto simp: tlb_ok_def mm_flush_tlb_def write_cr3_def)
    show "tab ?m' (pt_path virt) = Some pt"
      using leaf_store_tab [OF m3(1) valid_paths(3) length_paths(2) m3(7) idx_less(4) valid_paths(3)] m3(7) same
      by metis
    have "data_kept m ?m4"
      using data_kept_trans [OF m3(9) leaf_store_data_kept [OF m3(1) valid_paths(3) length_paths(2) m3(7) idx_less(4)]] .
    then show "data_kept m ?m'"
      using same by (simp add: data_kept_def data_page_def del: tbl.simps)
    show "ld64 (ram ?m') (ent pt (pt_idx virt)) = ?e"
      unfolding same by (simp add: ld64_st64_same)
  qed (use mp m3(2, 6) same in \<open>simp_all add: Let_def\<close>)
qed

lemma free_page_aligned:
  assumes "mm_ok m" and "page_aligned p"
  shows "mm_ok (free_page m p)" "used_pages (free_page m p) = used_pages m - {p}"
    "ram (free_page m p) = ram m"
proof -
  have "mm_ok (free_page m p) \<and> used_pages (free_page m p) = used_pages m - {p} \<and> ram (free_page m p) = ram m"
  proof (cases "p \<in> frame_pool")
    case True
    then show ?thesis
      using pa.free_pool [OF assms(1)] by blast
  next
    case False
    have "free_page m p = m"
    proof (cases "p < phys_memory_base")
      case ge: False
      let ?k = "unat (p - phys_memory_base) div PAGE_SIZE"
      have "unat (p - phys_memory_base) = unat p - 0x2000000" "0x2000000 \<le> unat p"
        using ge unat_less_iff_le_diff [of phys_memory_base p]
        by (simp_all add: not_less) (simp_all add: phys_memory_base_def word_le_nat_alt)
      moreover have "4096 dvd unat p"
        using assms(2) by (simp add: page_aligned_def)
      ultimately have "unat p = 0x2000000 + ?k * 4096"
        by (auto simp: PAGE_SIZE_def)
      then have "p = frame_addr ?k" if "?k < MAX_PAGES"
        using unat_frame_addr [OF that] by (metis unsigned_word_eqI)
      then have "\<not> ?k < MAX_PAGES"
        using False by (auto simp: frame_pool_def)
      then show ?thesis
        by (simp add: free_page_def)
    qed (simp add: free_page_def)
    then show ?thesis
      using assms(1) False pa.used_pool [of m] by auto
  qed
  then show "mm_ok (free_page m p)" "used_pages (free_page m p) = used_pages m - {p}"
    "ram (free_page m p) = ram m"
    by blast+
qed

lemma free_page_fields [simp]:
  "kernel_pml4 (free_page m p) = kernel_pml4 m" "cr3 (free_page m p) = cr3 m" "tlb (free_page m p) = tlb m"
  by (simp_all add: free_page_def Let_def)

lemma free_page_pt_ok:
  assumes ok: "pt_ok m" and "page_aligned p" and nt: "\<forall>q. valid_path q \<longrightarrow> tab m q \<noteq> Some p"
  shows "pt_ok (free_page m p)"
proof -
  note fp = free_page_aligned [OF pt_okD(1) [OF ok] assms(2)]
  have "a \<in> used_pages (free_page m p)" if "valid_path q" "tab m q = Some a" for q a
    using pt_okD(2) [OF ok that] that nt by (auto simp: fp)
  then show ?thesis
    using ok fp unfolding pt_ok_def by (auto simp: Let_def simp del: tbl.simps)
qed

subsection \<open>Changes outside the tables\<close>

text \<open>A change that leaves the entries of every table alone keeps the tree and the translation.\<close>

lemma same_tables:
  assumes ok: "pt_ok m" and "mm_ok m'" and root: "kernel_pml4 m' = kernel_pml4 m"
    and used: "used_pages m \<subseteq> used_pages m'"
    and "\<forall>q b j. valid_path q \<and> tab m q = Some b \<and> j < 512 \<longrightarrow>
      ld64 (ram m') (ent b j) = ld64 (ram m) (ent b j)"
  shows "valid_path q \<Longrightarrow> tab m' q = tab m q" and "pt_ok m'" and "translate m' v = translate m v"
proof -
  have same: "ld64 (ram m') (ent b j) = ld64 (ram m) (ent b j)"
    if "valid_path q" "tab m q = Some b" "j < 512" for q b j
    using assms(5) that by blast
  have tab: "tab m' q = tab m q" if "valid_path q" for q
    using that
  proof (induction q)
    case (Cons j q)
    then show ?case
      using same by (auto simp: valid_path_Cons split: option.splits)
  qed (simp add: root)
  then show "valid_path q \<Longrightarrow> tab m' q = tab m q" .
  show ok': "pt_ok m'"
    unfolding pt_ok_def Let_def
  proof (intro conjI allI impI; (elim conjE)?)
    show "mm_ok m'"
      by (rule assms(2))
    show "b \<in> used_pages m'" if "valid_path p" "tab m' p = Some b" for p b
      using that tab pt_okD(2) [OF ok that(1)] used by auto
    show "p = q" if "valid_path p" "valid_path q" "tab m' p = Some b" "tab m' q = Some b" for p q b
      using that tab pt_okD(3) [OF ok that(1, 2)] by simp
    fix p :: "nat list" and b :: u64 and j :: nat
    assume p: "valid_path p" "length p \<le> 2" "j < 512" "tab m' p = Some b"
    then have pb: "tab m p = Some b"
      using tab by simp
    show "ld64 (ram m') (ent b j) AND 7 = 7" if "present (ld64 (ram m') (ent b j))"
      using that pt_okD(4) [OF ok p(1-3) pb] same [OF p(1) pb p(3)] by simp
    show "\<not> huge (ld64 (ram m') (ent b j))" if "length p \<le> 1"
      using that pt_okD(5) [OF ok p(1) that p(3) pb] same [OF p(1) pb p(3)] by simp
    show "present (ld64 (ram m') (ent b j))" if "huge (ld64 (ram m') (ent b j))"
      using that pt_okD(6) [OF ok p(1-3) pb] same [OF p(1) pb p(3)] by simp
  qed
  show "translate m' v = translate m v"
    unfolding walk_tab [OF ok] walk_tab [OF ok'] tab [OF valid_paths(2)] tab [OF valid_paths(3)]
    using same [OF valid_paths(2) _ idx_less(3)] same [OF valid_paths(3) _ idx_less(4)]
    by (auto split: option.splits simp del: tbl.simps)
qed

lemma alloc_page_data:
  assumes ok: "pt_ok m" and room: "used_pages m \<noteq> frame_pool"
  obtains m1 n where "alloc_page m = Some (m1, n)" "n \<noteq> 0" "n \<in> frame_pool" "n \<notin> used_pages m"
    "pt_ok m1" "translate m1 = translate m" "data_page m1 n" "tlb_ok m \<longrightarrow> tlb_ok m1"
    "free_frames m1 = free_frames m - 1" "\<forall>j < 512. ld64 (ram m1) (ent n j) = 0"
    "used_pages m1 = insert n (used_pages m)"
proof -
  obtain m1 n where al: "alloc_page m = Some (m1, n)" "mm_ok m1" "n \<in> frame_pool" "n \<notin> used_pages m"
    "used_pages m1 = insert n (used_pages m)" "page_aligned n"
    "\<And>b j. page_aligned b \<Longrightarrow> j < 512 \<Longrightarrow>
      ld64 (ram m1) (ent b j) = (if b = n then 0 else ld64 (ram m) (ent b j))"
    "kernel_pml4 m1 = kernel_pml4 m" "cr3 m1 = cr3 m" "tlb m1 = tlb m"
    using alloc_page_table [OF pt_okD(1) [OF ok] room] by blast
  have "ld64 (ram m1) (ent b j) = ld64 (ram m) (ent b j)"
    if "valid_path q" "tab m q = Some b" "j < 512" for q b j
    using tab_aligned [OF ok that(1, 2)] pt_okD(2) [OF ok that(1, 2)] al(4, 7) that(3) by auto
  then have same: "\<forall>q b j. valid_path q \<and> tab m q = Some b \<and> j < 512 \<longrightarrow>
      ld64 (ram m1) (ent b j) = ld64 (ram m) (ent b j)"
    by blast
  have sub: "used_pages m \<subseteq> used_pages m1"
    using al(5) by auto
  note st = same_tables [OF ok al(2, 8) sub same]
  have walk: "translate m1 = translate m"
    using st(3) by blast
  have "tab m1 q \<noteq> Some n" if "valid_path q" for q
    using st(1) [OF that] pt_okD(2) [OF ok that] al(4) by auto
  then have "data_page m1 n"
    using al(5) by (auto simp: data_page_def simp del: tbl.simps)
  moreover have "tlb_ok m \<longrightarrow> tlb_ok m1"
    using walk al(8-10) by (simp add: tlb_ok_def)
  moreover have "n \<noteq> 0"
    using al(3) pa.null_not_pool by auto
  ultimately show thesis
    using that [of m1 n] al st(2) walk by (simp add: free_frames_def)
qed

section \<open>The initial identity map\<close>

lemma init_pd_ld64:
  assumes "page_aligned pd" and "page_aligned b" and "j < 512"
  shows "i + n \<le> 512 \<Longrightarrow> ld64 (init_pd r pd gb i n) (ent b j) =
    (if b = pd \<and> i \<le> j \<and> j < i + n then identity_entry gb j else ld64 r (ent b j))"
proof (induction n arbitrary: i r)
  case (Suc n)
  then show ?case
    using assms by (auto simp: ld64_st64_ent)
qed auto

lemma identity_entry_mask: "identity_entry gb i = of_nat (gb * 0x40000000 + i * 0x200000) OR mask 3 OR push_bit 7 1"
  unfolding identity_entry_def table_flags_eq [symmetric] table_flags_def by (simp only: or.assoc)

lemma identity_entry_flags:
  "huge (identity_entry gb i)" "present (identity_entry gb i)" "identity_entry gb i AND 7 = 7"
proof -
  show "identity_entry gb i AND 7 = 7"
    unfolding identity_entry_mask flag_masks by (rule bit_word_eqI) (auto simp: bit_simps)
qed (simp_all add: huge_iff present_iff identity_entry_mask bit_simps del: push_bit_of_1)

lemma fresh_identity_entry: "length path = 1 \<Longrightarrow> fresh_entry path (identity_entry gb i)"
  by (auto simp: fresh_entry_def table_entry_def identity_entry_flags)

lemma leaf_huge_identity:
  assumes "v < 2 ^ 39"
  shows "leaf_huge (identity_entry (pdpt_idx v) (pd_idx v)) v = (v, 7)"
proof -
  let ?a = "push_bit 30 (drop_bit 30 v AND mask 9)" and ?b = "push_bit 21 (drop_bit 21 v AND mask 9)"
  have "of_nat (pdpt_idx v * 0x40000000 + pd_idx v * 0x200000) = ?a + ?b"
    unfolding pdpt_idx_def pd_idx_def flag_masks by (simp add: push_bit_eq_mult)
  also have "\<dots> = ?a OR ?b"
    by (rule disjunctive_add) (auto simp: bit_simps)
  finally have e: "identity_entry (pdpt_idx v) (pd_idx v) = (?a OR ?b) OR mask 3 OR push_bit 7 1"
    unfolding identity_entry_mask by simp
  have "unat v < 2 ^ 39"
    using assms by (simp add: word_less_nat_alt)
  then have "unat (take_bit 39 v) = unat v"
    by (simp add: unsigned_take_bit_eq take_bit_nat_eq_self)
  then have "v = take_bit 39 v"
    by (metis unsigned_word_eqI)
  then have small: "\<not> bit v n" if "39 \<le> n" for n
    using that by (metis bit_take_bit_iff not_less)
  have "(((?a OR ?b) OR mask 3 OR push_bit 7 1) AND NOT (mask 21)) OR (v AND mask 21) = v"
  proof (rule bit_word_eqI)
    fix n assume "n < LENGTH(64)"
    then consider "n < 21" | "21 \<le> n" "n < 30" | "30 \<le> n" "n < 39" | "39 \<le> n" "n < 64"
      by (auto simp: not_less) linarith
    then show "bit ((((?a OR ?b) OR mask 3 OR push_bit 7 1) AND NOT (mask 21)) OR (v AND mask 21)) n = bit v n"
      using small by cases (auto simp: bit_simps simp del: push_bit_of_1)
  qed
  then show ?thesis
    using identity_entry_flags(3) unfolding leaf_huge_def flag_masks e [symmetric] by simp
qed

lemma pt_ok_root_only:
  assumes "mm_ok m" and "kernel_pml4 m \<in> used_pages m"
    and zero: "\<forall>j < 512. ld64 (ram m) (ent (kernel_pml4 m) j) = 0"
  shows "pt_ok m"
proof -
  have tab: "tab m p = (if p = [] then Some (kernel_pml4 m) else None)" if "valid_path p" for p
    using that
  proof (induction p)
    case (Cons j p)
    then show ?case
      using zero by (auto simp: valid_path_Cons table_entry_def)
  qed simp
  then show ?thesis
    using assms by (auto simp: pt_ok_def Let_def simp del: tbl.simps split: if_splits)
qed

text \<open>The state of the loop of \<open>mm_init\<close> after \<open>gb\<close> page directories.\<close>

definition identity_upto :: "mm \<Rightarrow> u64 \<Rightarrow> nat \<Rightarrow> bool" where
  "identity_upto m pdpt gb \<longleftrightarrow> pt_ok m \<and> tab m [0] = Some pdpt \<and>
     (\<forall>g < gb. \<exists>pd. tab m [g, 0] = Some pd \<and> (\<forall>i < 512. ld64 (ram m) (ent pd i) = identity_entry g i)) \<and>
     (\<forall>g. gb \<le> g \<and> g < 512 \<longrightarrow> ld64 (ram m) (ent pdpt g) = 0) \<and>
     (\<forall>i. 0 < i \<and> i < 512 \<longrightarrow> ld64 (ram m) (ent (kernel_pml4 m) i) = 0)"

lemma identity_upto_step:
  assumes inv: "identity_upto m pdpt gb" and "gb < 512"
    and inst: "installs m m' n pdpt gb"
    and new: "\<forall>i < 512. ld64 (ram m') (ent n i) = identity_entry gb i"
  shows "identity_upto m' pdpt (Suc gb)"
proof -
  have ok: "pt_ok m" and a: "tab m [0] = Some pdpt" and old: "ld64 (ram m) (ent pdpt gb) = 0"
    using inv \<open>gb < 512\<close> by (auto simp: identity_upto_def simp del: tbl.simps)
  have path: "valid_path [gb, 0]"
    using \<open>gb < 512\<close> by (simp add: valid_path_def)
  have te: "\<not> table_entry (ld64 (ram m) (ent pdpt gb))"
    using old by (simp add: table_entry_def)
  have fresh: "\<forall>j < 512. fresh_entry [0] (ld64 (ram m') (ent n j))"
    using new by (simp add: fresh_identity_entry)
  note tab' = installs_tab [OF ok path a te inst fresh]
  note ld = installs_ld [OF ok path a inst]
  have v0: "valid_path [0]"
    by (simp add: valid_path_def)
  have "tab m' [0] = Some pdpt"
    using tab' [OF v0] a by simp
  moreover have "\<exists>pd. tab m' [g, 0] = Some pd \<and> (\<forall>i < 512. ld64 (ram m') (ent pd i) = identity_entry g i)"
    if g: "g < Suc gb" for g
  proof (cases "g = gb")
    case True
    then show ?thesis
      using tab' [OF path] new by (intro exI [of _ n]) (simp del: tbl.simps)
  next
    case False
    then obtain pd where pd: "tab m [g, 0] = Some pd" "\<forall>i < 512. ld64 (ram m) (ent pd i) = identity_entry g i"
      using inv g unfolding identity_upto_def by (meson less_SucE)
    have vg: "valid_path [g, 0]"
      using g \<open>gb < 512\<close> by (simp add: valid_path_def)
    show ?thesis
      using tab' [OF vg] pd False ld [OF pd(1) vg] by (intro exI [of _ pd]) (simp del: tbl.simps)
  qed
  moreover have "ld64 (ram m') (ent pdpt g) = 0" if "Suc gb \<le> g" "g < 512" for g
    using ld [OF a v0 that(2)] inv that by (simp add: identity_upto_def del: tbl.simps)
  moreover have "ld64 (ram m') (ent (kernel_pml4 m') i) = 0" if "0 < i" "i < 512" for i
    using ld [OF tbl.simps(1) valid_path_Nil that(2)] inv that installsD(2) [OF inst]
    by (simp add: identity_upto_def del: tbl.simps)
  ultimately show ?thesis
    using installs_pt_ok [OF ok path a te inst fresh] by (simp add: identity_upto_def del: tbl.simps)
qed

lemma init_pdpt_spec:
  "identity_upto m pdpt gb \<Longrightarrow> n \<le> free_frames m \<Longrightarrow> gb + n \<le> 512 \<Longrightarrow>
    \<exists>m'. init_pdpt m pdpt gb n = Some m' \<and> identity_upto m' pdpt (gb + n) \<and>
      kernel_pml4 m' = kernel_pml4 m \<and> free_frames m - n \<le> free_frames m'"
proof (induction n arbitrary: m gb)
  case (Suc n)
  have ok: "pt_ok m" and a: "tab m [0] = Some pdpt"
    using Suc.prems(1) by (auto simp: identity_upto_def simp del: tbl.simps)
  have v0: "valid_path [0]"
    by (simp add: valid_path_def)
  have room: "used_pages m \<noteq> frame_pool"
    using Suc.prems(2) by (intro room_if_free) simp
  obtain m1 pd where al: "alloc_page m = Some (m1, pd)" "mm_ok m1" "pd \<in> frame_pool" "pd \<notin> used_pages m"
    "used_pages m1 = insert pd (used_pages m)" "page_aligned pd"
    "\<And>b j. page_aligned b \<Longrightarrow> j < 512 \<Longrightarrow>
      ld64 (ram m1) (ent b j) = (if b = pd then 0 else ld64 (ram m) (ent b j))"
    "kernel_pml4 m1 = kernel_pml4 m" "cr3 m1 = cr3 m" "tlb m1 = tlb m"
    using alloc_page_table [OF pt_okD(1) [OF ok] room] by blast
  let ?m' = "m1\<lparr>ram := init_pd (st64 (ram m1) (ent pdpt gb) (pd OR table_flags)) pd gb 0 512\<rparr>"
  have pdpt: "page_aligned pdpt" "pdpt \<noteq> pd"
    using tab_aligned [OF ok v0 a] pt_okD(2) [OF ok v0 a] al(4) by auto
  have inst: "installs m ?m' pd pdpt gb"
    using al pdpt Suc.prems(3) by (auto simp: installs_def init_pd_ld64 ld64_st64_ent)
  have "identity_upto ?m' pdpt (Suc gb)"
    using Suc.prems(3) al(6) by (intro identity_upto_step [OF Suc.prems(1) _ inst]) (simp_all add: init_pd_ld64)
  moreover have "n \<le> free_frames ?m'" "free_frames m - Suc n = free_frames ?m' - n"
    using Suc.prems(2) al(4, 5) by (simp_all add: free_frames_def)
  ultimately show ?case
    using Suc.IH [of ?m' "Suc gb"] Suc.prems(3) al(1, 8) by auto
qed simp

lemma card_frame_pool: "card frame_pool = MAX_PAGES"
proof -
  have "inj_on frame_addr {..<MAX_PAGES}"
    by (intro inj_onI) (simp add: frame_addr_inj)
  then show ?thesis
    by (simp add: frame_pool_def card_image)
qed

lemma not_frame_pool: "card A < MAX_PAGES \<Longrightarrow> A \<noteq> frame_pool"
  by (auto simp: card_frame_pool)

lemma mm_init_spec:
  obtains m' pdpt where "mm_init m = Some m'" "identity_upto m' pdpt 4" "cr3 m' = kernel_pml4 m'"
    "tlb m' = (\<lambda>_. None)" "3 \<le> free_frames m'" "1000 \<le> free_frames m'"
proof -
  let ?m0 = "m\<lparr>page_bitmap := replicate (MAX_PAGES div 8) 0\<rparr>"
  have ok0: "mm_ok ?m0"
    by (simp add: mm_ok_def)
  have "used_frames ?m0 = {}"
    by (auto simp: used_frames_def frame_used_bit MAX_PAGES_def less_mult_imp_div_less)
  then have used0: "used_pages ?m0 = {}"
    by (simp add: used_pages_def)
  have "used_pages ?m0 \<noteq> frame_pool"
    unfolding used0 by (rule not_frame_pool) (simp add: MAX_PAGES_def)
  then obtain m1 pml4 where al1: "alloc_page ?m0 = Some (m1, pml4)" "mm_ok m1" "pml4 \<in> frame_pool"
    "pml4 \<notin> used_pages ?m0" "used_pages m1 = insert pml4 (used_pages ?m0)" "page_aligned pml4"
    "\<And>b j. page_aligned b \<Longrightarrow> j < 512 \<Longrightarrow>
      ld64 (ram m1) (ent b j) = (if b = pml4 then 0 else ld64 (ram ?m0) (ent b j))"
    "kernel_pml4 m1 = kernel_pml4 ?m0" "cr3 m1 = cr3 ?m0" "tlb m1 = tlb ?m0"
    using alloc_page_table [OF ok0] by blast
  let ?m1 = "m1\<lparr>kernel_pml4 := pml4\<rparr>"
  have used1: "used_pages ?m1 = {pml4}" and ok1: "mm_ok ?m1"
    using al1(2, 5) used0 by simp_all
  have pt1: "pt_ok ?m1"
    using ok1 used1 al1(6, 7) by (intro pt_ok_root_only) simp_all
  have "used_pages ?m1 \<noteq> frame_pool"
    unfolding used1 by (rule not_frame_pool) (simp add: MAX_PAGES_def)
  then obtain m2 pdpt where al2: "alloc_page ?m1 = Some (m2, pdpt)" "mm_ok m2" "pdpt \<in> frame_pool"
    "pdpt \<notin> used_pages ?m1" "used_pages m2 = insert pdpt (used_pages ?m1)" "page_aligned pdpt"
    "\<And>b j. page_aligned b \<Longrightarrow> j < 512 \<Longrightarrow>
      ld64 (ram m2) (ent b j) = (if b = pdpt then 0 else ld64 (ram ?m1) (ent b j))"
    "kernel_pml4 m2 = kernel_pml4 ?m1" "cr3 m2 = cr3 ?m1" "tlb m2 = tlb ?m1"
    using alloc_page_table [OF ok1] by blast
  let ?m2 = "m2\<lparr>ram := st64 (ram m2) (ent pml4 0) (pdpt OR table_flags)\<rparr>"
  have inst: "installs ?m1 ?m2 pdpt pml4 0"
    using al2 al1(6) used1 by (auto simp: installs_def ld64_st64_ent)
  have new: "\<forall>j < 512. ld64 (ram ?m2) (ent pdpt j) = 0"
    using al2(4, 6, 7) al1(6) used1 by (simp add: ld64_st64_ent)
  have v0: "valid_path [0]"
    by (simp add: valid_path_def)
  have root: "tab ?m1 [] = Some pml4" and te: "\<not> table_entry (ld64 (ram ?m1) (ent pml4 0))"
    using al1(6, 7) by (simp_all add: table_entry_def)
  have fresh: "\<forall>j < 512. fresh_entry [] (ld64 (ram ?m2) (ent pdpt j))"
    using new by simp
  have "pt_ok ?m2"
    by (rule installs_pt_ok [OF pt1 v0 root te inst fresh])
  moreover have "tab ?m2 [0] = Some pdpt"
    using installs_tab [OF pt1 v0 root te inst fresh v0] by simp
  moreover have "ld64 (ram ?m2) (ent (kernel_pml4 ?m2) i) = 0" if "0 < i" "i < 512" for i
    using that al1(6, 7) al2 used1 by (simp add: ld64_st64_ent)
  ultimately have "identity_upto ?m2 pdpt 0"
    using new by (simp add: identity_upto_def del: tbl.simps)
  moreover have "1004 \<le> free_frames ?m2"
    using al2(5) used1 by (simp add: free_frames_def card_frame_pool MAX_PAGES_def card_insert_if)
  ultimately obtain m3 where m3: "init_pdpt ?m2 pdpt 0 4 = Some m3" "identity_upto m3 pdpt 4"
    "kernel_pml4 m3 = pml4" "1000 \<le> free_frames m3"
    using init_pdpt_spec [of ?m2 pdpt 0 4] al2(8) by auto
  have "mm_init m = Some (write_cr3 m3 pml4)"
    unfolding mm_init_def using al1(1) al2(1) m3(1) by (simp add: Let_def)
  moreover have "identity_upto (write_cr3 m3 pml4) pdpt 4"
    using m3(2) by (simp add: identity_upto_def write_cr3_def del: tbl.simps)
  moreover have "free_frames (write_cr3 m3 pml4) = free_frames m3"
    by (simp add: free_frames_def write_cr3_def used_pages_def used_frames_def)
  ultimately show thesis
    using that m3(3, 4) by (simp add: write_cr3_def)
qed

lemma pml4_idx_0: "v < 2 ^ 39 \<Longrightarrow> pml4_idx v = 0"
  by (simp add: pml4_idx_def drop_bit_eq_div unat_div_distrib word_less_nat_alt unsigned_and_eq)

lemma identity_translate:
  assumes "identity_upto m pdpt 4" and "v < 2 ^ 32"
  shows "translate m v = Some (v, 7)"
proof -
  have small: "v < 2 ^ 39"
    using assms(2) by (rule order_less_trans) simp
  have "unat (drop_bit 30 v) < 4"
    using assms(2) by (simp add: drop_bit_eq_div unat_div_distrib word_less_nat_alt less_mult_imp_div_less)
  moreover have "pdpt_idx v \<le> unat (drop_bit 30 v)"
    unfolding pdpt_idx_def using word_and_le2 by (simp add: word_le_nat_alt)
  ultimately have "pdpt_idx v < 4" by simp
  then obtain pd where pd: "tab m [pdpt_idx v, 0] = Some pd"
    "\<forall>i < 512. ld64 (ram m) (ent pd i) = identity_entry (pdpt_idx v) i"
    using assms(1) unfolding identity_upto_def by blast
  have ok: "pt_ok m"
    using assms(1) by (simp add: identity_upto_def)
  show ?thesis
    unfolding walk_tab [OF ok] using pd leaf_huge_identity [OF small]
    by (simp add: pd_path_def pml4_idx_0 [OF small] idx_less identity_entry_flags del: tbl.simps)
qed

lemma identity_upto_ready:
  assumes "identity_upto m pdpt 4" "cr3 m = kernel_pml4 m" "tlb m = (\<lambda>_. None)"
  shows "pt_ok m" "tlb_ok m"
  using assms by (simp_all add: identity_upto_def tlb_ok_def)

lemma get_phys_mapping_tab:
  assumes "pt_ok m" and "tab m (pt_path v) = Some pt"
  shows "get_phys_mapping m v = (if present (ld64 (ram m) (ent pt (pt_idx v)))
    then pte_addr (ld64 (ram m) (ent pt (pt_idx v))) OR (v AND 0xFFF) else 0)"
  using get_pte_ptr_tab [OF assms(1)] assms(2) by (simp add: get_phys_mapping_def)

lemma pte_addr_flags:
  assumes "flags AND NOT 0xFFF = 0"
  shows "pte_addr ((phys AND NOT 0xFFF) OR flags) = phys AND NOT 0xFFF"
proof -
  have "\<not> bit flags n" if "12 \<le> n" for n
  proof -
    have "\<not> bit (flags AND NOT (mask 12)) n"
      using assms unfolding flag_masks by simp
    then show ?thesis
      using that by (auto simp: bit_simps dest: bit_imp_le_length)
  qed
  then show ?thesis
    unfolding pte_addr_def flag_masks by (intro bit_word_eqI) (auto simp: bit_simps)
qed

lemma tab_not_above_pool:
  assumes "pt_ok m" and "valid_path q" and "tab m q = Some a"
  shows "unat a < 0xA000000"
proof -
  obtain i where i: "i < MAX_PAGES" "a = frame_addr i"
    using pt_okD(2) [OF assms] by (auto simp: used_pages_def used_frames_def)
  then show ?thesis
    using unat_frame_addr [OF i(1)] by (simp add: MAX_PAGES_def)
qed

section \<open>Mapping always returns\<close>

lemma mm_ok_updates [simp]:
  "mm_ok (m\<lparr>ram := r\<rparr>) = mm_ok m" "mm_ok (m\<lparr>tlb := t\<rparr>) = mm_ok m" "mm_ok (m\<lparr>cr3 := c\<rparr>) = mm_ok m"
  "mm_ok (mm_flush_tlb m) = mm_ok m" "mm_ok (invlpg m v) = mm_ok m"
  by (simp_all add: mm_ok_def mm_flush_tlb_def write_cr3_def invlpg_def)

lemma alloc_page_total:
  assumes "mm_ok m"
  obtains m' p where "alloc_page m = Some (m', p)" "mm_ok m'"
  using pa.alloc_total [OF assms] by blast

lemma alloc_pages_total:
  assumes "mm_ok m" and "0 < count" and "unat count \<le> MAX_PAGES"
  obtains m' p where "alloc_pages m count = Some (m', p)" "mm_ok m'"
  using that alloc_pages_eq [OF assms] assms(1)
  by (cases "first_fit (page_bitmap m) (unat count)") (simp_all add: mm_ok_def)

lemma ensure_table_total:
  assumes "mm_ok m"
  obtains m' l where "ensure_table m ea = Some (m', l)" "mm_ok m'"
proof (rule alloc_page_total [OF assms])
  fix m' p assume "alloc_page m = Some (m', p)" "mm_ok m'"
  then show thesis
    using that assms by (cases "present (ld64 (ram m) ea)") (auto simp: ensure_table_def new_table_def)
qed

lemma ensure_pt_total:
  assumes "mm_ok m"
  obtains m' l where "ensure_pt m ea = Some (m', l)" "mm_ok m'"
proof (cases "huge (ld64 (ram m) ea)")
  case True
  obtain m' p where "alloc_page m = Some (m', p)" "mm_ok m'"
    by (rule alloc_page_total [OF assms])
  then show thesis
    using that True by (simp add: ensure_pt_def split_huge_def)
next
  case False
  then show thesis
    using that ensure_table_total [OF assms, of ea] by (auto simp: ensure_pt_def)
qed

lemma map_page_total:
  assumes "mm_ok m"
  obtains m' where "map_page m virt phys flags = Some m'" "mm_ok m'"
proof -
  obtain m1 l1 where 1: "ensure_table m (ent (kernel_pml4 m) (pml4_idx virt)) = Some (m1, l1)" "mm_ok m1"
    by (rule ensure_table_total [OF assms])
  define pdpt where "pdpt = pte_addr (ld64 (ram m1) (ent (kernel_pml4 m1) (pml4_idx virt)))"
  obtain m2 l2 where 2: "ensure_table m1 (ent pdpt (pdpt_idx virt)) = Some (m2, l2)" "mm_ok m2"
    by (rule ensure_table_total [OF 1(2)])
  define pd where "pd = pte_addr (ld64 (ram m2) (ent pdpt (pdpt_idx virt)))"
  obtain m3 l3 where 3: "ensure_pt m2 (ent pd (pd_idx virt)) = Some (m3, l3)" "mm_ok m3"
    by (rule ensure_pt_total [OF 2(2)])
  show thesis
    using that 1(1) 2(1) 3 by (auto simp: map_page_def Let_def simp flip: pdpt_def pd_def)
qed

lemma map_user_pages_total:
  assumes "mm_ok m"
  obtains m' where "map_user_pages m virt phys n = Some m'" "mm_ok m'"
proof -
  have "\<exists>m'. map_user_pages_loop m virt phys i n = Some m' \<and> mm_ok m'" for i
    using assms
  proof (induction n arbitrary: m i)
    case (Suc n)
    obtain m1 where "map_page m (virt + of_nat (i * PAGE_SIZE)) (phys + of_nat (i * PAGE_SIZE)) table_flags = Some m1" "mm_ok m1"
      by (rule map_page_total [OF Suc.prems])
    then show ?case
      using Suc.IH [of m1 "i + 1"] by simp
  qed simp
  then show thesis
    using that by (auto simp: map_user_pages_def)
qed

section \<open>Properties\<close>

text \<open>
  C4: after \<open>mm_init\<close> the page tables are well formed, the processor uses them, and every
  address below 4 GB translates to itself with all permissions.
\<close>

theorem mm_init_identity:
  "\<exists>m'. mm_init m = Some m' \<and> pt_ok m' \<and> tlb_ok m' \<and> (\<forall>v. v < 2 ^ 32 \<longrightarrow> walk (ram m') (cr3 m') v = Some (v, 7))"
proof -
  obtain m' pdpt where m': "mm_init m = Some m'" "identity_upto m' pdpt 4" "cr3 m' = kernel_pml4 m'"
    "tlb m' = (\<lambda>_. None)" "3 \<le> free_frames m'" "1000 \<le> free_frames m'"
    using mm_init_spec by blast
  then show ?thesis
    using identity_upto_ready [OF m'(2-4)] identity_translate [OF m'(2)] by auto
qed

theorem mm_init_identity_witness:
  "\<exists>m'. mm_init mm_empty = Some m' \<and> walk (ram m') (cr3 m') 0x2345678 = Some (0x2345678, 7)"
  using mm_init_identity [of mm_empty] by auto

text \<open>
  C1: \<open>map_page\<close>, with three free frames for the levels it may have to add, keeps the tables
  well formed and the translation cache free of stale entries.  It changes the translation of
  the requested page, to the given frame and flags, and of no other page: not even of the 511
  neighbours in a 2 MB page that it splits.  Of the allocated pages it writes only page
  tables (\<open>data_kept\<close>).
\<close>

theorem map_page_translation:
  assumes "pt_ok m" and "3 \<le> free_frames m"
  shows "\<exists>m'. map_page m virt phys flags = Some m' \<and> pt_ok m' \<and> (tlb_ok m \<longrightarrow> tlb_ok m') \<and>
    used_pages m \<subseteq> used_pages m' \<and> data_kept m m' \<and>
    (\<forall>v. translate m' v =
      (if vpn v = vpn virt then leaf ((phys AND NOT 0xFFF) OR flags) v else translate m v))"
  using map_page_spec [OF assms, of virt phys flags] by metis

theorem map_page_translation_witness:
  "\<exists>m m'. mm_init mm_empty = Some m \<and> map_page m 0x400000 0x5000000 7 = Some m' \<and>
     translate m' 0x400123 = Some (0x5000123, 7) \<and> translate m' 0x401000 = Some (0x401000, 7)"
proof -
  obtain m pdpt where m: "mm_init mm_empty = Some m" "identity_upto m pdpt 4" "cr3 m = kernel_pml4 m"
    "tlb m = (\<lambda>_. None)" "3 \<le> free_frames m" "1000 \<le> free_frames m"
    using mm_init_spec by blast
  obtain m' where m': "map_page m 0x400000 0x5000000 7 = Some m'"
    "\<forall>v. translate m' v =
      (if vpn v = vpn 0x400000 then leaf ((0x5000000 AND NOT 0xFFF) OR 7) v else translate m v)"
    using map_page_translation [OF identity_upto_ready(1) [OF m(2-4)] m(5), of "0x400000" "0x5000000" 7] by blast
  have "translate m 0x401000 = Some (0x401000, 7)"
    using identity_translate [OF m(2)] by simp
  moreover have "vpn 0x400123 = vpn 0x400000" "vpn 0x401000 \<noteq> vpn 0x400000"
    by (simp_all add: vpn_def mask_eq_exp_minus_1)
  moreover have "leaf ((0x5000000 AND NOT 0xFFF) OR 7) 0x400123 = Some (0x5000123, 7)"
    by (simp add: leaf_def present_def PAGE_PRESENT_def pte_addr_def)
  ultimately show ?thesis
    using m(1) m' by auto
qed

text \<open>
  C3: \<open>unmap_page\<close> removes the translation of exactly the requested page and returns its frame
  to the allocator, when the frame is not itself one of the page tables; a page that is not
  mapped, or lies in a 2 MB page, is left alone.  No stale translation survives in the cache.
\<close>

theorem unmap_page_translation:
  assumes ok: "pt_ok m" and nt: "\<forall>q. valid_path q \<longrightarrow> tab m q \<noteq> Some (get_phys_mapping m virt AND NOT 0xFFF)"
  shows "case get_pte_ptr m virt of
      None \<Rightarrow> unmap_page m virt = m
    | Some pte \<Rightarrow>
        if present (ld64 (ram m) pte) then
          pt_ok (unmap_page m virt) \<and> (tlb_ok m \<longrightarrow> tlb_ok (unmap_page m virt)) \<and>
          used_pages (unmap_page m virt) = used_pages m - {pte_addr (ld64 (ram m) pte)} \<and>
          (\<forall>v. translate (unmap_page m virt) v = (if vpn v = vpn virt then None else translate m v))
        else unmap_page m virt = m"
proof (cases "get_pte_ptr m virt")
  case None
  then show ?thesis by (simp add: unmap_page_def)
next
  case (Some pte)
  then obtain pt where pt: "tab m (pt_path virt) = Some pt" "pte = ent pt (pt_idx virt)"
    using get_pte_ptr_tab [OF ok] by auto
  show ?thesis
  proof (cases "present (ld64 (ram m) pte)")
    case True
    let ?p = "pte_addr (ld64 (ram m) pte)"
    let ?m1 = "free_page m ?p"
    have "get_phys_mapping m virt AND NOT 0xFFF = ?p"
      unfolding get_phys_mapping_def pte_addr_def flag_masks
      using Some True by (auto intro!: bit_word_eqI simp: bit_simps)
    then have "\<forall>q. valid_path q \<longrightarrow> tab m q \<noteq> Some ?p"
      using nt by simp
    then have ok1: "pt_ok ?m1"
      by (intro free_page_pt_ok [OF ok]) simp_all
    note fp = free_page_aligned [OF pt_okD(1) [OF ok] page_aligned_pte_addr]
    have pt1: "tab ?m1 (pt_path virt) = Some pt"
      using pt(1) by (simp add: fp(3))
    let ?m2 = "?m1\<lparr>ram := st64 (ram ?m1) (ent pt (pt_idx virt)) 0\<rparr>"
    have um: "unmap_page m virt = invlpg ?m2 virt"
      using Some True pt(2) by (simp add: unmap_page_def Let_def fp(3))
    have "pt_ok ?m2"
      by (rule leaf_store_ok [OF ok1 valid_paths(3) length_paths(2) pt1 idx_less(4)])
    moreover have "tlb_ok m \<longrightarrow> tlb_ok ?m1"
      by (simp add: tlb_ok_def fp(3))
    ultimately show ?thesis
      using Some True leaf_store_tlb_ok [OF ok1 _ pt1, of 0] leaf_store_walk [OF ok1 pt1, of 0]
      by (auto simp: um invlpg_def used_pages_def used_frames_def leaf_def fp(3)
        simp flip: fp(2) [unfolded used_pages_def used_frames_def])
  next
    case False
    then show ?thesis
      using Some by (simp add: unmap_page_def)
  qed
qed

theorem unmap_page_translation_witness:
  "\<exists>m m'. mm_init mm_empty = Some m \<and> map_page m 0x400000 0xC000000 7 = Some m' \<and>
     translate (unmap_page m' 0x400000) 0x400000 = None"
proof -
  obtain m pdpt where m: "mm_init mm_empty = Some m" "identity_upto m pdpt 4" "cr3 m = kernel_pml4 m"
    "tlb m = (\<lambda>_. None)" "3 \<le> free_frames m" "1000 \<le> free_frames m"
    using mm_init_spec by blast
  obtain m' pt where m': "map_page m 0x400000 0xC000000 7 = Some m'" "pt_ok m'"
    "tab m' (pt_path 0x400000) = Some pt"
    "ld64 (ram m') (ent pt (pt_idx 0x400000)) = (0xC000000 AND NOT 0xFFF) OR 7"
    using map_page_spec [OF identity_upto_ready(1) [OF m(2-4)] m(5), of "0x400000" "0xC000000" 7] by metis
  have e: "present ((0xC000000 AND NOT 0xFFF) OR 7)"
    by (simp add: present_def PAGE_PRESENT_def)
  then have "get_phys_mapping m' 0x400000 AND NOT 0xFFF = 0xC000000"
    using get_phys_mapping_tab [OF m'(2, 3)] m'(4) by (simp add: pte_addr_def)
  moreover have "tab m' q \<noteq> Some 0xC000000" if "valid_path q" for q
    using tab_not_above_pool [OF m'(2) that, of "0xC000000"] by auto
  ultimately have "\<forall>q. valid_path q \<longrightarrow> tab m' q \<noteq> Some (get_phys_mapping m' 0x400000 AND NOT 0xFFF)"
    by simp
  from unmap_page_translation [OF m'(2) this] show ?thesis
    using m(1) m' e get_pte_ptr_tab [OF m'(2)] by (auto simp del: tbl.simps)
qed

text \<open>
  What \<open>map_page\<close> maps, \<open>get_phys_mapping\<close> finds: after mapping a page present with flags
  in the low 12 bits, the lookup returns the frame with the page offset of the address.
\<close>

theorem map_page_get_roundtrip:
  assumes "pt_ok m" and "3 \<le> free_frames m" and "present flags" and "flags AND NOT 0xFFF = 0"
  shows "\<exists>m'. map_page m virt phys flags = Some m' \<and>
    get_phys_mapping m' virt = (phys AND NOT 0xFFF) OR (virt AND 0xFFF)"
proof -
  obtain m' pt where m': "map_page m virt phys flags = Some m'" "pt_ok m'"
    "tab m' (pt_path virt) = Some pt"
    "ld64 (ram m') (ent pt (pt_idx virt)) = (phys AND NOT 0xFFF) OR flags"
    using map_page_spec [OF assms(1, 2), of virt phys flags] by metis
  have "present ((phys AND NOT 0xFFF) OR flags)"
    using assms(3) by (simp add: present_iff bit_or_iff)
  then show ?thesis
    using m' get_phys_mapping_tab [OF m'(2, 3)] pte_addr_flags [OF assms(4), of phys] by simp
qed

text \<open>
  \<open>modify_page_flags\<close> gives a mapped 4 KB page the new flags and keeps its frame, keeps the
  translation of every other page, and invalidates the cached translation of the page.
\<close>

theorem modify_page_flags_translation:
  assumes ok: "pt_ok m" and pte: "get_pte_ptr m virt = Some pte" "present (ld64 (ram m) pte)"
  shows "pt_ok (modify_page_flags m virt flags) \<and>
    (tlb_ok m \<longrightarrow> tlb_ok (modify_page_flags m virt flags)) \<and>
    (\<forall>v. translate (modify_page_flags m virt flags) v =
      (if vpn v = vpn virt then leaf (pte_addr (ld64 (ram m) pte) OR flags) v else translate m v))"
proof -
  obtain pt where pt: "tab m (pt_path virt) = Some pt" "pte = ent pt (pt_idx virt)"
    using get_pte_ptr_tab [OF ok] pte(1) by auto
  let ?m1 = "m\<lparr>ram := st64 (ram m) (ent pt (pt_idx virt)) (pte_addr (ld64 (ram m) pte) OR flags)\<rparr>"
  have mf: "modify_page_flags m virt flags = invlpg ?m1 virt"
    using pte pt(2) by (simp add: modify_page_flags_def)
  have "pt_ok ?m1"
    by (rule leaf_store_ok [OF ok valid_paths(3) length_paths(2) pt(1) idx_less(4)])
  moreover have "tlb_ok m \<longrightarrow> tlb_ok (invlpg ?m1 virt)"
    using leaf_store_tlb_ok [OF ok _ pt(1)] by blast
  ultimately show ?thesis
    using leaf_store_walk [OF ok pt(1)] by (simp add: mf) (simp add: invlpg_def)
qed

end
