(* ===== verification/Vmm.thy ===== *)
theory Vmm
  imports Paging
begin

text \<open>
  The virtual memory areas of \<^verbatim>\<open>kernel/mm/vmm.c\<close>: a table of 32 areas per process, the
  operations behind \<open>mmap\<close>, \<open>munmap\<close> and \<open>mprotect\<close>, and the page-fault handler that backs an
  area with frames on demand.  Every caller passes the address of a slot of the process
  table, so the \<open>proc\<close> argument is the part of the slot the operation works on; a returned
  \<open>vm_area_t *\<close> is the index of the area, \<open>None\<close> for \<open>NULL\<close>.
\<close>

section \<open>State\<close>

record vm_area =
  vm_start :: u64
  vm_end :: u64
  vm_prot :: u32
  vm_flags :: u32
  vm_used :: bool

definition MAX_PROCESS_VMAS :: nat where
  "MAX_PROCESS_VMAS = 32"

definition VMA_PROT_READ :: u32 where "VMA_PROT_READ = 1"
definition VMA_PROT_WRITE :: u32 where "VMA_PROT_WRITE = 2"
definition VMA_PROT_EXEC :: u32 where "VMA_PROT_EXEC = 4"
definition VMA_MAP_PRIVATE :: u32 where "VMA_MAP_PRIVATE = 2"
definition VMA_MAP_ANONYMOUS :: u32 where "VMA_MAP_ANONYMOUS = 0x20"

definition MMAP_BASE_START :: u64 where
  "MMAP_BASE_START = 0x700000000000"

definition vma_zero :: vm_area where
  "vma_zero = \<lparr>vm_start = 0, vm_end = 0, vm_prot = 0, vm_flags = 0, vm_used = False\<rparr>"

section \<open>Operations\<close>

text \<open>\<open>vmm_init_process\<close>: the cleared table and the process's \<open>mmap_curr_base\<close>.\<close>

definition vmm_init_process :: "int \<Rightarrow> vm_area list \<times> u64" where
  "vmm_init_process pid =
     (replicate MAX_PROCESS_VMAS vma_zero, MMAP_BASE_START + of_int pid * 0x100000000)"

text \<open>The three tests of the first loop of \<open>vma_create\<close>, in their order.\<close>

definition vma_same :: "u32 \<Rightarrow> u32 \<Rightarrow> vm_area \<Rightarrow> bool" where
  "vma_same prot flags v \<longleftrightarrow> vm_used v \<and> vm_prot v = prot \<and> vm_flags v = flags"

definition vma_inside :: "u64 \<Rightarrow> u64 \<Rightarrow> vm_area \<Rightarrow> bool" where
  "vma_inside start end v \<longleftrightarrow> vm_start v \<le> start \<and> end \<le> vm_end v"

definition vma_merge :: "u64 \<Rightarrow> u64 \<Rightarrow> vm_area \<Rightarrow> vm_area" where
  "vma_merge start end v =
     (if vma_inside start end v then v
      else if vm_end v = start then v\<lparr>vm_end := end\<rparr>
      else v\<lparr>vm_start := start\<rparr>)"

definition vma_create :: "vm_area list \<Rightarrow> u64 \<Rightarrow> u64 \<Rightarrow> u32 \<Rightarrow> u32 \<Rightarrow> vm_area list \<times> nat option" where
  "vma_create vs start end prot flags =
     (if end \<le> start then (vs, None)
      else
        (case scan (\<lambda>v. vma_same prot flags v \<and>
               (vma_inside start end v \<or> vm_end v = start \<or> vm_start v = end)) vs of
          Some i \<Rightarrow> (vs[i := vma_merge start end (vs ! i)], Some i)
        | None \<Rightarrow>
            (case scan (\<lambda>v. \<not> vm_used v) vs of
               Some i \<Rightarrow>
                 (vs[i := \<lparr>vm_start = start, vm_end = end, vm_prot = prot, vm_flags = flags, vm_used = True\<rparr>],
                  Some i)
             | None \<Rightarrow> (vs, None))))"

definition vma_covers :: "u64 \<Rightarrow> vm_area \<Rightarrow> bool" where
  "vma_covers addr v \<longleftrightarrow> vm_used v \<and> vm_start v \<le> addr \<and> addr < vm_end v"

definition vma_find :: "vm_area list \<Rightarrow> u64 \<Rightarrow> nat option" where
  "vma_find vs addr = scan (vma_covers addr) vs"

definition vma_overlaps :: "u64 \<Rightarrow> u64 \<Rightarrow> vm_area \<Rightarrow> bool" where
  "vma_overlaps start end v \<longleftrightarrow> start < vm_end v \<and> vm_start v < end"

text \<open>One round of the loop of \<open>vma_remove\<close>: the table, then the pages.\<close>

definition vma_remove_at :: "u64 \<Rightarrow> u64 \<Rightarrow> nat \<Rightarrow> vm_area list \<Rightarrow> vm_area list" where
  "vma_remove_at start end i vs =
     (let v = vs ! i in
      if \<not> vm_used v \<or> \<not> vma_overlaps start end v then vs
      else if start \<le> vm_start v \<and> vm_end v \<le> end then vs[i := v\<lparr>vm_used := False\<rparr>]
      else if start \<le> vm_start v \<and> end < vm_end v then vs[i := v\<lparr>vm_start := end\<rparr>]
      else if vm_start v < start \<and> vm_end v \<le> end then vs[i := v\<lparr>vm_end := start\<rparr>]
      else fst (vma_create (vs[i := v\<lparr>vm_end := start\<rparr>]) end (vm_end v) (vm_prot v) (vm_flags v)))"

definition vma_unmap_at :: "u64 \<Rightarrow> u64 \<Rightarrow> nat \<Rightarrow> vm_area list \<Rightarrow> mm \<Rightarrow> mm" where
  "vma_unmap_at start end i vs m =
     (let v = vs ! i in
      if \<not> vm_used v \<or> \<not> vma_overlaps start end v then m
      else
        let unmap_start = (if vm_start v < start then start else vm_start v);
            unmap_end = (if end < vm_end v then end else vm_end v)
        in unmap_user_pages m unmap_start (unat ((unmap_end - unmap_start) div of_nat PAGE_SIZE)))"

fun vma_remove_loop :: "u64 \<Rightarrow> u64 \<Rightarrow> nat \<Rightarrow> nat \<Rightarrow> vm_area list \<times> mm \<Rightarrow> vm_area list \<times> mm" where
  "vma_remove_loop start end i 0 s = s"
| "vma_remove_loop start end i (Suc n) (vs, m) =
     vma_remove_loop start end (i + 1) n (vma_remove_at start end i vs, vma_unmap_at start end i vs m)"

definition vma_remove :: "vm_area list \<times> mm \<Rightarrow> u64 \<Rightarrow> u64 \<Rightarrow> (vm_area list \<times> mm) \<times> int" where
  "vma_remove s start end =
     (if end \<le> start then (s, - 22)
      else (vma_remove_loop start end 0 MAX_PROCESS_VMAS s, 0))"

definition vma_protect_at :: "u64 \<Rightarrow> u64 \<Rightarrow> u32 \<Rightarrow> nat \<Rightarrow> vm_area list \<Rightarrow> vm_area list" where
  "vma_protect_at start end new_prot i vs =
     (let v = vs ! i in
      if \<not> vm_used v \<or> \<not> vma_overlaps start end v then vs
      else if start \<le> vm_start v \<and> vm_end v \<le> end then vs[i := v\<lparr>vm_prot := new_prot\<rparr>]
      else if start \<le> vm_start v \<and> end < vm_end v then
        fst (vma_create (vs[i := v\<lparr>vm_end := end, vm_prot := new_prot\<rparr>]) end (vm_end v) (vm_prot v) (vm_flags v))
      else if vm_start v < start \<and> vm_end v \<le> end then
        fst (vma_create (vs[i := v\<lparr>vm_end := start\<rparr>]) start end new_prot (vm_flags v))
      else
        fst (vma_create
          (fst (vma_create (vs[i := v\<lparr>vm_end := start\<rparr>]) start end new_prot (vm_flags v)))
          end (vm_end v) (vm_prot v) (vm_flags v)))"

text \<open>The flags the page tables get for a protection, and the loop over the pages of a range.\<close>

definition prot_pte_flags :: "u32 \<Rightarrow> u64" where
  "prot_pte_flags prot =
     (if prot AND VMA_PROT_WRITE \<noteq> 0 then PAGE_PRESENT OR PAGE_USER OR PAGE_WRITABLE
      else PAGE_PRESENT OR PAGE_USER)"

partial_function (option) protect_pages :: "u64 \<Rightarrow> u64 \<Rightarrow> u64 \<Rightarrow> mm \<Rightarrow> mm option" where
  "protect_pages addr prot_end pte_flags m =
     (if addr < prot_end then
        protect_pages (addr + of_nat PAGE_SIZE) prot_end pte_flags
          (case get_pte_ptr m addr of
             None \<Rightarrow> m
           | Some pte \<Rightarrow> if present (ld64 (ram m) pte) then modify_page_flags m addr pte_flags else m)
      else Some m)"

definition vma_protect_pages_at :: "u64 \<Rightarrow> u64 \<Rightarrow> u32 \<Rightarrow> nat \<Rightarrow> vm_area list \<Rightarrow> mm \<Rightarrow> mm option" where
  "vma_protect_pages_at start end new_prot i vs m =
     (let v = vs ! i in
      if \<not> vm_used v \<or> \<not> vma_overlaps start end v then Some m
      else
        let prot_start = (if vm_start v < start then start else vm_start v);
            prot_end = (if end < vm_end v then end else vm_end v)
        in protect_pages prot_start prot_end (prot_pte_flags new_prot) m)"

fun vma_protect_loop :: "u64 \<Rightarrow> u64 \<Rightarrow> u32 \<Rightarrow> nat \<Rightarrow> nat \<Rightarrow> vm_area list \<times> mm \<Rightarrow> (vm_area list \<times> mm) option" where
  "vma_protect_loop start end new_prot i 0 s = Some s"
| "vma_protect_loop start end new_prot i (Suc n) (vs, m) =
     (case vma_protect_pages_at start end new_prot i vs m of
        None \<Rightarrow> None
      | Some m' \<Rightarrow> vma_protect_loop start end new_prot (i + 1) n (vma_protect_at start end new_prot i vs, m'))"

definition vma_protect :: "vm_area list \<times> mm \<Rightarrow> u64 \<Rightarrow> u64 \<Rightarrow> u32 \<Rightarrow> ((vm_area list \<times> mm) \<times> int) option" where
  "vma_protect s start end new_prot =
     (if end \<le> start then Some (s, - 22)
      else map_option (\<lambda>s. (s, 0)) (vma_protect_loop start end new_prot 0 MAX_PROCESS_VMAS s))"

text \<open>\<open>vmm_find_free_area\<close>: the candidate address and the advanced \<open>mmap_curr_base\<close>.\<close>

definition page_round_up :: "u64 \<Rightarrow> u64" where
  "page_round_up x = (x + of_nat PAGE_SIZE - 1) AND NOT 0xFFF"

definition vmm_find_free_area :: "u64 \<Rightarrow> u64 \<Rightarrow> u64 \<times> u64" where
  "vmm_find_free_area mmap_curr_base len =
     (let aligned_len = page_round_up len; candidate = page_round_up mmap_curr_base
      in (candidate, candidate + aligned_len))"

text \<open>
  The page-fault handler.  \<open>active\<close> and \<open>vs\<close> belong to the current process; the result is
  the machine and the code the handler returns.
\<close>

definition vmm_handle_page_fault :: "bool \<Rightarrow> vm_area list \<Rightarrow> mm \<Rightarrow> u64 \<Rightarrow> u64 \<Rightarrow> (mm \<times> int) option" where
  "vmm_handle_page_fault active vs m fault_addr error_code =
     (if \<not> active then Some (m, - 1)
      else (case vma_find vs fault_addr of
          None \<Rightarrow> Some (m, - 1)
        | Some i \<Rightarrow>
            let vma = vs ! i in
            if error_code AND 1 \<noteq> 0 \<and> error_code AND 2 \<noteq> 0 \<and> vm_prot vma AND VMA_PROT_WRITE = 0
            then Some (m, - 1)
            else (case alloc_page m of
                None \<Rightarrow> None
              | Some (m, phys_frame) \<Rightarrow>
                  if phys_frame = 0 then Some (m, - 1)
                  else
                    let m = (if vm_flags vma AND VMA_MAP_ANONYMOUS \<noteq> 0
                             then m\<lparr>ram := kmemset (ram m) phys_frame 0 PAGE_SIZE\<rparr> else m)
                    in map_option (\<lambda>m. (m, 0))
                         (map_page m (fault_addr AND NOT 0xFFF) phys_frame (prot_pte_flags (vm_prot vma))))))"

section \<open>The address space as a map\<close>

text \<open>
  What a table means: each address has at most one protection and set of flags.  The
  invariant is that the areas in use are not empty and do not overlap.
\<close>

definition vmas_ok :: "vm_area list \<Rightarrow> bool" where
  "vmas_ok vs \<longleftrightarrow> length vs = MAX_PROCESS_VMAS \<and>
     (\<forall>i < length vs. vm_used (vs ! i) \<longrightarrow> vm_start (vs ! i) < vm_end (vs ! i)) \<and>
     (\<forall>i < length vs. \<forall>j < length vs. i \<noteq> j \<and> vm_used (vs ! i) \<and> vm_used (vs ! j) \<longrightarrow>
        vm_end (vs ! i) \<le> vm_start (vs ! j) \<or> vm_end (vs ! j) \<le> vm_start (vs ! i))"

definition vview :: "vm_area list \<Rightarrow> u64 \<Rightarrow> (u32 \<times> u32) option" where
  "vview vs a = map_option (\<lambda>i. (vm_prot (vs ! i), vm_flags (vs ! i))) (vma_find vs a)"

lemma covers_unique:
  assumes "vmas_ok vs" "i < length vs" "j < length vs" "vma_covers a (vs ! i)" "vma_covers a (vs ! j)"
  shows "i = j"
proof (rule ccontr)
  assume "i \<noteq> j"
  then have "vm_end (vs ! i) \<le> vm_start (vs ! j) \<or> vm_end (vs ! j) \<le> vm_start (vs ! i)"
    using assms unfolding vmas_ok_def vma_covers_def by blast
  then show False
    using assms(4, 5) by (auto simp: vma_covers_def)
qed

lemma vview_Some_iff:
  assumes "vmas_ok vs"
  shows "vview vs a = Some pf \<longleftrightarrow>
    (\<exists>i < length vs. vma_covers a (vs ! i) \<and> pf = (vm_prot (vs ! i), vm_flags (vs ! i)))"
proof
  assume "vview vs a = Some pf"
  then show "\<exists>i < length vs. vma_covers a (vs ! i) \<and> pf = (vm_prot (vs ! i), vm_flags (vs ! i))"
    by (auto simp: vview_def vma_find_def dest: scan_SomeD)
next
  assume "\<exists>i < length vs. vma_covers a (vs ! i) \<and> pf = (vm_prot (vs ! i), vm_flags (vs ! i))"
  then obtain i where i: "i < length vs" "vma_covers a (vs ! i)" "pf = (vm_prot (vs ! i), vm_flags (vs ! i))"
    by blast
  then obtain j where j: "scan (vma_covers a) vs = Some j"
    using scan_ex [of i vs "vma_covers a"] by blast
  then have "j = i"
    using covers_unique [OF assms] i scan_SomeD [OF j] by blast
  then show "vview vs a = Some pf"
    using i j by (simp add: vview_def vma_find_def)
qed

lemma vview_None_iff: "vview vs a = None \<longleftrightarrow> (\<forall>i < length vs. \<not> vma_covers a (vs ! i))"
  by (auto simp: vview_def vma_find_def scan_None_iff all_set_conv_all_nth)

lemma vview_eqI:
  assumes "vmas_ok vs" "vmas_ok vs'"
    and "\<And>p f. (\<exists>i < length vs. vma_covers a (vs ! i) \<and> vm_prot (vs ! i) = p \<and> vm_flags (vs ! i) = f) \<longleftrightarrow>
      (\<exists>i < length vs'. vma_covers b (vs' ! i) \<and> vm_prot (vs' ! i) = p \<and> vm_flags (vs' ! i) = f)"
  shows "vview vs a = vview vs' b"
proof -
  have "vview vs a = Some pf \<longleftrightarrow> vview vs' b = Some pf" for pf
    unfolding vview_Some_iff [OF assms(1)] vview_Some_iff [OF assms(2)]
    using assms(3) [of "fst pf" "snd pf"] by (cases pf) auto
  then show ?thesis
    by (metis option.exhaust)
qed

subsection \<open>Replacing one area\<close>

text \<open>The effect of writing slot \<open>i\<close>: the areas of the other slots keep their addresses.\<close>

definition clear_of :: "vm_area list \<Rightarrow> nat \<Rightarrow> u64 \<Rightarrow> u64 \<Rightarrow> bool" where
  "clear_of vs i start end \<longleftrightarrow> (\<forall>j < length vs. j \<noteq> i \<and> vm_used (vs ! j) \<longrightarrow>
     vm_end (vs ! j) \<le> start \<or> end \<le> vm_start (vs ! j))"

lemma vmas_ok_update:
  assumes "vmas_ok vs" and "i < length vs"
    and "vm_used v \<Longrightarrow> vm_start v < vm_end v \<and> clear_of vs i (vm_start v) (vm_end v)"
  shows "vmas_ok (vs[i := v])"
  unfolding vmas_ok_def
proof (intro conjI allI impI; (elim conjE)?)
  show "length (vs[i := v]) = MAX_PROCESS_VMAS"
    using assms(1) by (simp add: vmas_ok_def)
  show "vm_start (vs[i := v] ! k) < vm_end (vs[i := v] ! k)"
    if "k < length (vs[i := v])" "vm_used (vs[i := v] ! k)" for k
    using assms that by (cases "k = i") (auto simp: vmas_ok_def)
  show "vm_end (vs[i := v] ! j) \<le> vm_start (vs[i := v] ! k) \<or> vm_end (vs[i := v] ! k) \<le> vm_start (vs[i := v] ! j)"
    if "j < length (vs[i := v])" "k < length (vs[i := v])" "j \<noteq> k"
      "vm_used (vs[i := v] ! j)" "vm_used (vs[i := v] ! k)" for j k
  proof -
    consider "j = i" "k \<noteq> i" | "k = i" "j \<noteq> i" | "j \<noteq> i" "k \<noteq> i"
      using \<open>j \<noteq> k\<close> by blast
    then show ?thesis
    proof cases
      case 1
      then show ?thesis
        using assms that by (auto simp: clear_of_def)
    next
      case 2
      then show ?thesis
        using assms that by (auto simp: clear_of_def)
    next
      case 3
      then show ?thesis
        using assms(1) that by (auto simp: vmas_ok_def)
    qed
  qed
qed

lemma vview_update:
  assumes "vmas_ok vs" and "i < length vs" and "vmas_ok (vs[i := v])"
  shows "vview (vs[i := v]) a =
    (if vma_covers a v then Some (vm_prot v, vm_flags v)
     else if vma_covers a (vs ! i) then None else vview vs a)"
proof (cases "vma_covers a v")
  case True
  then show ?thesis
    using assms by (auto simp: vview_Some_iff intro!: exI [of _ i])
next
  case False
  show ?thesis
  proof (cases "vma_covers a (vs ! i)")
    case True
    have "\<not> vma_covers a (vs[i := v] ! k)" if "k < length vs" for k
      using False covers_unique [OF assms(1) assms(2) that True] that assms(2)
      by (cases "k = i") auto
    then show ?thesis
      using False True by (simp add: vview_None_iff)
  next
    case no: False
    have "vview (vs[i := v]) a = vview vs a"
      using False no assms by (intro vview_eqI) (auto simp: nth_list_update)
    then show ?thesis
      using False no by simp
  qed
qed

lemma clear_of_outside:
  assumes "clear_of vs i start end" "start \<le> a" "a < end" "j < length vs" "vma_covers a (vs ! j)"
  shows "j = i"
  using assms by (fastforce simp: clear_of_def vma_covers_def)

subsection \<open>Creating an area\<close>

abbreviation all_clear :: "vm_area list \<Rightarrow> u64 \<Rightarrow> u64 \<Rightarrow> bool" where
  "all_clear vs start end \<equiv> clear_of vs (length vs) start end"

lemma all_clearD:
  "all_clear vs start end \<Longrightarrow> j < length vs \<Longrightarrow> vm_used (vs ! j) \<Longrightarrow>
    vm_end (vs ! j) \<le> start \<or> end \<le> vm_start (vs ! j)"
  by (auto simp: clear_of_def)

lemma vmas_okD:
  assumes "vmas_ok vs" "i < length vs" "vm_used (vs ! i)"
  shows "vm_start (vs ! i) < vm_end (vs ! i)"
    "j < length vs \<Longrightarrow> i \<noteq> j \<Longrightarrow> vm_used (vs ! j) \<Longrightarrow>
      vm_end (vs ! i) \<le> vm_start (vs ! j) \<or> vm_end (vs ! j) \<le> vm_start (vs ! i)"
  using assms by (auto simp: vmas_ok_def)

text \<open>Growing area \<open>i\<close> over an adjacent clear range.\<close>

lemma vma_grow:
  assumes ok: "vmas_ok vs" and i: "i < length vs" "vm_used (vs ! i)" and "start < end"
    and clear: "all_clear vs start end"
    and v: "v = (vs ! i)\<lparr>vm_end := end\<rparr> \<and> vm_end (vs ! i) = start \<or>
            v = (vs ! i)\<lparr>vm_start := start\<rparr> \<and> vm_start (vs ! i) = end"
  shows "vmas_ok (vs[i := v])"
    and "vview (vs[i := v]) a =
      (if start \<le> a \<and> a < end then Some (vm_prot (vs ! i), vm_flags (vs ! i)) else vview vs a)"
proof -
  note ne = vmas_okD(1) [OF ok i]
  have cl: "clear_of vs i (vm_start v) (vm_end v)"
    unfolding clear_of_def
  proof (intro allI impI; elim conjE)
    fix j assume j: "j < length vs" "j \<noteq> i" "vm_used (vs ! j)"
    have "vm_start v = vm_start (vs ! i) \<and> vm_end v = end \<and> vm_end (vs ! i) = start \<or>
        vm_start v = start \<and> vm_end v = vm_end (vs ! i) \<and> vm_start (vs ! i) = end"
      using v by auto
    then show "vm_end (vs ! j) \<le> vm_start v \<or> vm_end v \<le> vm_start (vs ! j)"
      using vmas_okD(1) [OF ok j(1, 3)] vmas_okD(2) [OF ok i j(1) j(2) [symmetric] j(3)]
        all_clearD [OF clear j(1, 3)]
      unfolding word_le_nat_alt word_less_nat_alt word_unat_eq_iff by arith
  qed
  have vne: "vm_start v < vm_end v" and vu: "vm_used v"
    using v ne \<open>start < end\<close> i(2) by auto
  show ok': "vmas_ok (vs[i := v])"
    using cl vne by (intro vmas_ok_update [OF ok i(1)]) auto
  have cov: "vma_covers a v \<longleftrightarrow> start \<le> a \<and> a < end \<or> vma_covers a (vs ! i)"
    using v ne \<open>start < end\<close> i(2) by (auto simp: vma_covers_def)
  have pf: "vm_prot v = vm_prot (vs ! i)" "vm_flags v = vm_flags (vs ! i)"
    using v by auto
  have old: "vview vs a = Some (vm_prot (vs ! i), vm_flags (vs ! i))" if "vma_covers a (vs ! i)"
    using that i(1) by (auto simp: vview_Some_iff [OF ok])
  show "vview (vs[i := v]) a =
      (if start \<le> a \<and> a < end then Some (vm_prot (vs ! i), vm_flags (vs ! i)) else vview vs a)"
    unfolding vview_update [OF ok i(1) ok'] cov pf using old by auto
qed

lemma vma_create_spec:
  assumes ok: "vmas_ok vs" and "start < end" and clear: "all_clear vs start end"
  shows "(\<exists>vs' i. vma_create vs start end prot flags = (vs', Some i) \<and> vmas_ok vs' \<and>
      (\<forall>a. vview vs' a = (if start \<le> a \<and> a < end then Some (prot, flags) else vview vs a)) \<and>
      length vs' = length vs \<and>
      (\<forall>j < length vs. \<forall>a. vma_covers a (vs ! j) \<longrightarrow> vma_covers a (vs' ! j))) \<or>
    vma_create vs start end prot flags = (vs, None) \<and> (\<forall>i < length vs. vm_used (vs ! i))"
proof (cases "scan (\<lambda>v. vma_same prot flags v \<and>
      (vma_inside start end v \<or> vm_end v = start \<or> vm_start v = end)) vs")
  case (Some i)
  note s = scan_SomeD [OF Some]
  have used: "vm_used (vs ! i)" and pf: "vm_prot (vs ! i) = prot" "vm_flags (vs ! i) = flags"
    using s(2) by (auto simp: vma_same_def)
  have notin: "\<not> vma_inside start end (vs ! i)"
    using all_clearD [OF clear s(1) used] vmas_okD(1) [OF ok s(1) used] \<open>start < end\<close>
    by (auto simp: vma_inside_def)
  let ?v = "vma_merge start end (vs ! i)"
  have v: "?v = (vs ! i)\<lparr>vm_end := end\<rparr> \<and> vm_end (vs ! i) = start \<or>
      ?v = (vs ! i)\<lparr>vm_start := start\<rparr> \<and> vm_start (vs ! i) = end"
    using notin s(2) by (auto simp: vma_merge_def)
  have keep: "vma_covers a (vs ! j) \<longrightarrow> vma_covers a (vs[i := ?v] ! j)" if "j < length vs" for j a
    using v that \<open>start < end\<close> by (cases "j = i") (auto simp: vma_covers_def)
  show ?thesis
    using vma_grow [OF ok s(1) used \<open>start < end\<close> clear v] Some \<open>start < end\<close> pf keep
    by (auto simp: vma_create_def not_le)
next
  case None
  show ?thesis
  proof (cases "scan (\<lambda>v. \<not> vm_used v) vs")
    case (Some i)
    note s = scan_SomeD [OF Some]
    let ?v = "\<lparr>vm_start = start, vm_end = end, vm_prot = prot, vm_flags = flags, vm_used = True\<rparr>"
    have ok': "vmas_ok (vs[i := ?v])"
      using clear \<open>start < end\<close> by (intro vmas_ok_update [OF ok s(1)]) (auto simp: clear_of_def)
    have "vview (vs[i := ?v]) a = (if start \<le> a \<and> a < end then Some (prot, flags) else vview vs a)" for a
      unfolding vview_update [OF ok s(1) ok'] using s(2) by (auto simp: vma_covers_def)
    moreover have "vma_covers a (vs ! j) \<longrightarrow> vma_covers a (vs[i := ?v] ! j)" if "j < length vs" for j a
      using s(2) that by (cases "j = i") (auto simp: vma_covers_def)
    ultimately show ?thesis
      using None Some ok' \<open>start < end\<close> by (auto simp: vma_create_def not_le)
  next
    case no: None
    then have "\<forall>i < length vs. vm_used (vs ! i)"
      by (auto dest: scan_None_nth)
    then show ?thesis
      using None no \<open>start < end\<close> by (simp add: vma_create_def not_le)
  qed
qed

subsection \<open>Removing a range\<close>

text \<open>A free slot, or nothing left that would have to be split.\<close>

definition can_split :: "vm_area list \<Rightarrow> u64 \<Rightarrow> bool" where
  "can_split vs start \<longleftrightarrow> (\<exists>k < length vs. \<not> vm_used (vs ! k)) \<or> vview vs start = None"

lemma vma_shrink:
  assumes ok: "vmas_ok vs" and i: "i < length vs"
    and v: "vm_used v \<longrightarrow> vm_used (vs ! i) \<and> vm_start v < vm_end v \<and>
        vm_start (vs ! i) \<le> vm_start v \<and> vm_end v \<le> vm_end (vs ! i)"
    and pf: "vm_prot v = vm_prot (vs ! i)" "vm_flags v = vm_flags (vs ! i)"
  shows "vmas_ok (vs[i := v])"
    and "vview (vs[i := v]) a = (if vma_covers a (vs ! i) \<and> \<not> vma_covers a v then None else vview vs a)"
proof -
  have "clear_of vs i (vm_start v) (vm_end v)" if "vm_used v"
    unfolding clear_of_def
  proof (intro allI impI; elim conjE)
    fix j assume j: "j < length vs" "j \<noteq> i" "vm_used (vs ! j)"
    then show "vm_end (vs ! j) \<le> vm_start v \<or> vm_end v \<le> vm_start (vs ! j)"
      using vmas_okD(2) [OF ok i _ j(1) j(2) [symmetric]] v that by (auto intro: order_trans)
  qed
  then show ok': "vmas_ok (vs[i := v])"
    using v by (intro vmas_ok_update [OF ok i]) auto
  have "vma_covers a (vs ! i)" if "vma_covers a v"
    using that v by (auto simp: vma_covers_def)
  moreover have "vview vs a = Some (vm_prot (vs ! i), vm_flags (vs ! i))" if "vma_covers a (vs ! i)"
    using that i by (auto simp: vview_Some_iff [OF ok])
  ultimately show "vview (vs[i := v]) a = (if vma_covers a (vs ! i) \<and> \<not> vma_covers a v then None else vview vs a)"
    unfolding vview_update [OF ok i ok'] by (auto simp: pf)
qed

lemma vma_split:
  assumes ok: "vmas_ok vs" and i: "i < length vs" "vm_used (vs ! i)"
    and "vm_start (vs ! i) < start" "start < end" "end < vm_end (vs ! i)"
    and free: "k < length vs" "\<not> vm_used (vs ! k)"
  shows "\<exists>vs' j. vma_create (vs[i := (vs ! i)\<lparr>vm_end := start\<rparr>]) end (vm_end (vs ! i)) (vm_prot (vs ! i)) (vm_flags (vs ! i)) =
      (vs', Some j) \<and> vmas_ok vs' \<and> length vs' = length vs \<and>
    (\<forall>a. vview vs' a = (if start \<le> a \<and> a < end then None else vview vs a)) \<and>
    (\<forall>j < length vs. \<forall>a. j \<noteq> i \<longrightarrow> vma_covers a (vs ! j) \<longrightarrow> vma_covers a (vs' ! j))"
proof -
  let ?v = "(vs ! i)\<lparr>vm_end := start\<rparr>"
  let ?vs = "vs[i := ?v]"
  have v: "vm_used ?v \<longrightarrow> vm_used (vs ! i) \<and> vm_start ?v < vm_end ?v \<and>
        vm_start (vs ! i) \<le> vm_start ?v \<and> vm_end ?v \<le> vm_end (vs ! i)"
    using assms(4-6) i(2) by simp
  have pf: "vm_prot ?v = vm_prot (vs ! i)" "vm_flags ?v = vm_flags (vs ! i)"
    by simp_all
  note sh = vma_shrink [OF ok i(1) v pf]
  have ok1: "vmas_ok ?vs"
    by (rule sh)
  have clear: "all_clear ?vs end (vm_end (vs ! i))"
    unfolding clear_of_def
  proof (intro allI impI; elim conjE)
    fix j assume j: "j < length ?vs" "vm_used (?vs ! j)"
    show "vm_end (?vs ! j) \<le> end \<or> vm_end (vs ! i) \<le> vm_start (?vs ! j)"
    proof (cases "j = i")
      case True
      then show ?thesis
        using i(1) assms(5) by (simp add: less_imp_le)
    next
      case False
      then have "vm_end (vs ! i) \<le> vm_start (vs ! j) \<or> vm_end (vs ! j) \<le> vm_start (vs ! i)"
        using vmas_okD(2) [OF ok i] j by auto
      then show ?thesis
        using False assms(4-6) by auto
    qed
  qed
  have "\<not> vm_used (?vs ! k)" "k < length ?vs"
    using free i by (cases "k = i", auto)+
  then obtain vs' j where vs': "vma_create ?vs end (vm_end (vs ! i)) (vm_prot (vs ! i)) (vm_flags (vs ! i)) = (vs', Some j)"
    "vmas_ok vs'" "length vs' = length ?vs"
    "\<forall>a. vview vs' a = (if end \<le> a \<and> a < vm_end (vs ! i) then Some (vm_prot (vs ! i), vm_flags (vs ! i)) else vview ?vs a)"
    "\<forall>j < length ?vs. \<forall>a. vma_covers a (?vs ! j) \<longrightarrow> vma_covers a (vs' ! j)"
    using vma_create_spec [OF ok1 assms(6) clear, of "vm_prot (vs ! i)" "vm_flags (vs ! i)"] by blast
  have view1: "vview ?vs a = (if start \<le> a \<and> a < vm_end (vs ! i) then None else vview vs a)" for a
    unfolding sh(2) using i(2) assms(4-6) by (auto simp: vma_covers_def)
  have old: "vview vs a = Some (vm_prot (vs ! i), vm_flags (vs ! i))" if "end \<le> a" "a < vm_end (vs ! i)" for a
    using that i assms(4-6) by (auto simp: vview_Some_iff [OF ok] vma_covers_def intro!: exI [of _ i])
  have "vview vs' a = (if start \<le> a \<and> a < end then None else vview vs a)" for a
    using vs'(4) view1 old assms(5, 6) by auto
  moreover have "vma_covers a (vs' ! j)" if "j < length vs" "j \<noteq> i" "vma_covers a (vs ! j)" for j a
    using vs'(5) that by simp
  ultimately show ?thesis
    using vs'(1-3) by auto
qed

text \<open>One round of \<open>vma_remove\<close>: area \<open>i\<close> loses the range and every other address is kept.\<close>

lemma vma_remove_at_spec:
  assumes ok: "vmas_ok vs" and i: "i < length vs" and "start < end" and split: "can_split vs start"
  defines "vs' \<equiv> vma_remove_at start end i vs"
  shows "vmas_ok vs'" "length vs' = length vs" "can_split vs' start"
    "\<And>a. vview vs' a = (if start \<le> a \<and> a < end \<and> vma_covers a (vs ! i) then None else vview vs a)"
    "\<And>j a. j < length vs \<Longrightarrow> j \<noteq> i \<Longrightarrow> vma_covers a (vs ! j) \<Longrightarrow> vma_covers a (vs' ! j)"
proof -
  let ?v = "vs ! i"
  have goal: "vmas_ok vs' \<and> length vs' = length vs \<and> can_split vs' start \<and>
    (\<forall>a. vview vs' a = (if start \<le> a \<and> a < end \<and> vma_covers a ?v then None else vview vs a)) \<and>
    (\<forall>j a. j < length vs \<longrightarrow> j \<noteq> i \<longrightarrow> vma_covers a (vs ! j) \<longrightarrow> vma_covers a (vs' ! j))"
  proof (cases "vm_used ?v \<and> vma_overlaps start end ?v")
    case False
    then show ?thesis
      using ok split by (auto simp: vs'_def vma_remove_at_def Let_def vma_covers_def vma_overlaps_def)
  next
    case True
    then have ne: "vm_start ?v < vm_end ?v" and ov: "start < vm_end ?v" "vm_start ?v < end" "vm_used ?v"
      using vmas_okD(1) [OF ok i] by (auto simp: vma_overlaps_def)
    show ?thesis
    proof (cases "vm_start ?v < start \<and> end < vm_end ?v")
      case True
      have "vview vs start \<noteq> None"
        using True ov i \<open>start < end\<close> by (auto simp: vview_None_iff vma_covers_def)
      then obtain k where k: "k < length vs" "\<not> vm_used (vs ! k)"
        using split by (auto simp: can_split_def)
      obtain ws where ws: "vma_create (vs[i := ?v\<lparr>vm_end := start\<rparr>]) end (vm_end ?v) (vm_prot ?v) (vm_flags ?v) = ws"
        "vmas_ok (fst ws)" "length (fst ws) = length vs"
        "\<forall>a. vview (fst ws) a = (if start \<le> a \<and> a < end then None else vview vs a)"
        "\<forall>j < length vs. \<forall>a. j \<noteq> i \<longrightarrow> vma_covers a (vs ! j) \<longrightarrow> vma_covers a (fst ws ! j)"
        using vma_split [OF ok i ov(3) _ \<open>start < end\<close> _ k] True by auto
      have "vs' = fst ws"
        using True ov ws(1) by (auto simp: vs'_def vma_remove_at_def Let_def vma_overlaps_def)
      moreover have "vma_covers a ?v" if "start \<le> a" "a < end" for a
        using that True ov by (auto simp: vma_covers_def)
      ultimately show ?thesis
        using ws \<open>start < end\<close> by (auto simp: can_split_def)
    next
      case False
      define v where "v = (if start \<le> vm_start ?v \<and> vm_end ?v \<le> end then ?v\<lparr>vm_used := False\<rparr>
        else if start \<le> vm_start ?v then ?v\<lparr>vm_start := end\<rparr> else ?v\<lparr>vm_end := start\<rparr>)"
      have vs': "vs' = vs[i := v]"
        using True False by (auto simp: vs'_def vma_remove_at_def Let_def v_def not_le)
      have v: "vm_used v \<longrightarrow> vm_used ?v \<and> vm_start v < vm_end v \<and>
          vm_start ?v \<le> vm_start v \<and> vm_end v \<le> vm_end ?v"
        using ov False ne by (auto simp: v_def not_less not_le)
      have pf: "vm_prot v = vm_prot ?v" "vm_flags v = vm_flags ?v"
        by (simp_all add: v_def)
      have cov: "vma_covers a ?v \<and> \<not> vma_covers a v \<longleftrightarrow> start \<le> a \<and> a < end \<and> vma_covers a ?v" for a
        using ov False ne by (auto simp: v_def vma_covers_def not_less not_le)
      have "\<not> vm_used (vs[i := v] ! k)" if "\<not> vm_used (vs ! k)" for k
        using that ov(3) by (cases "k = i") simp_all
      then have "can_split vs' start"
        using split vma_shrink(2) [OF ok i v pf] unfolding can_split_def vs' length_list_update by metis
      then show ?thesis
        using vma_shrink [OF ok i v pf] by (simp add: vs' cov)
    qed
  qed
  then show "vmas_ok vs'" "length vs' = length vs" "can_split vs' start"
    "\<And>a. vview vs' a = (if start \<le> a \<and> a < end \<and> vma_covers a ?v then None else vview vs a)"
    "\<And>j a. j < length vs \<Longrightarrow> j \<noteq> i \<Longrightarrow> vma_covers a (vs ! j) \<Longrightarrow> vma_covers a (vs' ! j)"
    by blast+
qed

text \<open>After \<open>i\<close> rounds only areas in the remaining slots can still cover the range.\<close>

lemma vma_remove_loop_spec:
  assumes "vmas_ok vs" and "start < end" and "can_split vs start" and "i + n = length vs"
    and "\<forall>a j. start \<le> a \<and> a < end \<and> j < i \<longrightarrow> \<not> vma_covers a (vs ! j)"
  shows "\<exists>vs' m'. vma_remove_loop start end i n (vs, m) = (vs', m') \<and> vmas_ok vs' \<and>
    (\<forall>a. vview vs' a = (if start \<le> a \<and> a < end then None else vview vs a))"
  using assms
proof (induction n arbitrary: i vs m)
  case 0
  then have "vview vs a = None" if "start \<le> a" "a < end" for a
    using that by (simp add: vview_None_iff)
  then show ?case
    using 0 by auto
next
  case (Suc n)
  let ?vs = "vma_remove_at start end i vs"
  have i: "i < length vs"
    using Suc.prems(4) by simp
  note step = vma_remove_at_spec [OF Suc.prems(1) i Suc.prems(2, 3)]
  have "\<not> vma_covers a (?vs ! j)" if "start \<le> a" "a < end" "j < Suc i" for a j
  proof
    assume c: "vma_covers a (?vs ! j)"
    have j: "j < length ?vs"
      using that i step(2) by simp
    have "vview ?vs a \<noteq> None"
      using c j by (auto simp: vview_None_iff)
    then have ni: "\<not> vma_covers a (vs ! i)" and "vview vs a \<noteq> None"
      using step(4) [of a] that by (auto split: if_splits)
    then obtain k where k: "k < length vs" "vma_covers a (vs ! k)"
      by (auto simp: vview_None_iff)
    have "k \<noteq> i"
      using k ni by auto
    then have "k = j"
      using covers_unique [OF step(1) _ j step(5) c] k step(2) by simp
    then show False
      using k(2) ni Suc.prems(5) that by (metis less_SucE)
  qed
  then obtain vs' m' where "vma_remove_loop start end (i + 1) n (?vs, vma_unmap_at start end i vs m) = (vs', m')"
    "vmas_ok vs'" "\<forall>a. vview vs' a = (if start \<le> a \<and> a < end then None else vview ?vs a)"
    using Suc.IH [OF step(1) Suc.prems(2) step(3), of "i + 1" "vma_unmap_at start end i vs m"]
      Suc.prems(4) step(2) by auto
  then show ?case
    using step(4) by auto
qed

subsection \<open>Rounding to pages\<close>

lemma page_round_up_spec:
  assumes "unat x \<le> 2 ^ 64 - 4096"
  shows "unat (page_round_up x) = (unat x + 4095) div 4096 * 4096"
proof -
  have "of_nat PAGE_SIZE - 1 = (4095 :: u64)"
    by (simp add: PAGE_SIZE_def)
  then have u: "unat (x + of_nat PAGE_SIZE - 1) = unat x + 4095"
    using assms unat_add_no_wrap [of x 4095] by (simp add: add_diff_eq [symmetric])
  then show ?thesis
    unfolding page_round_up_def flag_masks by (simp add: unat_and_not_mask)
qed

subsection \<open>Demand paging\<close>

text \<open>Zeroing an allocated page that is not a page table.\<close>

lemma zero_data_page:
  assumes ok: "pt_ok m" and p: "data_page m p"
  defines "m' \<equiv> m\<lparr>ram := kmemset (ram m) p 0 PAGE_SIZE\<rparr>"
  shows "pt_ok m'" "translate m' = translate m" "data_page m' p" "\<forall>j < 512. ld64 (ram m') (ent p j) = 0"
proof -
  have al: "page_aligned p"
    using p used_pages_aligned by (auto simp: data_page_def)
  have "ld64 (ram m') (ent b j) = ld64 (ram m) (ent b j)"
    if "valid_path q" "tab m q = Some b" "j < 512" for q b j
    using p that tab_aligned [OF ok that(1, 2)] al by (auto simp: m'_def kmemset_page_ld64 data_page_def)
  then have same: "\<forall>q b j. valid_path q \<and> tab m q = Some b \<and> j < 512 \<longrightarrow>
      ld64 (ram m') (ent b j) = ld64 (ram m) (ent b j)"
    by blast
  have "mm_ok m'" "kernel_pml4 m' = kernel_pml4 m" "used_pages m \<subseteq> used_pages m'"
    using pt_okD(1) [OF ok] by (simp_all add: m'_def)
  note st = same_tables [OF ok this same]
  show "pt_ok m'" "translate m' = translate m"
    using st(2, 3) by blast+
  show "data_page m' p"
    using p st(1) by (auto simp: data_page_def m'_def simp del: tbl.simps)
  show "\<forall>j < 512. ld64 (ram m') (ent p j) = 0"
    using al by (simp add: m'_def kmemset_page_ld64)
qed

lemma present_prot_flags: "present (prot_pte_flags prot)" "prot_pte_flags prot AND NOT 0xFFF = 0"
  by (simp_all add: prot_pte_flags_def present_def PAGE_PRESENT_def PAGE_USER_def PAGE_WRITABLE_def)

lemma leaf_prot:
  assumes "page_aligned p"
  shows "leaf ((p AND NOT 0xFFF) OR prot_pte_flags prot) v =
    Some (p OR (v AND 0xFFF), prot_pte_flags prot)"
proof -
  have p: "p AND NOT 0xFFF = p"
    using assms unfolding page_aligned_iff flag_masks by (intro bit_word_eqI) (auto simp: bit_simps)
  have "pte_addr ((p AND NOT 0xFFF) OR prot_pte_flags prot) = p"
    using pte_addr_flags [OF present_prot_flags(2), of p prot] p by simp
  moreover have "present ((p AND NOT 0xFFF) OR prot_pte_flags prot)"
    using present_prot_flags(1) [of prot] by (simp add: present_iff bit_or_iff)
  moreover have "((p AND NOT 0xFFF) OR prot_pte_flags prot) AND 7 = prot_pte_flags prot"
  proof -
    have "prot_pte_flags prot AND mask 3 = prot_pte_flags prot"
      by (simp add: prot_pte_flags_def PAGE_PRESENT_def PAGE_USER_def PAGE_WRITABLE_def mask_eq_exp_minus_1)
    moreover have "p AND mask 3 = 0"
      using assms unfolding page_aligned_iff by (intro bit_word_eqI) (auto simp: bit_simps)
    ultimately show ?thesis
      unfolding p unfolding flag_masks by (simp add: bit.conj_disj_distrib2)
  qed
  ultimately show ?thesis
    by (simp add: leaf_def)
qed

lemma vpn_page_base: "vpn (v AND NOT 0xFFF) = vpn v"
  unfolding vpn_def flag_masks by (rule bit_word_eqI) (auto simp: bit_simps)

lemma vmm_init_ok: "vmas_ok (fst (vmm_init_process pid))"
  by (simp add: vmas_ok_def vmm_init_process_def vma_zero_def)

lemma vmm_init_clear: "all_clear (fst (vmm_init_process pid)) start end"
  by (simp add: clear_of_def vmm_init_process_def vma_zero_def)

section \<open>Termination of the protection loop\<close>

lemma protect_pages_returns:
  assumes "prot_end \<le> - 4096" and "addr \<le> prot_end + 4095"
  shows "\<exists>m'. protect_pages addr prot_end f m = Some m'"
  using assms(2)
proof (induction "unat (prot_end + 4095 - addr)" arbitrary: addr m rule: less_induct)
  case less
  show ?case
  proof (cases "addr < prot_end")
    case True
    have "unat (prot_end + 4095) = unat prot_end + 4095" "unat (addr + 4096) = unat addr + 4096"
      using assms(1) True unfolding word_le_nat_alt word_less_nat_alt by (simp_all add: unat_word_ariths)
    then have "unat (prot_end + 4095 - (addr + 4096)) < unat (prot_end + 4095 - addr)"
      "addr + 4096 \<le> prot_end + 4095"
      using True less.prems unfolding word_le_nat_alt word_less_nat_alt by (simp_all add: unat_sub_if_size word_size) arith
    from less.hyps [OF this] show ?thesis
      by (subst protect_pages.simps) (simp add: PAGE_SIZE_def)
  next
    case False
    then show ?thesis
      by (subst protect_pages.simps) simp
  qed
qed

lemma vma_protect_pages_at_returns:
  assumes "end \<le> - 4096"
  shows "\<exists>m'. vma_protect_pages_at start end p i vs m = Some m'"
proof (cases "vm_used (vs ! i) \<and> vma_overlaps start end (vs ! i)")
  case True
  define s where "s = (if vm_start (vs ! i) < start then start else vm_start (vs ! i))"
  define e where "e = (if end < vm_end (vs ! i) then end else vm_end (vs ! i))"
  have e: "e \<le> - 4096" and "s \<le> e \<or> vm_end (vs ! i) \<le> vm_start (vs ! i) \<or> end \<le> start"
    using assms True by (auto simp: s_def e_def vma_overlaps_def)
  show ?thesis
  proof (cases "s \<le> e")
    case True
    then have "s \<le> e + 4095"
      using e unfolding word_le_nat_alt by (simp add: unat_word_ariths)
    then show ?thesis
      using protect_pages_returns [OF e] \<open>vm_used (vs ! i) \<and> _\<close>
      by (simp add: vma_protect_pages_at_def s_def e_def Let_def)
  next
    case False
    then have "protect_pages s e (prot_pte_flags p) m = Some m"
      by (subst protect_pages.simps) (auto dest: less_imp_le)
    then show ?thesis
      using \<open>vm_used (vs ! i) \<and> _\<close> by (simp add: vma_protect_pages_at_def s_def e_def Let_def)
  qed
qed (auto simp: vma_protect_pages_at_def)

fun protect_table :: "u64 \<Rightarrow> u64 \<Rightarrow> u32 \<Rightarrow> nat \<Rightarrow> nat \<Rightarrow> vm_area list \<Rightarrow> vm_area list" where
  "protect_table start end p i 0 vs = vs"
| "protect_table start end p i (Suc n) vs = protect_table start end p (i + 1) n (vma_protect_at start end p i vs)"

lemma vma_protect_loop_returns:
  assumes "end \<le> - 4096"
  shows "\<exists>m'. vma_protect_loop start end p i n (vs, m) = Some (protect_table start end p i n vs, m')"
proof (induction n arbitrary: i vs m)
  case (Suc n)
  then show ?case
    using vma_protect_pages_at_returns [OF assms, of start p i vs m] by auto
qed simp

fun remove_table :: "u64 \<Rightarrow> u64 \<Rightarrow> nat \<Rightarrow> nat \<Rightarrow> vm_area list \<Rightarrow> vm_area list" where
  "remove_table start end i 0 vs = vs"
| "remove_table start end i (Suc n) vs = remove_table start end (i + 1) n (vma_remove_at start end i vs)"

lemma vma_remove_loop_table:
  "\<exists>m'. vma_remove_loop start end i n (vs, m) = (remove_table start end i n vs, m')"
  by (induction n arbitrary: i vs m) simp_all

section \<open>Properties\<close>

text \<open>
  C26: a page fault inside an area of the running process, other than a write to a page of a
  read-only area, is resolved: the handler returns 0, the faulting page is backed by a fresh
  zero-filled frame with the permissions of the area, no other translation changes and the
  tables stay well formed.
\<close>

theorem page_fault_resolved:
  assumes ok: "pt_ok m" and room: "4 \<le> free_frames m" and vma: "vma_find vs fault_addr = Some i"
    and legal: "\<not> (error_code AND 1 \<noteq> 0 \<and> error_code AND 2 \<noteq> 0 \<and> vm_prot (vs ! i) AND VMA_PROT_WRITE = 0)"
  shows "\<exists>m' p. vmm_handle_page_fault True vs m fault_addr error_code = Some (m', 0) \<and> pt_ok m' \<and>
    p \<in> frame_pool - used_pages m \<and> data_page m' p \<and> (\<forall>j < 512. ld64 (ram m') (ent p j) = 0) \<and>
    (\<forall>v. translate m' v =
      (if vpn v = vpn fault_addr then Some (p OR (v AND 0xFFF), prot_pte_flags (vm_prot (vs ! i)))
       else translate m v))"
proof -
  have "used_pages m \<noteq> frame_pool"
    using room by (intro room_if_free) simp
  then obtain m1 p where al: "alloc_page m = Some (m1, p)" "p \<noteq> 0" "p \<in> frame_pool" "p \<notin> used_pages m"
    "pt_ok m1" "translate m1 = translate m" "data_page m1 p" "tlb_ok m \<longrightarrow> tlb_ok m1"
    "free_frames m1 = free_frames m - 1" "\<forall>j < 512. ld64 (ram m1) (ent p j) = 0"
    "used_pages m1 = insert p (used_pages m)"
    using alloc_page_data [OF ok] by blast
  define m2 where "m2 = (if vm_flags (vs ! i) AND VMA_MAP_ANONYMOUS \<noteq> 0
    then m1\<lparr>ram := kmemset (ram m1) p 0 PAGE_SIZE\<rparr> else m1)"
  have m2: "pt_ok m2" "translate m2 = translate m" "data_page m2 p" "\<forall>j < 512. ld64 (ram m2) (ent p j) = 0"
    using zero_data_page [OF al(5, 7)] al(5-7, 10) by (auto simp: m2_def)
  have room2: "3 \<le> free_frames m2"
    using room al(9) by (auto simp: m2_def free_frames_def)
  obtain m' where m': "map_page m2 (fault_addr AND NOT 0xFFF) p (prot_pte_flags (vm_prot (vs ! i))) = Some m'"
    "pt_ok m'" "data_kept m2 m'"
    "\<And>v. translate m' v = (if vpn v = vpn (fault_addr AND NOT 0xFFF)
       then leaf ((p AND NOT 0xFFF) OR prot_pte_flags (vm_prot (vs ! i))) v else translate m2 v)"
    using map_page_spec [OF m2(1) room2, of "fault_addr AND NOT 0xFFF" p "prot_pte_flags (vm_prot (vs ! i))"]
    by metis
  have "vmm_handle_page_fault True vs m fault_addr error_code = Some (m', 0)"
    using vma legal al(1, 2) m'(1) unfolding m2_def vmm_handle_page_fault_def by (auto simp: Let_def)
  moreover have "data_page m' p" "\<forall>j < 512. ld64 (ram m') (ent p j) = 0"
    using m'(3) m2(3, 4) by (auto simp: data_kept_def)
  moreover have tr: "\<forall>v. translate m' v = (if vpn v = vpn fault_addr
      then Some (p OR (v AND 0xFFF), prot_pte_flags (vm_prot (vs ! i))) else translate m v)"
    unfolding m'(4) vpn_page_base leaf_prot [OF frame_pool_aligned [OF al(3)]] m2(2) by blast
  ultimately show ?thesis
    using al(3, 4) m'(2) tr by blast
qed

definition stack_vmas :: "vm_area list" where
  "stack_vmas = fst (vma_create (fst (vmm_init_process 1)) 0x7FFFEFFF0000 0x7FFFF0000000 3 0x22)"

lemma stack_vmas_create:
  "vma_create (fst (vmm_init_process 1)) 0x7FFFEFFF0000 0x7FFFF0000000 3 0x22 = (stack_vmas, Some 0)"
  by code_simp

lemma stack_vmas_ok: "vmas_ok stack_vmas" "vview stack_vmas 0x7FFFEFFFF008 = Some (3, 0x22)"
  using vma_create_spec [OF vmm_init_ok [of 1] _ vmm_init_clear, of "0x7FFFEFFF0000" "0x7FFFF0000000" 3 "0x22"]
  by (simp_all add: stack_vmas_create)

theorem page_fault_resolved_witness:
  "\<exists>m m'. mm_init mm_empty = Some m \<and> vmm_handle_page_fault True stack_vmas m 0x7FFFEFFFF008 6 = Some (m', 0)"
proof -
  obtain m pdpt where m: "mm_init mm_empty = Some m" "identity_upto m pdpt 4" "cr3 m = kernel_pml4 m"
    "tlb m = (\<lambda>_. None)" "3 \<le> free_frames m" "1000 \<le> free_frames m"
    using mm_init_spec by blast
  then have "4 \<le> free_frames m"
    by simp
  moreover have "vma_find stack_vmas 0x7FFFEFFFF008 = Some 0"
    by code_simp
  ultimately show ?thesis
    using page_fault_resolved [OF identity_upto_ready(1) [OF m(2-4)], of stack_vmas "0x7FFFEFFFF008" 0 6] m(1)
    by auto
qed

text \<open>
  C28: \<open>vma_create\<close> on a range that no area overlaps maps exactly that range with the given
  protection and flags, whether it extends a neighbour or takes a free slot, and keeps the
  areas disjoint; it fails only when all 32 slots are in use, and then changes nothing.
\<close>

theorem vma_create_view:
  assumes "vmas_ok vs" and "start < end" and "all_clear vs start end"
  shows "case vma_create vs start end prot flags of
      (vs', Some i) \<Rightarrow> vmas_ok vs' \<and>
        (\<forall>a. vview vs' a = (if start \<le> a \<and> a < end then Some (prot, flags) else vview vs a))
    | (vs', None) \<Rightarrow> vs' = vs \<and> (\<forall>i < length vs. vm_used (vs ! i))"
  using vma_create_spec [OF assms, of prot flags] by auto

theorem vma_create_view_witness:
  "vmas_ok stack_vmas \<and> vview stack_vmas 0x7FFFEFFFF008 = Some (3, 0x22)"
  using vma_create_view [OF vmm_init_ok [of 1] _ vmm_init_clear, of "0x7FFFEFFF0000" "0x7FFFF0000000" 3 "0x22"]
  by (simp add: stack_vmas_create)



text \<open>
  \<open>vma_protect\<close> returns for every range that ends below the last page of the address
  space: its page loop cannot wrap around there.
\<close>

theorem vma_protect_returns:
  assumes "end \<le> 0xFFFFFFFFFFFFF000"
  shows "\<exists>s' r. vma_protect s start end new_prot = Some (s', r) \<and> r = (if end \<le> start then - 22 else 0)"
proof -
  have "(0xFFFFFFFFFFFFF000 :: u64) = - 4096"
    by simp
  with assms have "end \<le> - 4096"
    by metis
  then show ?thesis
    using vma_protect_loop_returns [of "end" start new_prot 0 MAX_PROCESS_VMAS "fst s" "snd s"]
    by (auto simp: vma_protect_def)
qed

definition two_pages :: "vm_area list" where
  "two_pages = fst (vma_create (fst (vmm_init_process 1)) 0x1000 0x3000 3 0x22)"

text \<open>
  Changing the protection from the middle of an area to a point past its end maps the
  addresses behind the area: with the single area [0x1000, 0x3000), protecting
  [0x2000, 0x9000) makes the unmapped address 0x5000 part of the address space.
\<close>

theorem vma_protect_overshoots:
  "\<exists>vs' m'. vview two_pages 0x5000 = None \<and>
     vma_protect (two_pages, m) 0x2000 0x9000 1 = Some ((vs', m'), 0) \<and> vview vs' 0x5000 = Some (1, 0x22)"
proof -
  have "vview two_pages 0x5000 = None"
    by code_simp
  moreover have "vview (protect_table 0x2000 0x9000 1 0 MAX_PROCESS_VMAS two_pages) 0x5000 = Some (1, 0x22)"
    by code_simp
  moreover obtain m' where "vma_protect_loop 0x2000 0x9000 1 0 MAX_PROCESS_VMAS (two_pages, m) =
      Some (protect_table 0x2000 0x9000 1 0 MAX_PROCESS_VMAS two_pages, m')"
    using vma_protect_loop_returns [of "0x9000" "0x2000" 1 0 MAX_PROCESS_VMAS two_pages m] by auto
  ultimately show ?thesis
    by (simp add: vma_protect_def)
qed

definition full_table :: "vm_area list" where
  "full_table = map (\<lambda>i. \<lparr>vm_start = of_nat i * 0x10000, vm_end = of_nat i * 0x10000 + 0x4000, vm_prot = 3,
     vm_flags = 0x22, vm_used = True\<rparr>) [0 ..< 32]"

text \<open>
  With all 32 slots in use, removing the middle of an area also drops its tail: the
  address 0x12000 lies outside the removed range [0x11000, 0x12000) and is lost, while
  the call reports success.
\<close>

theorem vma_remove_full_loses_tail:
  "\<exists>vs' m'. vview full_table 0x12000 = Some (3, 0x22) \<and>
     vma_remove (full_table, m) 0x11000 0x12000 = ((vs', m'), 0) \<and> vview vs' 0x12000 = None"
proof -
  have "vview full_table 0x12000 = Some (3, 0x22)"
    by code_simp
  moreover have "vview (remove_table 0x11000 0x12000 0 MAX_PROCESS_VMAS full_table) 0x12000 = None"
    by code_simp
  ultimately show ?thesis
    using vma_remove_loop_table [of "0x11000" "0x12000" 0 MAX_PROCESS_VMAS full_table m]
    by (auto simp: vma_remove_def)
qed

end
