(* ===== verification/Elf.thy ===== *)
theory Elf
  imports Vmm
begin

text \<open>
  The ELF loader, \<^verbatim>\<open>kernel/loader/elf.c\<close>.  The file is a byte object of which the loader is told a
  size; it checks the size only against the file header, so a program header or segment outside
  the object is an explicit outcome (\<open>None\<close>).  Segments are copied to fresh frames and mapped
  into the page tables.  Console output is left out.
\<close>

section \<open>File format\<close>

record elf_segment =
  seg_virt :: u64
  seg_phys :: u64
  seg_pages :: u64

record elf_info =
  entry_point :: u64
  min_vaddr :: u64
  max_vaddr :: u64
  elf_segments :: "elf_segment list"

definition MAX_ELF_SEGMENTS :: nat where "MAX_ELF_SEGMENTS = 8"
definition ELF_MAGIC :: u32 where "ELF_MAGIC = 0x464C457F"
definition PT_LOAD :: u32 where "PT_LOAD = 1"

text \<open>The fields of the file header that the loader reads.\<close>

record elf_ehdr =
  e_magic :: u32
  e_class :: u8
  e_machine :: u16
  e_entry :: u64
  e_phoff :: u64
  e_phentsize :: u16
  e_phnum :: u16

definition read_ehdr :: "bytes \<Rightarrow> elf_ehdr option" where
  "read_ehdr d = do {
     magic \<leftarrow> rd32 d 0;
     cls \<leftarrow> at_idx d 4;
     machine \<leftarrow> rd16 d 18;
     ent \<leftarrow> rd64 d 24;
     phoff \<leftarrow> rd64 d 32;
     phentsize \<leftarrow> rd16 d 54;
     phnum \<leftarrow> rd16 d 56;
     Some \<lparr>e_magic = magic, e_class = cls, e_machine = machine, e_entry = ent, e_phoff = phoff,
       e_phentsize = phentsize, e_phnum = phnum\<rparr>
   }"

record elf_phdr =
  p_type :: u32
  p_offset :: u64
  p_vaddr :: u64
  p_filesz :: u64
  p_memsz :: u64

text \<open>The loads of a program header; the other fields matter only for a segment to load.\<close>

definition read_phdr :: "bytes \<Rightarrow> nat \<Rightarrow> elf_phdr option" where
  "read_phdr d at = do {
     type \<leftarrow> rd32 d at;
     if type \<noteq> PT_LOAD then Some \<lparr>p_type = type, p_offset = 0, p_vaddr = 0, p_filesz = 0, p_memsz = 0\<rparr>
     else do {
       vaddr \<leftarrow> rd64 d (at + 16);
       memsz \<leftarrow> rd64 d (at + 40);
       filesz \<leftarrow> rd64 d (at + 32);
       offset \<leftarrow> rd64 d (at + 8);
       Some \<lparr>p_type = type, p_offset = offset, p_vaddr = vaddr, p_filesz = filesz, p_memsz = memsz\<rparr>
     }
   }"

section \<open>Loading\<close>

text \<open>Storing a run of bytes in memory, byte by byte as \<open>kmemcpy\<close> does.\<close>

fun copy_in :: "memory \<Rightarrow> u64 \<Rightarrow> bytes \<Rightarrow> memory" where
  "copy_in r d [] = r"
| "copy_in r d (b # bs) = copy_in (r(d := b)) (d + 1) bs"

definition add_segment :: "elf_segment \<Rightarrow> elf_info \<Rightarrow> elf_info" where
  "add_segment s info =
     (if length (elf_segments info) < MAX_ELF_SEGMENTS then info\<lparr>elf_segments := elf_segments info @ [s]\<rparr> else info)"

definition load_segment :: "bytes \<Rightarrow> elf_phdr \<Rightarrow> mm \<Rightarrow> elf_info \<Rightarrow> (mm \<times> elf_info \<times> int) option" where
  "load_segment d ph m info =
     (let vaddr = p_vaddr ph; memsz = p_memsz ph; filesz = p_filesz ph;
          info = (if vaddr < min_vaddr info then info\<lparr>min_vaddr := vaddr\<rparr> else info);
          info = (if max_vaddr info < vaddr + memsz then info\<lparr>max_vaddr := vaddr + memsz\<rparr> else info);
          page_aligned_vaddr = vaddr AND NOT 0xFFF;
          vaddr_offset = vaddr AND 0xFFF;
          num_pages = (memsz + vaddr_offset + of_nat PAGE_SIZE - 1) div of_nat PAGE_SIZE
      in do {
        (m, phys_pages) \<leftarrow> alloc_pages m num_pages;
        if phys_pages = 0 then Some (m, info, - 1)
        else do {
          bs \<leftarrow> (if 0 < filesz then slice d (unat (p_offset ph)) (unat filesz) else Some []);
          let m = m\<lparr>ram := copy_in (ram m) (phys_pages + vaddr_offset) bs\<rparr>;
              m = (if filesz < memsz
                   then m\<lparr>ram := kmemset (ram m) (phys_pages + vaddr_offset + filesz) 0 (unat (memsz - filesz))\<rparr> else m)
          in do {
            m \<leftarrow> map_user_pages m page_aligned_vaddr phys_pages (unat num_pages);
            Some (m, add_segment \<lparr>seg_virt = page_aligned_vaddr, seg_phys = phys_pages, seg_pages = num_pages\<rparr> info, 0)
          }
        }
      })"

text \<open>
  The loop over the program headers.  The offset \<open>i * e_phentsize\<close> is an \<open>int\<close> product; one of
  \<open>2 ^ 31\<close> or more overflows and is an outcome without a result.
\<close>

fun elf_loop :: "bytes \<Rightarrow> elf_ehdr \<Rightarrow> nat \<Rightarrow> nat \<Rightarrow> mm \<Rightarrow> elf_info \<Rightarrow> (mm \<times> elf_info \<times> int) option" where
  "elf_loop d eh i 0 m info = Some (m, info, 0)"
| "elf_loop d eh i (Suc n) m info =
     (if 2 ^ 31 \<le> i * unat (e_phentsize eh) then None
      else do {
        ph \<leftarrow> read_phdr d (unat (e_phoff eh) + i * unat (e_phentsize eh));
        if p_type ph = PT_LOAD then do {
          (m, info, r) \<leftarrow> load_segment d ph m info;
          if r \<noteq> 0 then Some (m, info, r) else elf_loop d eh (i + 1) n m info
        } else elf_loop d eh (i + 1) n m info
      })"

definition elf_load_binary :: "mm \<Rightarrow> cptr \<Rightarrow> u64 \<Rightarrow> elf_info \<Rightarrow> (mm \<times> elf_info \<times> int) option" where
  "elf_load_binary m elf_data elf_size out_info =
     (case elf_data of
        None \<Rightarrow> Some (m, out_info, - 1)
      | Some d \<Rightarrow>
          if elf_size < 64 then Some (m, out_info, - 1)
          else do {
            eh \<leftarrow> read_ehdr d;
            if e_magic eh \<noteq> ELF_MAGIC then Some (m, out_info, - 1)
            else if e_class eh \<noteq> 2 \<or> e_machine eh \<noteq> 0x3E then Some (m, out_info, - 1)
            else elf_loop d eh 0 (unat (e_phnum eh)) m
              \<lparr>entry_point = e_entry eh, min_vaddr = NOT 0, max_vaddr = 0, elf_segments = []\<rparr>
          })"

section \<open>What a loaded program records\<close>

definition seg_of :: "elf_phdr \<Rightarrow> u64 \<times> u64" where
  "seg_of ph = (p_vaddr ph AND NOT 0xFFF,
     (p_memsz ph + (p_vaddr ph AND 0xFFF) + of_nat PAGE_SIZE - 1) div of_nat PAGE_SIZE)"

definition phdr_at :: "bytes \<Rightarrow> elf_ehdr \<Rightarrow> nat \<Rightarrow> elf_phdr option" where
  "phdr_at d eh i = read_phdr d (unat (e_phoff eh) + i * unat (e_phentsize eh))"

definition recorded :: "elf_info \<Rightarrow> (u64 \<times> u64) list" where
  "recorded info = map (\<lambda>s. (seg_virt s, seg_pages s)) (elf_segments info)"

lemma recorded_simps [simp]:
  "recorded (info\<lparr>min_vaddr := a\<rparr>) = recorded info" "recorded (info\<lparr>max_vaddr := b\<rparr>) = recorded info"
  by (simp_all add: recorded_def)

lemma load_segment_info:
  assumes "load_segment d ph m info = Some (m', info', 0)"
  shows "entry_point info' = entry_point info \<and>
    recorded info' = (if length (elf_segments info) < 8 then recorded info @ [seg_of ph] else recorded info)"
  using assms
  by (auto simp: load_segment_def Let_def add_segment_def MAX_ELF_SEGMENTS_def recorded_def seg_of_def
      split: bind_splits if_splits)

lemma elf_loop_info:
  assumes "elf_loop d eh i n m info = Some (m', info', 0)"
    and "recorded info = take 8 segs" and "length (elf_segments info) = min 8 (length segs)"
  shows "\<exists>phs. map (phdr_at d eh) [i ..< i + n] = map Some phs \<and> entry_point info' = entry_point info \<and>
    recorded info' = take 8 (segs @ map seg_of (filter (\<lambda>ph. p_type ph = PT_LOAD) phs))"
  using assms
proof (induction n arbitrary: i m info segs)
  case (Suc n)
  obtain ph where ph: "phdr_at d eh i = Some ph"
    using Suc.prems(1) by (auto simp: phdr_at_def split: if_splits bind_splits)
  have range: "[i ..< i + Suc n] = i # [i + 1 ..< (i + 1) + n]"
    by (simp add: upt_rec)
  show ?case
  proof (cases "p_type ph = PT_LOAD")
    case True
    then obtain m1 info1 where 1: "load_segment d ph m info = Some (m1, info1, 0)"
      "elf_loop d eh (i + 1) n m1 info1 = Some (m', info', 0)"
      using Suc.prems(1) ph by (auto simp: phdr_at_def split: if_splits bind_splits)
    have rec: "entry_point info1 = entry_point info" "recorded info1 = take 8 (segs @ [seg_of ph])"
      using load_segment_info [OF 1(1)] Suc.prems(2, 3) by (auto split: if_splits)
    have "length (recorded info1) = length (elf_segments info1)"
      by (simp add: recorded_def)
    then have "length (elf_segments info1) = min 8 (length (segs @ [seg_of ph]))"
      using rec(2) by (metis length_take min.commute)
    from Suc.IH [OF 1(2) rec(2) this] obtain phs where
      "map (phdr_at d eh) [i + 1 ..< i + 1 + n] = map Some phs" "entry_point info' = entry_point info1"
      "recorded info' = take 8 ((segs @ [seg_of ph]) @ map seg_of (filter (\<lambda>ph. p_type ph = PT_LOAD) phs))"
      by blast
    then show ?thesis
      unfolding range using ph rec(1) True by (intro exI [of _ "ph # phs"]) simp
  next
    case False
    then have "elf_loop d eh (i + 1) n m info = Some (m', info', 0)"
      using Suc.prems(1) ph by (auto simp: phdr_at_def split: if_splits bind_splits)
    from Suc.IH [OF this Suc.prems(2, 3)] obtain phs where
      "map (phdr_at d eh) [i + 1 ..< i + 1 + n] = map Some phs" "entry_point info' = entry_point info"
      "recorded info' = take 8 (segs @ map seg_of (filter (\<lambda>ph. p_type ph = PT_LOAD) phs))"
      by blast
    then show ?thesis
      unfolding range using ph False by (intro exI [of _ "ph # phs"]) simp
  qed
qed simp

section \<open>Properties\<close>


text \<open>A program without segments to load: the header alone, with one note in the table.\<close>

definition demo_elf :: bytes where
  "demo_elf = [0x7F, 0x45, 0x4C, 0x46, 2] @ replicate 13 0 @ [0x3E, 0] @ replicate 4 0 @ [0, 0x10, 0x40, 0, 0, 0, 0, 0] @
     [64, 0, 0, 0, 0, 0, 0, 0] @ replicate 14 0 @ [56, 0, 1, 0] @ replicate 6 0 @ [4, 0, 0, 0] @ replicate 52 0"

definition demo_info :: elf_info where
  "demo_info = \<lparr>entry_point = 0, min_vaddr = 0, max_vaddr = 0, elf_segments = []\<rparr>"


end
