(* ===== verification/Vfs.thy ===== *)
theory Vfs
  imports KString
begin

text \<open>
  The virtual file system of \<^verbatim>\<open>kernel/fs/vfs.c\<close>: the mount table, path lookup through the
  \<open>finddir\<close> operations of the mounted file systems, opening with creation, and the file
  descriptor tables of the processes.

  Nodes are static objects of the kernel (\<open>tarfs_files[i]\<close>, \<open>vfs_node_pool[i]\<close>, the node inside
  \<open>net_socket_table[i]\<close>), so a pointer to one is the name of the object with the index,
  and the heap of nodes is a function.  An operations table is named the same way; the
  parameter \<open>ops\<close> of the functions below is the contents of the tables.  The
  state record is extensible: a file system adds its own state to it, and its operations work
  on the extended state.  Console output is left out.
\<close>

section \<open>State\<close>

datatype static_ptr = Static (static_name: string) (static_idx: nat)

record vfs_node =
  vn_name :: bytes
  vn_type :: u32
  vn_inode :: u32
  vn_size :: u64
  vn_permissions :: u32
  vn_flags :: u32
  vn_refcount :: int
  vn_ops :: "string option"
  vn_priv_data :: "static_ptr option"

definition vfs_node_zero :: vfs_node where
  "vfs_node_zero = \<lparr>vn_name = replicate 128 0, vn_type = 0, vn_inode = 0, vn_size = 0, vn_permissions = 0,
     vn_flags = 0, vn_refcount = 0, vn_ops = None, vn_priv_data = None\<rparr>"

record vfs_dirent =
  d_ino :: u32
  d_name :: bytes
  d_type :: u8

text \<open>
  The function pointers of an operations table over a state \<open>'w\<close>; an absent one is \<open>NULL\<close>.  An
  output parameter is part of the result; \<open>read\<close> returns the bytes it stores at the start of the
  buffer.  The outer option of a result is \<open>None\<close> when the operation accesses memory outside
  an object.
\<close>

record 'w vfs_ops =
  op_open :: "('w \<Rightarrow> static_ptr \<Rightarrow> int \<Rightarrow> ('w \<times> int) option) option"
  op_close :: "('w \<Rightarrow> static_ptr \<Rightarrow> ('w \<times> int) option) option"
  op_read :: "('w \<Rightarrow> static_ptr \<Rightarrow> u64 \<Rightarrow> u64 \<Rightarrow> ('w \<times> bytes \<times> int) option) option"
  op_write :: "('w \<Rightarrow> static_ptr \<Rightarrow> u64 \<Rightarrow> u64 \<Rightarrow> bytes \<Rightarrow> ('w \<times> int) option) option"
  op_readdir :: "('w \<Rightarrow> static_ptr \<Rightarrow> u32 \<Rightarrow> ('w \<times> vfs_dirent option \<times> int) option) option"
  op_finddir :: "('w \<Rightarrow> static_ptr \<Rightarrow> bytes \<Rightarrow> ('w \<times> static_ptr option \<times> int) option) option"
  op_create :: "('w \<Rightarrow> static_ptr \<Rightarrow> bytes \<Rightarrow> int \<Rightarrow> ('w \<times> static_ptr option \<times> int) option) option"

record vfs_mount_t =
  mountpoint :: bytes
  root_node :: "static_ptr option"
  fs_type :: cptr
  mount_dev :: "static_ptr option"

record vfs =
  mounts :: "vfs_mount_t list"
  mount_count :: nat
  vnodes :: "static_ptr \<Rightarrow> vfs_node"

record file_desc =
  fd_node :: "static_ptr option"
  fd_offset :: u64
  fd_flags :: int
  fd_in_use :: bool

definition VFS_FILE :: u32 where "VFS_FILE = 1"
definition VFS_DIRECTORY :: u32 where "VFS_DIRECTORY = 2"
definition VFS_CHARDEV :: u32 where "VFS_CHARDEV = 3"
definition VFS_MAX_MOUNTS :: nat where "VFS_MAX_MOUNTS = 8"
definition VFS_MAX_FD :: nat where "VFS_MAX_FD = 32"
definition VFS_O_CREAT :: int where "VFS_O_CREAT = 0x40"
definition VFS_O_APPEND :: int where "VFS_O_APPEND = 0x400"

definition set_refcount :: "('a vfs_scheme) \<Rightarrow> static_ptr \<Rightarrow> int \<Rightarrow> 'a vfs_scheme" where
  "set_refcount w n r = w\<lparr>vnodes := (vnodes w)(n := (vnodes w n)\<lparr>vn_refcount := r\<rparr>)\<rparr>"

section \<open>Mounts\<close>

definition mount_zero :: vfs_mount_t where
  "mount_zero = \<lparr>mountpoint = replicate 64 0, root_node = None, fs_type = None, mount_dev = None\<rparr>"

definition vfs_init :: "'a vfs_scheme \<Rightarrow> 'a vfs_scheme" where
  "vfs_init w = w\<lparr>mounts := replicate VFS_MAX_MOUNTS mount_zero, mount_count := 0\<rparr>"

definition vfs_mount ::
    "'a vfs_scheme \<Rightarrow> cptr \<Rightarrow> cptr \<Rightarrow> static_ptr option \<Rightarrow> static_ptr option \<Rightarrow> ('a vfs_scheme \<times> int) option" where
  "vfs_mount w mp fstype dev root =
     (if mp = None \<or> root = None \<or> VFS_MAX_MOUNTS \<le> mount_count w then Some (w, - 1)
      else do {
        dst \<leftarrow> kstrncpy (Some (mountpoint (mounts w ! mount_count w))) mp 64;
        Some (w\<lparr>mounts := (mounts w)[mount_count w :=
                  \<lparr>mountpoint = the dst, root_node = root, fs_type = fstype, mount_dev = dev\<rparr>],
                mount_count := mount_count w + 1\<rparr>, 0)
      })"

fun find_mount_loop :: "bytes \<Rightarrow> nat \<Rightarrow> vfs_mount_t list \<Rightarrow> nat option \<times> nat \<Rightarrow> (nat option \<times> nat) option" where
  "find_mount_loop path i [] best = Some best"
| "find_mount_loop path i (m # ms) (best_mount, best_len) = do {
     mlen \<leftarrow> kstrlen (Some (mountpoint m));
     r \<leftarrow> kstrncmp (Some path) (Some (mountpoint m)) mlen;
     hit \<leftarrow> (if r = 0 then do { c \<leftarrow> at_idx path mlen; Some ((c = 47 \<or> c = 0 \<or> mlen = 1) \<and> best_len \<le> mlen) }
            else Some False);
     find_mount_loop path (i + 1) ms (if hit then (Some i, mlen) else (best_mount, best_len))
   }"

fun skip_slashes :: "bytes \<Rightarrow> bytes option" where
  "skip_slashes [] = None"
| "skip_slashes (c # p) = (if c = 47 then skip_slashes p else Some (c # p))"

text \<open>The mount that serves a path, by its index, and the rest of the path below it.\<close>

definition vfs_find_mount :: "'a vfs_scheme \<Rightarrow> bytes \<Rightarrow> (nat \<times> bytes) option option" where
  "vfs_find_mount w path = do {
     (best_mount, best_len) \<leftarrow> find_mount_loop path 0 (take (mount_count w) (mounts w)) (None, 0);
     (case best_mount of
        None \<Rightarrow> Some None
      | Some i \<Rightarrow> do { rel \<leftarrow> skip_slashes (drop best_len path); Some (Some (i, rel)) })
   }"

section \<open>Lookup\<close>

text \<open>Copying one component into \<open>comp[128]\<close>: the component and the rest of the path.\<close>

fun copy_comp :: "nat \<Rightarrow> bytes \<Rightarrow> (bytes \<times> bytes) option" where
  "copy_comp i [] = None"
| "copy_comp i (c # p) =
     (if c \<noteq> 0 \<and> c \<noteq> 47 \<and> i < 127 then do { (w, rest) \<leftarrow> copy_comp (i + 1) p; Some (c # w, rest) }
      else Some ([], c # p))"

lemma skip_slashes_length: "skip_slashes p = Some q \<Longrightarrow> length q \<le> length p"
  by (induction p) (auto split: if_splits)

lemma copy_comp_length: "copy_comp i p = Some (w, rest) \<Longrightarrow> length p = length w + length rest"
  by (induction p arbitrary: i w) (auto split: if_splits bind_splits)

lemma copy_comp_progress:
  "copy_comp 0 (c # q) = Some (w, rest) \<Longrightarrow> c \<noteq> 0 \<Longrightarrow> c \<noteq> 47 \<Longrightarrow> length rest < Suc (length q)"
  by (auto dest: copy_comp_length split: bind_splits)

lemma skip_slashes_head: "skip_slashes p = Some (c # q) \<Longrightarrow> c \<noteq> 47"
  by (induction p) (auto split: if_splits)

lemma lookup_progress:
  assumes "skip_slashes p = Some (d # q)" and "copy_comp 0 (d # q) = Some (w, rest)" and "d \<noteq> 0"
  shows "length rest < length p"
  using copy_comp_progress [OF assms(2, 3) skip_slashes_head [OF assms(1)]] skip_slashes_length [OF assms(1)]
  by simp

definition finddir_of :: "(string \<Rightarrow> 'w vfs_ops) \<Rightarrow> vfs_node \<Rightarrow> ('w \<Rightarrow> static_ptr \<Rightarrow> bytes \<Rightarrow> ('w \<times> static_ptr option \<times> int) option) option" where
  "finddir_of ops nd = (case vn_ops nd of None \<Rightarrow> None | Some t \<Rightarrow> op_finddir (ops t))"

text \<open>
  The loop over the components.  The result is the state, the node stored to \<open>*out_node\<close> if
  any, and the returned code.
\<close>

function lookup_loop ::
    "(string \<Rightarrow> 'a vfs_scheme vfs_ops) \<Rightarrow> 'a vfs_scheme \<Rightarrow> static_ptr \<Rightarrow> bytes \<Rightarrow>
     ('a vfs_scheme \<times> static_ptr option \<times> int) option" where
  "lookup_loop ops w cur [] = None"
| "lookup_loop ops w cur (c # p) =
     (if c = 0 then Some (w, Some cur, 0)
      else (case skip_slashes (c # p) of
          None \<Rightarrow> None
        | Some [] \<Rightarrow> None
        | Some (d # q) \<Rightarrow>
            if d = 0 then Some (w, Some cur, 0)
            else (case copy_comp 0 (d # q) of
                None \<Rightarrow> None
              | Some (name, rest) \<Rightarrow>
                  (case finddir_of ops (vnodes w cur) of
                     None \<Rightarrow> Some (w, None, - 1)
                   | Some finddir \<Rightarrow>
                       (case finddir w cur (name @ [0]) of
                          None \<Rightarrow> None
                        | Some (w', child, res) \<Rightarrow>
                            if res \<noteq> 0 then Some (w', None, - 1)
                            else (case child of
                                None \<Rightarrow> Some (w', None, - 1)
                              | Some n \<Rightarrow> lookup_loop ops w' n rest))))))"
  by pat_completeness auto
termination
  by (relation "measure (\<lambda>(ops, w, cur, p). length p)")
    (auto simp del: copy_comp.simps skip_slashes.simps dest: lookup_progress)

definition vfs_lookup ::
    "(string \<Rightarrow> 'a vfs_scheme vfs_ops) \<Rightarrow> 'a vfs_scheme \<Rightarrow> bytes \<Rightarrow>
     ('a vfs_scheme \<times> static_ptr option \<times> int) option" where
  "vfs_lookup ops w path = do {
     found \<leftarrow> vfs_find_mount w path;
     (case found of
        None \<Rightarrow> Some (w, None, - 1)
      | Some (i, relpath) \<Rightarrow>
          (case root_node (mounts w ! i) of
             None \<Rightarrow> Some (w, None, - 1)
           | Some root \<Rightarrow> lookup_loop ops w root relpath))
   }"

section \<open>Opening\<close>

text \<open>The directory part of a path in \<open>dirpath[128]\<close>, and the file name.\<close>

definition split_path :: "bytes \<Rightarrow> (bytes \<times> bytes) option" where
  "split_path path = do {
     last_slash \<leftarrow> kstrrchr (Some path) 47;
     (case last_slash of
        Some s \<Rightarrow>
          let dirlen = length path - length s;
              dirlen = (if dirlen = 0 then 1 else dirlen)
          in do {
            dirpath \<leftarrow> kstrncpy (Some (replicate 128 0)) (Some path) (dirlen + 1);
            Some (the dirpath, drop 1 s)
          }
      | None \<Rightarrow> do {
          dirpath \<leftarrow> kstrncpy (Some (replicate 128 0)) (Some [47, 0]) 128;
          Some (the dirpath, path)
        })
   }"

definition vfs_create_at ::
    "(string \<Rightarrow> 'a vfs_scheme vfs_ops) \<Rightarrow> 'a vfs_scheme \<Rightarrow> bytes \<Rightarrow> int \<Rightarrow>
     ('a vfs_scheme \<times> static_ptr option \<times> int) option" where
  "vfs_create_at ops w path mode = do {
     (dirpath, filename) \<leftarrow> split_path path;
     (w, parent_dir, res) \<leftarrow> vfs_lookup ops w dirpath;
     (case (if res = 0 then parent_dir else None) of
        None \<Rightarrow> Some (w, None, - 1)
      | Some dir \<Rightarrow>
          (case (case vn_ops (vnodes w dir) of None \<Rightarrow> None | Some t \<Rightarrow> op_create (ops t)) of
             None \<Rightarrow> Some (w, None, - 1)
           | Some create \<Rightarrow> do {
               (w, new_node, r) \<leftarrow> create w dir filename mode;
               (case (if r = 0 then new_node else None) of
                  None \<Rightarrow> Some (w, None, - 1)
                | Some n \<Rightarrow> Some (set_refcount w n (vn_refcount (vnodes w n) + 1), Some n, 0))
             }))
   }"

definition vfs_open ::
    "(string \<Rightarrow> 'a vfs_scheme vfs_ops) \<Rightarrow> 'a vfs_scheme \<Rightarrow> bytes \<Rightarrow> int \<Rightarrow> int \<Rightarrow>
     ('a vfs_scheme \<times> static_ptr option \<times> int) option" where
  "vfs_open ops w path flags mode = do {
     (w, node, res) \<leftarrow> vfs_lookup ops w path;
     (case (if res = 0 then node else None) of
        Some n \<Rightarrow> do {
          (w, r) \<leftarrow> (case (case vn_ops (vnodes w n) of None \<Rightarrow> None | Some t \<Rightarrow> op_open (ops t)) of
             None \<Rightarrow> Some (w, 0)
           | Some open_op \<Rightarrow> open_op w n flags);
          if r \<noteq> 0 then Some (w, None, - 1)
          else Some (set_refcount w n (vn_refcount (vnodes w n) + 1), Some n, 0)
        }
      | None \<Rightarrow> if flags AND VFS_O_CREAT \<noteq> 0 then vfs_create_at ops w path mode else Some (w, None, - 1))
   }"

section \<open>File descriptors\<close>

definition fd_zero :: file_desc where
  "fd_zero = \<lparr>fd_node = None, fd_offset = 0, fd_flags = 0, fd_in_use = False\<rparr>"

definition fd_table_init :: "file_desc list" where
  "fd_table_init = replicate VFS_MAX_FD fd_zero"

definition fd_alloc :: "'a vfs_scheme \<Rightarrow> file_desc list \<Rightarrow> static_ptr option \<Rightarrow> int \<Rightarrow> file_desc list \<times> int" where
  "fd_alloc w table node flags =
     (case node of
        None \<Rightarrow> (table, - 1)
      | Some n \<Rightarrow>
          (case scan (\<lambda>d. \<not> fd_in_use d) (drop 3 table) of
             None \<Rightarrow> (table, - 1)
           | Some i \<Rightarrow>
               (table[3 + i := \<lparr>fd_node = Some n,
                  fd_offset = (if flags AND VFS_O_APPEND \<noteq> 0 then vn_size (vnodes w n) else 0),
                  fd_flags = flags, fd_in_use = True\<rparr>], int (3 + i))))"

definition fd_free ::
    "(string \<Rightarrow> 'a vfs_scheme vfs_ops) \<Rightarrow> 'a vfs_scheme \<Rightarrow> file_desc list \<Rightarrow> int \<Rightarrow>
     ('a vfs_scheme \<times> file_desc list \<times> int) option" where
  "fd_free ops w table fd =
     (if fd < 3 \<or> int VFS_MAX_FD \<le> fd \<or> \<not> fd_in_use (table ! nat fd) then Some (w, table, - 1)
      else do {
        w \<leftarrow> (case fd_node (table ! nat fd) of
            None \<Rightarrow> Some w
          | Some n \<Rightarrow> do {
              w \<leftarrow> (case (case vn_ops (vnodes w n) of None \<Rightarrow> None | Some t \<Rightarrow> op_close (ops t)) of
                  None \<Rightarrow> Some w
                | Some close_op \<Rightarrow> map_option fst (close_op w n));
              Some (if 0 < vn_refcount (vnodes w n) then set_refcount w n (vn_refcount (vnodes w n) - 1) else w)
            });
        Some (w, table[nat fd := fd_zero], 0)
      })"

definition fd_get :: "file_desc list \<Rightarrow> int \<Rightarrow> nat option" where
  "fd_get table fd =
     (if fd < 0 \<or> int VFS_MAX_FD \<le> fd \<or> \<not> fd_in_use (table ! nat fd) then None else Some (nat fd))"

definition clone_ref :: "file_desc \<Rightarrow> 'a vfs_scheme \<Rightarrow> 'a vfs_scheme" where
  "clone_ref d w =
     (case fd_node d of
        Some n \<Rightarrow> if fd_in_use d then set_refcount w n (vn_refcount (vnodes w n) + 1) else w
      | None \<Rightarrow> w)"

definition fd_table_clone :: "'a vfs_scheme \<Rightarrow> file_desc list \<Rightarrow> 'a vfs_scheme \<times> file_desc list" where
  "fd_table_clone w src = (fold clone_ref (take VFS_MAX_FD src) w, take VFS_MAX_FD src)"

section \<open>The mount that serves a path\<close>

definition vfs_ok :: "'a vfs_scheme \<Rightarrow> bool" where
  "vfs_ok w \<longleftrightarrow> length (mounts w) = VFS_MAX_MOUNTS \<and> mount_count w \<le> VFS_MAX_MOUNTS \<and>
     (\<forall>m \<in> set (mounts w). length (mountpoint m) = 64) \<and>
     (\<forall>i < mount_count w. nul_term (mountpoint (mounts w ! i)) \<and> root_node (mounts w ! i) \<noteq> None)"

lemma vfs_init_ok: "vfs_ok (vfs_init w)"
  by (simp add: vfs_ok_def vfs_init_def mount_zero_def)

lemma vfs_mount_ok:
  assumes "vfs_ok w" and "nul_term mp" and "vfs_mount w (Some mp) fstype dev root = Some (w', r)"
  shows "vfs_ok w'"
proof (cases "root = None \<or> VFS_MAX_MOUNTS \<le> mount_count w")
  case True
  then show ?thesis
    using assms by (auto simp: vfs_mount_def)
next
  case False
  let ?old = "mountpoint (mounts w ! mount_count w)"
  have old: "length ?old = 64"
    using assms(1) False by (auto simp: vfs_ok_def)
  then obtain new where new: "kstrncpy (Some ?old) (Some mp) 64 = Some (Some new)" "length new = 64" "nul_term new"
    using kstrncpy_loop_eq [OF assms(2), of 64 ?old] by auto
  then have "w' = w\<lparr>mounts := (mounts w)[mount_count w :=
      \<lparr>mountpoint = new, root_node = root, fs_type = fstype, mount_dev = dev\<rparr>], mount_count := mount_count w + 1\<rparr>"
    using assms(3) False by (auto simp: vfs_mount_def)
  then show ?thesis
    using assms(1) False new by (auto simp: vfs_ok_def nth_list_update less_Suc_eq dest: set_update_subset_insert [THEN subsetD])
qed

definition mlen :: "vfs_mount_t \<Rightarrow> nat" where
  "mlen m = length (cval (mountpoint m))"

text \<open>A mount point is a prefix of the path that ends at a component boundary.\<close>

definition mount_matches :: "bytes \<Rightarrow> vfs_mount_t \<Rightarrow> bool" where
  "mount_matches s m \<longleftrightarrow> take (mlen m) s = cval (mountpoint m) \<and>
     (mlen m = 1 \<or> length s = mlen m \<or> s ! mlen m = 47)"

lemma cval_at:
  assumes "nul_term p" and "k \<le> length (cval p)"
  shows "at_idx p k = Some (if k = length (cval p) then 0 else cval p ! k)"
proof -
  obtain rest where "p = cval p @ 0 # rest"
    using cval_prefix [OF assms(1)] by blast
  then obtain s where s: "p = s @ 0 # rest" "cval p = s"
    by metis
  then show ?thesis
    using assms(2) by (auto simp: nth_append at_idx_def)
qed

lemma mount_test:
  assumes "nul_term path" and "nul_term (mountpoint m)"
  obtains r where "kstrncmp (Some path) (Some (mountpoint m)) (mlen m) = Some r"
    and "r = 0 \<longrightarrow> (\<exists>c. at_idx path (mlen m) = Some c \<and> ((c = 47 \<or> c = 0 \<or> mlen m = 1) \<longleftrightarrow> mount_matches (cval path) m))"
    and "r \<noteq> 0 \<longrightarrow> \<not> mount_matches (cval path) m"
proof -
  obtain r where r: "kstrncmp (Some path) (Some (mountpoint m)) (mlen m) = Some r"
    "r = 0 \<longleftrightarrow> take (mlen m) (cval path) = take (mlen m) (cval (mountpoint m))"
    using kstrncmp_zero_iff [OF assms] by blast
  have mp: "take (mlen m) (cval (mountpoint m)) = cval (mountpoint m)"
    by (simp add: mlen_def)
  show thesis
  proof (rule that [OF r(1)]; rule impI)
    assume "r = 0"
    then have pre: "take (mlen m) (cval path) = cval (mountpoint m)"
      using r(2) mp by simp
    then have "mlen m \<le> length (cval path)"
      by (metis length_take min.absorb_iff2 min.commute mlen_def)
    moreover have "cval path ! mlen m \<noteq> 0" if "mlen m < length (cval path)"
      using cval_no_nul [of path] that nth_mem by metis
    ultimately show "\<exists>c. at_idx path (mlen m) = Some c \<and> ((c = 47 \<or> c = 0 \<or> mlen m = 1) \<longleftrightarrow> mount_matches (cval path) m)"
      using pre cval_at [OF assms(1), of "mlen m"] by (auto simp: mount_matches_def)
  next
    assume "r \<noteq> 0"
    then show "\<not> mount_matches (cval path) m"
      using r(2) mp by (auto simp: mount_matches_def)
  qed
qed

lemma find_mount_loop_step:
  assumes "nul_term path" and "nul_term (mountpoint m)"
  shows "find_mount_loop path i (m # ms) (b, bl) = find_mount_loop path (i + 1) ms
    (if mount_matches (cval path) m \<and> bl \<le> mlen m then (Some i, mlen m) else (b, bl))"
proof -
  have len: "kstrlen (Some (mountpoint m)) = Some (mlen m)"
    using kstrlen_cval [OF assms(2)] by (simp add: mlen_def)
  obtain r where "kstrncmp (Some path) (Some (mountpoint m)) (mlen m) = Some r"
    "r = 0 \<longrightarrow> (\<exists>c. at_idx path (mlen m) = Some c \<and> ((c = 47 \<or> c = 0 \<or> mlen m = 1) \<longleftrightarrow> mount_matches (cval path) m))"
    "r \<noteq> 0 \<longrightarrow> \<not> mount_matches (cval path) m"
    by (rule mount_test [OF assms])
  then show ?thesis
    using len by (cases "r = 0") (auto simp: at_idx_less simp del: kstrlen.simps kstrncmp.simps)
qed

definition serves :: "bytes \<Rightarrow> vfs_mount_t list \<Rightarrow> nat \<Rightarrow> bool" where
  "serves s ms k \<longleftrightarrow> k < length ms \<and> mount_matches s (ms ! k) \<and>
     (\<forall>j < length ms. mount_matches s (ms ! j) \<longrightarrow>
        mlen (ms ! j) \<le> mlen (ms ! k) \<and> (k < j \<longrightarrow> mlen (ms ! j) < mlen (ms ! k)))"

lemma serves_unique: "serves s ms i \<Longrightarrow> serves s ms j \<Longrightarrow> i = j"
  unfolding serves_def by (metis less_le_not_le linorder_neqE_nat)

lemma find_mount_loop_spec:
  assumes "nul_term path" and "\<forall>m \<in> set ms. nul_term (mountpoint m)"
  shows "\<exists>b' bl'. find_mount_loop path i ms (b, bl) = Some (b', bl') \<and>
    (if \<exists>m \<in> set ms. mount_matches (cval path) m \<and> bl \<le> mlen m
     then \<exists>k. b' = Some (i + k) \<and> serves (cval path) ms k \<and> bl' = mlen (ms ! k) \<and> bl \<le> bl'
     else b' = b \<and> bl' = bl)"
  using assms(2)
proof (induction ms arbitrary: i b bl)
  case (Cons m ms)
  let ?hit = "mount_matches (cval path) m \<and> bl \<le> mlen m"
  let ?b = "if ?hit then Some i else b" and ?bl = "if ?hit then mlen m else bl"
  obtain b' bl' where ih: "find_mount_loop path (i + 1) ms (?b, ?bl) = Some (b', bl')"
    "if \<exists>m \<in> set ms. mount_matches (cval path) m \<and> ?bl \<le> mlen m
     then \<exists>k. b' = Some (i + 1 + k) \<and> serves (cval path) ms k \<and> bl' = mlen (ms ! k) \<and> ?bl \<le> bl'
     else b' = ?b \<and> bl' = ?bl"
    using Cons.IH [of "i + 1" ?b ?bl] Cons.prems by fastforce
  have eq: "find_mount_loop path i (m # ms) (b, bl) = Some (b', bl')"
    using find_mount_loop_step [OF assms(1)] Cons.prems ih(1) by (auto split: if_splits)
  show ?case
  proof (cases "\<exists>m \<in> set ms. mount_matches (cval path) m \<and> ?bl \<le> mlen m")
    case True
    then obtain k where k: "b' = Some (i + 1 + k)" "serves (cval path) ms k" "bl' = mlen (ms ! k)" "?bl \<le> bl'"
      using ih(2) by auto
    moreover have "serves (cval path) (m # ms) (Suc k)"
      using k by (auto simp: serves_def nth_Cons split: nat.splits if_splits)
    ultimately show ?thesis
      using eq by (auto intro!: exI [of _ "Suc k"] simp: serves_def split: if_splits)
  next
    case False
    then have "b' = ?b" "bl' = ?bl"
      using ih(2) by auto
    moreover have "serves (cval path) (m # ms) 0" if ?hit
      using that False by (auto simp: serves_def nth_Cons not_le split: nat.splits)
    moreover have "\<not> (\<exists>m \<in> set (m # ms). mount_matches (cval path) m \<and> bl \<le> mlen m)" if "\<not> ?hit"
      using that False by auto
    ultimately show ?thesis
      using eq by (cases ?hit) auto
  qed
qed simp

lemma skip_slashes_eq: "nul_term p \<Longrightarrow> skip_slashes p = Some (dropWhile (\<lambda>c. c = 47) p)"
  by (induction p) auto

lemma nul_term_dropWhile: "nul_term p \<Longrightarrow> \<not> P 0 \<Longrightarrow> nul_term (dropWhile P p)"
  by (induction p) auto

lemma cval_dropWhile: "\<not> P 0 \<Longrightarrow> cval (dropWhile P p) = dropWhile P (cval p)"
  by (induction p) auto

lemma nul_term_drop: "nul_term p \<Longrightarrow> k \<le> length (cval p) \<Longrightarrow> nul_term (drop k p)"
  by (induction p arbitrary: k) (auto simp: drop_Cons' split: if_splits)

lemma cval_drop: "k \<le> length (cval p) \<Longrightarrow> cval (drop k p) = drop k (cval p)"
  by (induction p arbitrary: k) (auto simp: drop_Cons' split: if_splits)

lemma serves_prefix_len: "serves s ms k \<Longrightarrow> mlen (ms ! k) \<le> length s"
  unfolding serves_def mount_matches_def mlen_def by (metis length_take min.cobounded1)

lemma vfs_find_mount_spec:
  assumes "vfs_ok w" and "nul_term path"
  shows "vfs_find_mount w path = Some None \<and> (\<forall>i < mount_count w. \<not> mount_matches (cval path) (mounts w ! i)) \<or>
    (\<exists>i rel. vfs_find_mount w path = Some (Some (i, rel)) \<and> serves (cval path) (take (mount_count w) (mounts w)) i \<and>
      nul_term rel \<and> cval rel = dropWhile (\<lambda>c. c = 47) (drop (mlen (mounts w ! i)) (cval path)))"
proof -
  let ?ms = "take (mount_count w) (mounts w)"
  have len: "length ?ms = mount_count w"
    using assms(1) by (auto simp: vfs_ok_def)
  have "\<forall>m \<in> set ?ms. nul_term (mountpoint m)"
    using assms(1) by (auto simp: vfs_ok_def in_set_conv_nth)
  from find_mount_loop_spec [OF assms(2) this, of 0 None 0]
  obtain b bl where loop: "find_mount_loop path 0 ?ms (None, 0) = Some (b, bl)"
    "if \<exists>m \<in> set ?ms. mount_matches (cval path) m \<and> 0 \<le> mlen m
     then \<exists>k. b = Some (0 + k) \<and> serves (cval path) ?ms k \<and> bl = mlen (?ms ! k) \<and> 0 \<le> bl
     else b = None \<and> bl = 0"
    by blast
  show ?thesis
  proof (cases "\<exists>m \<in> set ?ms. mount_matches (cval path) m")
    case True
    then obtain k where k: "b = Some k" "serves (cval path) ?ms k" "bl = mlen (?ms ! k)"
      using loop(2) by auto
    have le: "bl \<le> length (cval path)"
      using serves_prefix_len [OF k(2)] k(3) by simp
    define rel where "rel = dropWhile (\<lambda>c. c = 47) (drop bl path)"
    have rel: "skip_slashes (drop bl path) = Some rel" "nul_term rel"
      "cval rel = dropWhile (\<lambda>c. c = 47) (drop bl (cval path))"
      using nul_term_drop [OF assms(2) le]
      by (simp_all add: rel_def skip_slashes_eq nul_term_dropWhile cval_dropWhile cval_drop [OF le])
    have "?ms ! k = mounts w ! k"
      using k(2) by (simp add: serves_def)
    then show ?thesis
      using loop(1) k rel by (auto simp: vfs_find_mount_def)
  next
    case False
    then have "\<not> mount_matches (cval path) (mounts w ! i)" if "i < mount_count w" for i
      using nth_mem [of i ?ms] len that by auto
    then show ?thesis
      using loop False by (simp add: vfs_find_mount_def)
  qed
qed

section \<open>Lookup as a walk\<close>

text \<open>The components of a path, and the walk that follows them with \<open>finddir\<close>.\<close>

lemma dropWhile_shorter:
  assumes "dropWhile (\<lambda>c. c = b) s = c # t"
  shows "length (dropWhile (\<lambda>c. c \<noteq> b) (c # t)) < length s"
proof -
  have "c \<noteq> b"
    using assms by (induction s) (auto split: if_splits)
  moreover have "length (c # t) \<le> length s"
    using length_dropWhile_le [of "\<lambda>c. c = b" s] assms by simp
  ultimately show ?thesis
    using length_dropWhile_le [of "\<lambda>c. c \<noteq> b" t] by simp
qed

function path_comps :: "bytes \<Rightarrow> bytes list" where
  "path_comps s =
     (case dropWhile (\<lambda>c. c = 47) s of
        [] \<Rightarrow> []
      | t \<Rightarrow> takeWhile (\<lambda>c. c \<noteq> 47) t # path_comps (dropWhile (\<lambda>c. c \<noteq> 47) t))"
  by pat_completeness auto
termination
  by (relation "measure length") (simp_all add: dropWhile_shorter del: dropWhile.simps)

declare path_comps.simps [simp del]

lemma path_comps_skip: "path_comps (dropWhile (\<lambda>c. c = 47) s) = path_comps s"
  by (subst (1 2) path_comps.simps) simp

fun walk_comps ::
    "(string \<Rightarrow> 'a vfs_scheme vfs_ops) \<Rightarrow> 'a vfs_scheme \<Rightarrow> static_ptr \<Rightarrow> bytes list \<Rightarrow>
     ('a vfs_scheme \<times> static_ptr option \<times> int) option" where
  "walk_comps ops w cur [] = Some (w, Some cur, 0)"
| "walk_comps ops w cur (c # cs) =
     (case finddir_of ops (vnodes w cur) of
        None \<Rightarrow> Some (w, None, - 1)
      | Some finddir \<Rightarrow>
          (case finddir w cur (c @ [0]) of
             None \<Rightarrow> None
           | Some (w', child, res) \<Rightarrow>
               if res \<noteq> 0 \<or> child = None then Some (w', None, - 1) else walk_comps ops w' (the child) cs))"

abbreviation in_comp :: "u8 \<Rightarrow> bool" where
  "in_comp c \<equiv> c \<noteq> 0 \<and> c \<noteq> 47"

lemma copy_comp_eq:
  "nul_term p \<Longrightarrow> i + length (takeWhile in_comp p) \<le> 127 \<Longrightarrow>
    copy_comp i p = Some (takeWhile in_comp p, dropWhile in_comp p)"
  by (induction p arbitrary: i) auto

lemma takeWhile_cval: "takeWhile (\<lambda>c. c \<noteq> 47) (cval p) = takeWhile in_comp p"
  by (induction p) auto

lemma dropWhile_cval: "dropWhile (\<lambda>c. c \<noteq> 47) (cval p) = cval (dropWhile in_comp p)"
  by (induction p) auto

lemma lookup_loop_walk:
  assumes "nul_term p" and "\<forall>c \<in> set (path_comps (cval p)). length c < 128"
  shows "lookup_loop ops w cur p = walk_comps ops w cur (path_comps (cval p))"
  using assms
proof (induction p arbitrary: w cur rule: length_induct)
  case (1 p)
  define q where "q = dropWhile (\<lambda>c. c = 47) p"
  have q: "skip_slashes p = Some q" "nul_term q" "path_comps (cval p) = path_comps (cval q)"
    using 1(2) path_comps_skip [of "cval p"]
    by (simp_all add: q_def skip_slashes_eq nul_term_dropWhile cval_dropWhile)
  obtain c p' where p: "p = c # p'"
    using 1(2) by (cases p) auto
  obtain d q' where dq: "q = d # q'"
    using q(2) by (cases q) auto
  have d: "d \<noteq> 47"
    using q(1) dq skip_slashes_head by metis
  show ?case
  proof (cases "d = 0")
    case True
    then have "path_comps (cval p) = []"
      using q(3) dq by (simp add: path_comps.simps)
    then show ?thesis
      using p q(1) dq True by (auto simp: q_def)
  next
    case False
    let ?rest = "dropWhile in_comp q" and ?name = "takeWhile in_comp q"
    have "dropWhile (\<lambda>c. c = 47) (cval q) = cval q"
      using dq d False by simp
    then have "path_comps (cval q) = takeWhile (\<lambda>c. c \<noteq> 47) (cval q) # path_comps (dropWhile (\<lambda>c. c \<noteq> 47) (cval q))"
      using dq False by (subst path_comps.simps) simp
    then have comps: "path_comps (cval p) = ?name # path_comps (cval ?rest)"
      by (simp only: q(3) takeWhile_cval dropWhile_cval)
    have short: "length ?name < 128" "\<forall>c \<in> set (path_comps (cval ?rest)). length c < 128"
      using 1(3) unfolding comps by simp_all
    then have copy: "copy_comp 0 q = Some (?name, ?rest)"
      using copy_comp_eq [OF q(2), of 0] by simp
    have "length ?rest < length p"
      by (rule lookup_progress [OF q(1) [unfolded dq] copy [unfolded dq] False, folded dq])
    then have walk: "lookup_loop ops w' n ?rest = walk_comps ops w' n (path_comps (cval ?rest))" for w' n
      using 1(1) short(2) nul_term_dropWhile [OF q(2), of in_comp] by blast
    have "c \<noteq> 0"
      using p dq False by (auto simp: q_def split: if_splits)
    then show ?thesis
      using walk copy p q(1) dq False comps
      by (auto simp del: copy_comp.simps skip_slashes.simps takeWhile.simps dropWhile.simps split: option.splits)
  qed
qed

section \<open>Descriptor tables\<close>

text \<open>
  The contract of a descriptor table: a table acts as a partial map from descriptors to
  descriptions, allocation picks a free descriptor above the three reserved ones, and
  releasing one forgets it.
\<close>

locale descriptor_table =
  fixes ok :: "'t \<Rightarrow> bool" and get :: "'t \<Rightarrow> int \<Rightarrow> 'd option" and alloc :: "'t \<Rightarrow> 'n \<Rightarrow> 't \<times> int"
    and desc :: "'n \<Rightarrow> 'd" and release :: "'t \<Rightarrow> int \<Rightarrow> 't"
  assumes alloc_law: "ok t \<Longrightarrow> alloc t n = (t', fd) \<Longrightarrow> 0 \<le> fd \<Longrightarrow>
      ok t' \<and> 3 \<le> fd \<and> get t fd = None \<and> get t' = (get t)(fd := Some (desc n))"
    and alloc_full: "alloc t n = (t', fd) \<Longrightarrow> fd < 0 \<Longrightarrow> t' = t"
    and release_law: "ok t \<Longrightarrow> 3 \<le> fd \<Longrightarrow> ok (release t fd) \<and> get (release t fd) = (get t)(fd := None)"
begin

lemma alloc_release_id:
  assumes "ok t" and "alloc t n = (t', fd)" and "0 \<le> fd"
  shows "get (release t' fd) = get t"
  using alloc_law [OF assms] release_law [of t' fd] by auto

lemma alloc_distinct:
  assumes "ok t" and "alloc t n = (t1, a)" and "alloc t1 m = (t2, b)" and "0 \<le> a" and "0 \<le> b"
  shows "a \<noteq> b" and "get t2 a = Some (desc n)" and "get t2 b = Some (desc m)"
proof -
  have 1: "ok t1" "get t1 = (get t)(a := Some (desc n))"
    using alloc_law [OF assms(1, 2, 4)] by auto
  have 2: "get t1 b = None" "get t2 = (get t1)(b := Some (desc m))"
    using alloc_law [OF 1(1) assms(3, 5)] by auto
  show "a \<noteq> b" "get t2 a = Some (desc n)" "get t2 b = Some (desc m)"
    using 1(2) 2 by auto
qed

end

definition fd_desc :: "file_desc list \<Rightarrow> int \<Rightarrow> file_desc option" where
  "fd_desc t fd = map_option (\<lambda>i. t ! i) (fd_get t fd)"

definition new_desc :: "'a vfs_scheme \<Rightarrow> static_ptr \<times> int \<Rightarrow> file_desc" where
  "new_desc w = (\<lambda>(n, flags). \<lparr>fd_node = Some n,
     fd_offset = (if flags AND VFS_O_APPEND \<noteq> 0 then vn_size (vnodes w n) else 0),
     fd_flags = flags, fd_in_use = True\<rparr>)"

definition fd_release :: "file_desc list \<Rightarrow> int \<Rightarrow> file_desc list" where
  "fd_release t fd = (if fd < 3 \<or> int VFS_MAX_FD \<le> fd \<or> \<not> fd_in_use (t ! nat fd) then t else t[nat fd := fd_zero])"

lemma fd_free_table: "fd_free ops w t fd = Some (w', t', r) \<Longrightarrow> t' = fd_release t fd"
  by (auto simp: fd_free_def fd_release_def split: if_splits bind_splits)

lemma fd_alloc_cases:
  assumes "length t = VFS_MAX_FD"
  obtains i where "3 \<le> i" "i < VFS_MAX_FD" "\<not> fd_in_use (t ! i)" "\<forall>j. 3 \<le> j \<and> j < i \<longrightarrow> fd_in_use (t ! j)"
      "fd_alloc w t (Some n) flags = (t[i := new_desc w (n, flags)], int i)"
    | "\<forall>i. 3 \<le> i \<and> i < VFS_MAX_FD \<longrightarrow> fd_in_use (t ! i)" "fd_alloc w t (Some n) flags = (t, - 1)"
proof (cases "scan (\<lambda>d. \<not> fd_in_use d) (drop 3 t)")
  case None
  have "fd_in_use (t ! i)" if "3 \<le> i" "i < VFS_MAX_FD" for i
    using scan_None_nth [OF None, of "i - 3"] assms that by (simp add: VFS_MAX_FD_def)
  then show thesis
    using None that(2) by (simp add: fd_alloc_def)
next
  case (Some k)
  have "fd_in_use (t ! j)" if "3 \<le> j" "j < 3 + k" for j
    using scan_SomeD(3) [OF Some, of "j - 3"] scan_SomeD(1) [OF Some] assms that by (simp add: VFS_MAX_FD_def)
  then show thesis
    using that(1) [of "3 + k"] scan_SomeD(1, 2) [OF Some] assms Some
    by (auto simp: fd_alloc_def new_desc_def VFS_MAX_FD_def)
qed

lemma fd_desc_update:
  assumes "length t = VFS_MAX_FD" and "i < VFS_MAX_FD"
  shows "fd_desc (t[i := d]) = (fd_desc t)(int i := if fd_in_use d then Some d else None)"
  using assms by (auto simp: fd_desc_def fd_get_def nth_list_update fun_eq_iff)

interpretation fdt: descriptor_table "\<lambda>t. length t = VFS_MAX_FD" fd_desc "\<lambda>t (n, flags). fd_alloc w t (Some n) flags"
  "new_desc w" fd_release for w
proof (unfold_locales, goal_cases)
  case (1 t n t' fd)
  obtain a flags where n: "n = (a, flags)" by (cases n)
  have len: "length t = VFS_MAX_FD" using 1 by simp
  show ?case
  proof (cases rule: fd_alloc_cases [OF len, of w a flags])
    case (1 i)
    moreover have "fd_in_use (new_desc w n)"
      by (simp add: n new_desc_def)
    ultimately show ?thesis
      using \<open>(case n of (n, flags) \<Rightarrow> fd_alloc w t (Some n) flags) = (t', fd)\<close> n len
      by (auto simp: fd_desc_update) (simp add: fd_desc_def fd_get_def)
  next
    case 2
    then show ?thesis
      using \<open>(case n of (n, flags) \<Rightarrow> fd_alloc w t (Some n) flags) = (t', fd)\<close> n \<open>0 \<le> fd\<close> by simp
  qed
next
  case (2 t n t' fd)
  then show ?case
    by (auto simp: fd_alloc_def split: prod.splits option.splits)
next
  case (3 t fd)
  then show ?case
    using fd_desc_update [of t "nat fd" fd_zero]
    by (auto simp: fd_release_def fd_zero_def) (auto simp: fd_desc_def fd_get_def)
qed

section \<open>Reference counts\<close>

definition refs :: "'a vfs_scheme \<Rightarrow> static_ptr \<Rightarrow> int" where
  "refs w n = vn_refcount (vnodes w n)"

lemma refs_set_refcount [simp]: "refs (set_refcount w n r) = (refs w)(n := r)"
  by (auto simp: refs_def set_refcount_def)

lemma set_refcount_simps [simp]:
  "mounts (set_refcount w n r) = mounts w" "mount_count (set_refcount w n r) = mount_count w"
  by (simp_all add: set_refcount_def)

text \<open>The descriptors of a table that refer to a node.\<close>

definition node_refs :: "file_desc list \<Rightarrow> static_ptr \<Rightarrow> int" where
  "node_refs t n = int (length (filter (\<lambda>d. fd_in_use d \<and> fd_node d = Some n) t))"

definition total_refs :: "file_desc list list \<Rightarrow> static_ptr \<Rightarrow> int" where
  "total_refs ts n = (\<Sum>t \<leftarrow> ts. node_refs t n)"

lemma node_refs_Cons: "node_refs (d # t) n = (if fd_in_use d \<and> fd_node d = Some n then 1 else 0) + node_refs t n"
  by (simp add: node_refs_def)

lemma node_refs_nonneg [simp]: "0 \<le> node_refs t n"
  by (simp add: node_refs_def)

lemma total_refs_nonneg: "0 \<le> total_refs ts n"
  by (induction ts) (simp_all add: total_refs_def)

lemma node_refs_update:
  "i < length t \<Longrightarrow> node_refs (t[i := d]) n = node_refs t n -
     (if fd_in_use (t ! i) \<and> fd_node (t ! i) = Some n then 1 else 0) +
     (if fd_in_use d \<and> fd_node d = Some n then 1 else 0)"
  by (induction t arbitrary: i) (auto simp: node_refs_Cons nth_Cons split: nat.splits)

lemma total_refs_update:
  "p < length ts \<Longrightarrow> total_refs (ts[p := t]) n = total_refs ts n - node_refs (ts ! p) n + node_refs t n"
  by (induction ts arbitrary: p) (auto simp: total_refs_def nth_Cons split: nat.splits)

lemma total_refs_le: "p < length ts \<Longrightarrow> node_refs (ts ! p) n \<le> total_refs ts n"
  using total_refs_nonneg [of "ts[p := []]" n] by (simp add: total_refs_update node_refs_def)

lemma refs_clone: "refs (fold clone_ref t w) n = refs w n + node_refs t n"
  by (induction t arbitrary: w) (auto simp: clone_ref_def node_refs_def refs_def set_refcount_def split: option.splits)

text \<open>
  What the operating system calls do to the node heap and the descriptor tables of the
  processes: \<open>open\<close> with its fallback when the table is full, \<open>close\<close>, and the copy of a table by
  \<open>fork\<close> and \<open>clone\<close>.
\<close>

definition sys_open :: "(string \<Rightarrow> 'a vfs_scheme vfs_ops) \<Rightarrow> 'a vfs_scheme \<Rightarrow> file_desc list \<Rightarrow> bytes \<Rightarrow> int \<Rightarrow> int \<Rightarrow>
    ('a vfs_scheme \<times> file_desc list \<times> int) option" where
  "sys_open ops w table path flags mode = do {
     (w, node, res) \<leftarrow> vfs_open ops w path flags mode;
     (case (if res = 0 then node else None) of
        None \<Rightarrow> Some (w, table, - 2)
      | Some n \<Rightarrow>
          let (table', fd) = fd_alloc w table (Some n) flags in
          if fd < 0 then
            Some (if 0 < vn_refcount (vnodes w n) then set_refcount w n (vn_refcount (vnodes w n) - 1) else w, table', - 24)
          else Some (w, table', fd))
   }"

inductive fd_step ::
    "(string \<Rightarrow> 'a vfs_scheme vfs_ops) \<Rightarrow> 'a vfs_scheme \<times> file_desc list list \<Rightarrow> 'a vfs_scheme \<times> file_desc list list \<Rightarrow> bool"
  for ops where
  step_open: "p < length ts \<Longrightarrow> sys_open ops w (ts ! p) path flags mode = Some (w', t', r) \<Longrightarrow>
    fd_step ops (w, ts) (w', ts[p := t'])"
| step_close: "p < length ts \<Longrightarrow> fd_free ops w (ts ! p) fd = Some (w', t', r) \<Longrightarrow> fd_step ops (w, ts) (w', ts[p := t'])"
| step_fork: "p < length ts \<Longrightarrow> fd_table_clone w (ts ! p) = (w', t') \<Longrightarrow> fd_step ops (w, ts) (w', ts @ [t'])"

inductive_cases fd_stepE: "fd_step ops (w, ts) s'"

text \<open>
  The contract of a file system: its operations keep its invariant, the reference counts, the
  mounts and the nodes in circulation (\<open>live\<close>), and hand out only nodes in circulation.
\<close>

locale filesystem =
  fixes ops :: "string \<Rightarrow> 'a vfs_scheme vfs_ops" and inv :: "'a vfs_scheme \<Rightarrow> bool"
    and live :: "'a vfs_scheme \<Rightarrow> static_ptr \<Rightarrow> bool"
  assumes finddir_law: "inv w \<Longrightarrow> live w d \<Longrightarrow> vn_ops (vnodes w d) = Some t \<Longrightarrow> op_finddir (ops t) = Some f \<Longrightarrow>
      f w d nm = Some (w', c, r) \<Longrightarrow> inv w' \<and> refs w' = refs w \<and> (\<forall>n. live w n \<longrightarrow> live w' n) \<and> (\<forall>n. c = Some n \<longrightarrow> live w' n)"
    and create_law: "inv w \<Longrightarrow> live w d \<Longrightarrow> vn_ops (vnodes w d) = Some t \<Longrightarrow> op_create (ops t) = Some g \<Longrightarrow>
      g w d nm mode = Some (w', c, r) \<Longrightarrow> inv w' \<and> refs w' = refs w \<and> (\<forall>n. live w n \<longrightarrow> live w' n) \<and> (\<forall>n. c = Some n \<longrightarrow> live w' n)"
    and open_law: "inv w \<Longrightarrow> live w d \<Longrightarrow> vn_ops (vnodes w d) = Some t \<Longrightarrow> op_open (ops t) = Some h \<Longrightarrow>
      h w d flags = Some (w', r) \<Longrightarrow> inv w' \<and> refs w' = refs w \<and> (\<forall>n. live w n \<longrightarrow> live w' n)"
    and close_law: "inv w \<Longrightarrow> live w d \<Longrightarrow> vn_ops (vnodes w d) = Some t \<Longrightarrow> op_close (ops t) = Some k \<Longrightarrow>
      k w d = Some (w', r) \<Longrightarrow> inv w' \<and> refs w' = refs w \<and> (\<forall>n. live w n \<longrightarrow> live w' n)"
    and refcount_law: "inv w \<Longrightarrow> live w n \<Longrightarrow> inv (set_refcount w n r) \<and> (\<forall>m. live w m \<longrightarrow> live (set_refcount w n r) m)"
    and root_law: "inv w \<Longrightarrow> vfs_find_mount w path = Some (Some (i, rel)) \<Longrightarrow>
      root_node (mounts w ! i) = Some root \<Longrightarrow> live w root"
begin

definition stable :: "'a vfs_scheme \<Rightarrow> 'a vfs_scheme \<Rightarrow> bool" where
  "stable w w' \<longleftrightarrow> inv w' \<and> refs w' = refs w \<and> (\<forall>n. live w n \<longrightarrow> live w' n)"

lemma stable_trans: "stable w w1 \<Longrightarrow> stable w1 w2 \<Longrightarrow> stable w w2"
  by (auto simp: stable_def)

lemma lookup_loop_stable:
  "lookup_loop ops w cur p = Some (w', out, r) \<Longrightarrow> inv w \<Longrightarrow> live w cur \<Longrightarrow>
    stable w w' \<and> (\<forall>n. out = Some n \<longrightarrow> live w' n)"
proof (induction "length p" arbitrary: w cur p rule: less_induct)
  case less
  note res = less.prems(1)
  have base: "stable w w"
    using less.prems(2) by (simp add: stable_def)
  show ?case
  proof (cases p)
    case Nil
    then show ?thesis using res by simp
  next
    case (Cons c p')
    show ?thesis
    proof (cases "\<exists>d q nm rest f w1 n. c \<noteq> 0 \<and> skip_slashes p = Some (d # q) \<and> d \<noteq> 0 \<and>
        copy_comp 0 (d # q) = Some (nm, rest) \<and> finddir_of ops (vnodes w cur) = Some f \<and>
        f w cur (nm @ [0]) = Some (w1, Some n, 0)")
      case True
      then obtain d q nm rest f w1 n where st: "c \<noteq> 0" "skip_slashes p = Some (d # q)" "d \<noteq> 0"
        "copy_comp 0 (d # q) = Some (nm, rest)" "finddir_of ops (vnodes w cur) = Some f"
        "f w cur (nm @ [0]) = Some (w1, Some n, 0)" by blast
      obtain t where "vn_ops (vnodes w cur) = Some t" "op_finddir (ops t) = Some f"
        using st(5) by (auto simp: finddir_of_def split: option.splits)
      from finddir_law [OF less.prems(2, 3) this st(6)] have 1: "stable w w1" "live w1 n" "inv w1"
        by (auto simp: stable_def)
      have "lookup_loop ops w1 n rest = Some (w', out, r)"
        using res st Cons by (simp del: skip_slashes.simps copy_comp.simps)
      from less.hyps [OF lookup_progress [OF st(2, 4, 3)] this 1(3, 2)] show ?thesis
        using stable_trans [OF 1(1)] by blast
    next
      case False
      then have "(out = Some cur \<and> w' = w) \<or> (out = None \<and> (w' = w \<or>
          (\<exists>f nm c r. finddir_of ops (vnodes w cur) = Some f \<and> f w cur nm = Some (w', c, r))))"
        using res Cons by (fastforce simp del: skip_slashes.simps copy_comp.simps split: if_splits option.splits list.splits)
      then show ?thesis
        using base less.prems(2, 3) finddir_law [OF less.prems(2, 3)]
        by (auto simp: stable_def finddir_of_def split: option.splits)
    qed
  qed
qed

lemma lookup_stable:
  assumes "vfs_lookup ops w path = Some (w', out, r)" and "inv w"
  shows "stable w w' \<and> (\<forall>n. out = Some n \<longrightarrow> live w' n)"
proof -
  have "stable w w"
    using assms(2) by (simp add: stable_def)
  with assms show ?thesis
    using lookup_loop_stable root_law [OF assms(2)]
    by (auto simp: vfs_lookup_def split: bind_splits option.splits)
qed

definition opened :: "'a vfs_scheme \<Rightarrow> 'a vfs_scheme \<Rightarrow> static_ptr option \<Rightarrow> int \<Rightarrow> bool" where
  "opened w w' out r \<longleftrightarrow> inv w' \<and> (\<forall>n. live w n \<longrightarrow> live w' n) \<and> (\<forall>n. out = Some n \<longrightarrow> live w' n) \<and>
    (case out of Some n \<Rightarrow> r = 0 \<and> refs w' = (refs w)(n := refs w n + 1) | None \<Rightarrow> r = - 1 \<and> refs w' = refs w)"

lemma opened_fail: "stable w w' \<Longrightarrow> opened w w' None (- 1)"
  by (simp add: opened_def stable_def)

lemma opened_success:
  assumes "stable w w1" and "live w1 n" and "w' = set_refcount w1 n (vn_refcount (vnodes w1 n) + 1)"
  shows "opened w w' (Some n) 0"
  using assms refcount_law [of w1 n] by (auto simp: opened_def stable_def refs_def [symmetric])

lemma create_at_refs:
  assumes "vfs_create_at ops w path mode = Some (w', out, r)" and "inv w"
  shows "opened w w' out r"
proof -
  obtain dp fn w1 pd res where l: "split_path path = Some (dp, fn)" "vfs_lookup ops w dp = Some (w1, pd, res)"
    using assms(1) by (auto simp: vfs_create_at_def split: bind_splits)
  have st: "stable w w1" "\<And>n. pd = Some n \<Longrightarrow> live w1 n" "inv w1"
    using lookup_stable [OF l(2) assms(2)] by (auto simp: stable_def)
  note eq = assms(1) [unfolded vfs_create_at_def l(1) Option.bind.simps prod.case l(2)]
  show ?thesis
  proof (cases "\<exists>d t g w2 c q. res = 0 \<and> pd = Some d \<and> vn_ops (vnodes w1 d) = Some t \<and> op_create (ops t) = Some g \<and>
      g w1 d fn mode = Some (w2, c, q)")
    case True
    then obtain d t g w2 c q where g: "res = 0" "pd = Some d" "vn_ops (vnodes w1 d) = Some t"
      "op_create (ops t) = Some g" "g w1 d fn mode = Some (w2, c, q)" by blast
    have 2: "stable w w2" "\<And>n. c = Some n \<Longrightarrow> live w2 n"
      using create_law [OF st(3) st(2) [OF g(2)] g(3-5)] stable_trans [OF st(1)] by (auto simp: stable_def)
    show ?thesis
      using eq g 2 opened_success [OF 2(1)] opened_fail by (auto split: if_splits option.splits)
  next
    case False
    then show ?thesis
      using eq st opened_fail by (auto split: if_splits option.splits bind_splits)
  qed
qed

lemma open_refs:
  assumes "vfs_open ops w path flags mode = Some (w', out, r)" and "inv w"
  shows "opened w w' out r"
proof -
  obtain w1 nd res where l: "vfs_lookup ops w path = Some (w1, nd, res)"
    using assms(1) by (auto simp: vfs_open_def split: bind_splits)
  have st: "stable w w1" "\<And>n. nd = Some n \<Longrightarrow> live w1 n" "inv w1"
    using lookup_stable [OF l assms(2)] by (auto simp: stable_def)
  note eq = assms(1) [unfolded vfs_open_def l Option.bind.simps prod.case]
  show ?thesis
  proof (cases "if res = 0 then nd else None")
    case None
    have "opened w w' out r" if "vfs_create_at ops w1 path mode = Some (w', out, r)"
      using create_at_refs [OF that st(3)] st(1) by (auto simp: opened_def stable_def split: option.splits)
    then show ?thesis
      using eq None opened_fail [OF st(1)] by (auto split: if_splits)
  next
    case (Some n)
    then have n: "live w1 n" "(if res = 0 then nd else None) = Some n"
      using st(2) by (auto split: if_splits)
    obtain w2 q where o: "(case (case vn_ops (vnodes w1 n) of None \<Rightarrow> None | Some t \<Rightarrow> op_open (ops t)) of
        None \<Rightarrow> Some (w1, 0) | Some open_op \<Rightarrow> open_op w1 n flags) = Some (w2, q)"
      using eq Some by (auto split: bind_splits)
    have 2: "stable w w2" "live w2 n"
      using o st(1) n(1) open_law [OF st(3) n(1)] stable_trans [OF st(1), of w2]
      by (auto simp: stable_def split: option.splits)
    show ?thesis
      using eq n(2) o opened_success [OF 2] opened_fail [OF 2(1)] by (auto split: if_splits)
  qed
qed

definition balanced :: "'a vfs_scheme \<times> file_desc list list \<Rightarrow> bool" where
  "balanced = (\<lambda>(w, ts). inv w \<and> (\<forall>n. refs w n = total_refs ts n) \<and> (\<forall>t \<in> set ts. length t = VFS_MAX_FD) \<and>
     (\<forall>t \<in> set ts. \<forall>d \<in> set t. \<forall>n. fd_in_use d \<and> fd_node d = Some n \<longrightarrow> live w n))"

definition table_live :: "'a vfs_scheme \<Rightarrow> file_desc list \<Rightarrow> bool" where
  "table_live w t \<longleftrightarrow> length t = VFS_MAX_FD \<and> (\<forall>d \<in> set t. \<forall>n. fd_in_use d \<and> fd_node d = Some n \<longrightarrow> live w n)"

lemma balanced_update:
  assumes "balanced (w, ts)" and "p < length ts" and "inv w'" and "\<forall>n. live w n \<longrightarrow> live w' n"
    and "\<And>n. refs w' n = refs w n - node_refs (ts ! p) n + node_refs t' n" and "table_live w' t'"
  shows "balanced (w', ts[p := t'])"
  using assms set_update_subset_insert [of ts p t']
  by (auto simp: balanced_def table_live_def total_refs_update)

lemma table_live_at: "balanced (w, ts) \<Longrightarrow> p < length ts \<Longrightarrow> table_live w (ts ! p)"
  using nth_mem [of p ts] unfolding balanced_def table_live_def by fast

lemma table_live_update:
  assumes "table_live w t" and "\<forall>n. live w n \<longrightarrow> live w' n" and "\<forall>n. fd_in_use d \<and> fd_node d = Some n \<longrightarrow> live w' n"
  shows "table_live w' (t[i := d])"
  using assms set_update_subset_insert [of t i d]
  by (auto simp: table_live_def)

lemma balanced_open:
  assumes b: "balanced (w, ts)" and p: "p < length ts"
    and eq: "sys_open ops w (ts ! p) path flags mode = Some (w', t', r)"
  shows "balanced (w', ts[p := t'])"
proof -
  obtain w1 out res where l: "vfs_open ops w path flags mode = Some (w1, out, res)"
    using eq by (auto simp: sys_open_def split: bind_splits)
  have o: "opened w w1 out res"
    using open_refs [OF l] b by (simp add: balanced_def)
  have live: "table_live w (ts ! p)" "length (ts ! p) = VFS_MAX_FD"
    using table_live_at [OF b p] by (simp_all add: table_live_def)
  note eq = eq [unfolded sys_open_def l Option.bind.simps prod.case]
  show ?thesis
  proof (cases out)
    case None
    then have "w' = w1" "t' = ts ! p"
      using eq by auto
    then show ?thesis
      using balanced_update [OF b p, of w1 "ts ! p"] o None live(1)
      by (auto simp: opened_def table_live_def)
  next
    case (Some n)
    then have n: "res = 0" "live w1 n" "inv w1" "\<forall>n. live w n \<longrightarrow> live w1 n" "refs w1 = (refs w)(n := refs w n + 1)"
      using o by (auto simp: opened_def)
    show ?thesis
    proof (cases rule: fd_alloc_cases [OF live(2), of w1 n flags])
      case (1 i)
      then have w': "w' = w1" "t' = (ts ! p)[i := new_desc w1 (n, flags)]"
        using eq Some n(1) by auto
      have "table_live w1 t'"
        unfolding w' by (rule table_live_update [OF live(1) n(4)]) (use n(2) in \<open>auto simp: new_desc_def\<close>)
      moreover have "refs w1 m = refs w m - node_refs (ts ! p) m + node_refs t' m" for m
        using 1 live(2) n(5) by (simp add: w' node_refs_update new_desc_def)
      ultimately show ?thesis
        using balanced_update [OF b p n(3, 4)] w' by blast
    next
      case 2
      have "0 \<le> refs w n"
        using b total_refs_nonneg [of ts n] by (simp add: balanced_def)
      then have w': "w' = set_refcount w1 n (refs w n)" "t' = ts ! p"
        using eq Some n(1, 5) 2 by (auto simp: refs_def fun_eq_iff split: if_splits dest!: spec [of _ n])
      then have "refs w' = refs w"
        using n(5) by auto
      moreover have "inv w'" "\<forall>m. live w m \<longrightarrow> live w' m"
        using w' refcount_law [OF n(3, 2), of "refs w n"] n(4) by (auto)
      ultimately show ?thesis
        using balanced_update [OF b p, of w' "ts ! p"] live w'(2) by (auto simp: table_live_def)
    qed
  qed
qed

lemma balanced_close:
  assumes b: "balanced (w, ts)" and p: "p < length ts" and eq: "fd_free ops w (ts ! p) fd = Some (w', t', r)"
  shows "balanced (w', ts[p := t'])"
proof -
  let ?t = "ts ! p"
  have live: "table_live w ?t" "length ?t = VFS_MAX_FD" and inv: "inv w"
    using table_live_at [OF b p] b by (simp_all add: table_live_def balanced_def)
  show ?thesis
  proof (cases "fd < 3 \<or> int VFS_MAX_FD \<le> fd \<or> \<not> fd_in_use (?t ! nat fd)")
    case True
    then show ?thesis
      using eq b by (auto simp: fd_free_def)
  next
    case False
    then have i: "nat fd < length ?t" "fd_in_use (?t ! nat fd)"
      using live(2) by auto
    have t': "t' = ?t[nat fd := fd_zero]"
      using fd_free_table [OF eq] False by (simp add: fd_release_def)
    have tl: "table_live w2 t'" if "\<forall>n. live w n \<longrightarrow> live w2 n" for w2
      unfolding t' by (rule table_live_update [OF live(1) that]) (simp add: fd_zero_def)
    show ?thesis
    proof (cases "fd_node (?t ! nat fd)")
      case None
      then have "w' = w"
        using eq False by (auto simp: fd_free_def)
      then show ?thesis
        using balanced_update [OF b p inv, of t'] tl None i by (auto simp: t' node_refs_update fd_zero_def)
    next
      case (Some n)
      have "live w n"
        using live(1) i Some nth_mem by (fastforce simp: table_live_def)
      obtain w1 where w1: "w' = (if 0 < vn_refcount (vnodes w1 n) then set_refcount w1 n (vn_refcount (vnodes w1 n) - 1) else w1)"
        "w1 = w \<or> (\<exists>t k r. vn_ops (vnodes w n) = Some t \<and> op_close (ops t) = Some k \<and> k w n = Some (w1, r))"
        using eq False Some by (auto simp: fd_free_def split: option.splits bind_splits)
      have st: "inv w1" "refs w1 = refs w" "\<forall>m. live w m \<longrightarrow> live w1 m"
        using w1(2) inv close_law [OF inv \<open>live w n\<close>] by auto
      have "0 < node_refs ?t n"
        using node_refs_update [OF i(1), of fd_zero n] i(2) Some node_refs_nonneg [of t' n]
        by (simp add: t' fd_zero_def)
      then have "0 < refs w n"
        using b total_refs_le [OF p, of n] by (simp add: balanced_def)
      then have w': "w' = set_refcount w1 n (refs w n - 1)"
        using w1(1) st(2) by (auto simp: refs_def fun_eq_iff)
      have "\<forall>m. live w m \<longrightarrow> live w' m" "inv w'"
        using refcount_law [OF st(1), of n "refs w n - 1"] st(3) \<open>live w n\<close> w' by auto
      then show ?thesis
        using balanced_update [OF b p, of w' t'] tl w' st(2) Some i by (auto simp: t' node_refs_update fd_zero_def)
    qed
  qed
qed

lemma clone_ref_stable:
  "inv w \<Longrightarrow> \<forall>d \<in> set t. \<forall>n. fd_in_use d \<and> fd_node d = Some n \<longrightarrow> live w n \<Longrightarrow>
    inv (fold clone_ref t w) \<and> (\<forall>n. live w n \<longrightarrow> live (fold clone_ref t w) n)"
proof (induction t arbitrary: w)
  case (Cons d t)
  have "inv (clone_ref d w)" "\<forall>n. live w n \<longrightarrow> live (clone_ref d w) n"
    using Cons.prems refcount_law [OF Cons.prems(1)] by (auto simp: clone_ref_def split: option.splits)
  then show ?case
    using Cons.IH [of "clone_ref d w"] Cons.prems(2) by auto
qed simp

lemma balanced_fork:
  assumes b: "balanced (w, ts)" and p: "p < length ts" and eq: "fd_table_clone w (ts ! p) = (w', t')"
  shows "balanced (w', ts @ [t'])"
proof -
  have live: "table_live w (ts ! p)" "inv w"
    using table_live_at [OF b p] b by (simp_all add: balanced_def)
  then have w': "w' = fold clone_ref (ts ! p) w" "t' = ts ! p"
    using eq by (auto simp: fd_table_clone_def table_live_def)
  have "inv w'" "\<forall>n. live w n \<longrightarrow> live w' n"
    using clone_ref_stable [OF live(2), of "ts ! p"] live(1) w' by (auto simp: table_live_def)
  moreover have "refs w' n = total_refs (ts @ [t']) n" for n
    using b w' refs_clone [of "ts ! p" w n] by (simp add: balanced_def total_refs_def)
  ultimately show ?thesis
    using b w'(2) live(1) by (auto simp: balanced_def table_live_def)
qed

lemma balanced_step: "fd_step ops s s' \<Longrightarrow> balanced s \<Longrightarrow> balanced s'"
  by (cases s) (auto elim!: fd_stepE intro: balanced_open balanced_close balanced_fork)

lemma balanced_reachable: "(fd_step ops)\<^sup>*\<^sup>* s s' \<Longrightarrow> balanced s \<Longrightarrow> balanced s'"
  by (induction rule: rtranclp_induct) (auto intro: balanced_step)

end

section \<open>Properties\<close>

lemma kstrncpy_loop_overrun:
  "nul_term src \<Longrightarrow> length dst \<le> length (cval src) \<Longrightarrow> length dst < n \<Longrightarrow> kstrncpy_loop dst src n = None"
  by (induction dst src n rule: kstrncpy_loop.induct) (auto split: if_splits)

definition no_ops :: "'w vfs_ops" where
  "no_ops = \<lparr>op_open = None, op_close = None, op_read = None, op_write = None, op_readdir = None,
     op_finddir = None, op_create = None\<rparr>"

definition demo_vfs :: vfs where
  "demo_vfs = \<lparr>mounts =
     [\<lparr>mountpoint = 47 # replicate 63 0, root_node = Some (Static ''root'' 0), fs_type = None, mount_dev = None\<rparr>,
      \<lparr>mountpoint = 47 # 109 # replicate 62 0, root_node = Some (Static ''disk'' 0), fs_type = None, mount_dev = None\<rparr>] @
     replicate 6 mount_zero, mount_count = 2, vnodes = (\<lambda>_. vfs_node_zero)\<rparr>"

lemma cval_replicate_0: "cval (replicate n 0) = []"
  by (cases n) simp_all

lemma demo_vfs_ok: "vfs_ok demo_vfs"
  by (auto simp: vfs_ok_def demo_vfs_def VFS_MAX_MOUNTS_def mount_zero_def nth_Cons split: nat.splits)





text \<open>
  Creating a file whose directory part has 128 characters or more writes past the 128-byte
  buffer that \<open>vfs_open\<close> copies the directory into.
\<close>

theorem vfs_open_long_directory:
  assumes "nul_term path" and "cval path = dir @ 47 # fname" and "47 \<notin> set fname" and "128 \<le> length dir"
    and "vfs_lookup ops w path = Some (w1, None, - 1)" and "flags AND VFS_O_CREAT \<noteq> 0"
  shows "vfs_open ops w path flags mode = None"
proof -
  have slash: "kstrrchr (Some path) 47 = Some (Some (drop (length dir) path))"
    using kstrrchr_loop_Some [OF assms(1), of 47 dir fname None] assms(2, 3) by simp
  have "length (cval path) \<le> length path"
    by (simp add: cval_def length_takeWhile_le)
  then have "length path - length (drop (length dir) path) = length dir"
    using assms(2) by simp
  moreover have "kstrncpy_loop (replicate 128 0) path (length dir + 1) = None"
    using assms(1, 2, 4) by (intro kstrncpy_loop_overrun) auto
  ultimately have "split_path path = None"
    using slash assms(4) by (auto simp: split_path_def Let_def simp del: kstrrchr.simps)
  then show ?thesis
    using assms(5, 6) by (simp add: vfs_open_def vfs_create_at_def)
qed

definition long_path :: bytes where
  "long_path = 47 # replicate 127 97 @ [47, 98, 0]"

end
