(* ===== verification/Tarfs.thy ===== *)
theory Tarfs
  imports Vfs
begin

text \<open>
  The read-only file system of the initial ramdisk, \<^verbatim>\<open>kernel/fs/tarfs.c\<close>: a USTAR archive in
  memory, searched by \<open>tarfs_lookup\<close> (which \<open>execve\<close> uses) and presented to the virtual file
  system as a flat directory.

  The archive is a byte object; a pointer into it is an offset.  The object is smaller than the
  address space and the size field of a header has at most 36 bits, so the sums of offsets do
  not wrap and offsets are natural numbers.  Console output of the listing is the list
  of the lines it prints.
\<close>

section \<open>State\<close>

record tarfs = vfs +
  tar_archive_base :: cptr
  tar_archive_size :: u64
  tarfs_file_count :: nat

definition tarfs_root :: static_ptr where
  "tarfs_root = Static ''tarfs_root'' 0"

definition tarfs_files :: "nat \<Rightarrow> static_ptr" where
  "tarfs_files i = Static ''tarfs_files'' i"

section \<open>Headers and names\<close>

fun parse_octal_loop :: "nat \<Rightarrow> bytes \<Rightarrow> u64 \<Rightarrow> u64 option" where
  "parse_octal_loop 0 s val = Some val"
| "parse_octal_loop (Suc n) [] val = None"
| "parse_octal_loop (Suc n) (c # s) val =
     (if c < 48 \<or> 55 < c then Some val else parse_octal_loop n s (push_bit 3 val OR ucast (c - 48)))"

definition parse_octal :: "bytes \<Rightarrow> nat \<Rightarrow> u64 option" where
  "parse_octal str maxlen = parse_octal_loop maxlen str 0"

fun normalize_path :: "bytes \<Rightarrow> bytes option" where
  "normalize_path [] = None"
| "normalize_path (c # p) = (if c = 47 \<or> c = 46 then normalize_path p else Some (c # p))"

definition str_bin :: bytes where
  "str_bin = [98, 105, 110, 47, 0]"

definition path_matches :: "bytes \<Rightarrow> bytes \<Rightarrow> bool option" where
  "path_matches target entry_name = do {
     norm_target \<leftarrow> normalize_path target;
     norm_entry \<leftarrow> normalize_path entry_name;
     r \<leftarrow> kstrcmp (Some norm_target) (Some norm_entry);
     if r = 0 then Some True
     else do {
       r \<leftarrow> kstrncmp (Some norm_entry) (Some str_bin) 4;
       m \<leftarrow> (if r = 0 then map_option (\<lambda>r. r = 0) (kstrcmp (Some norm_target) (Some (drop 4 norm_entry))) else Some False);
       if m then Some True
       else do {
         r \<leftarrow> kstrncmp (Some norm_target) (Some str_bin) 4;
         if r = 0 then map_option (\<lambda>r. r = 0) (kstrcmp (Some (drop 4 norm_target)) (Some norm_entry)) else Some False
       }
     }
   }"

text \<open>The fields of the header at an offset, and the offset of the next header.\<close>

definition hdr_name :: "bytes \<Rightarrow> nat \<Rightarrow> bytes" where
  "hdr_name a off = drop off a"

definition hdr_size :: "bytes \<Rightarrow> nat \<Rightarrow> u64 option" where
  "hdr_size a off = parse_octal (drop (off + 124) a) 12"

definition hdr_typeflag :: "bytes \<Rightarrow> nat \<Rightarrow> u8 option" where
  "hdr_typeflag a off = at_idx a (off + 156)"

definition next_hdr :: "nat \<Rightarrow> u64 \<Rightarrow> nat" where
  "next_hdr off file_size = off + (512 + unat ((file_size + 511) AND NOT 511))"

section \<open>Operations\<close>

definition tarfs_init :: "'a tarfs_scheme \<Rightarrow> cptr \<Rightarrow> u64 \<Rightarrow> 'a tarfs_scheme" where
  "tarfs_init w tar_base tar_size = w\<lparr>tar_archive_base := tar_base, tar_archive_size := tar_size\<rparr>"

function list_loop :: "bytes \<Rightarrow> nat \<Rightarrow> nat \<Rightarrow> (bytes \<times> u8 \<times> u32) list option" where
  "list_loop a sz off =
     (if off + 512 \<le> sz then do {
        c \<leftarrow> at_idx a off;
        if c = 0 then Some []
        else do {
          file_size \<leftarrow> hdr_size a off;
          tf \<leftarrow> hdr_typeflag a off;
          rest \<leftarrow> list_loop a sz (next_hdr off file_size);
          Some ((cval (hdr_name a off), if tf = 0 then 48 else tf, ucast file_size) # rest)
        }
      } else Some [])"
  by pat_completeness auto
termination
  by (relation "measure (\<lambda>(a, sz, off). sz - off)") (auto simp: next_hdr_def)

definition tarfs_list_files :: "'a tarfs_scheme \<Rightarrow> (bytes \<times> u8 \<times> u32) list option" where
  "tarfs_list_files w =
     (case tar_archive_base w of
        None \<Rightarrow> Some []
      | Some a \<Rightarrow> if tar_archive_size w < 512 then Some [] else list_loop a (unat (tar_archive_size w)) 0)"

function find_loop :: "bytes \<Rightarrow> nat \<Rightarrow> bytes \<Rightarrow> nat \<Rightarrow> (nat \<times> u64) option option" where
  "find_loop a sz path off =
     (if off + 512 \<le> sz then do {
        c \<leftarrow> at_idx a off;
        if c = 0 then Some None
        else do {
          file_size \<leftarrow> hdr_size a off;
          tf \<leftarrow> hdr_typeflag a off;
          m \<leftarrow> (if tf = 48 \<or> tf = 0 then path_matches path (hdr_name a off) else Some False);
          if m then Some (Some (off + 512, file_size))
          else find_loop a sz path (next_hdr off file_size)
        }
      } else Some None)"
  by pat_completeness auto
termination
  by (relation "measure (\<lambda>(a, sz, path, off). sz - off)") (auto simp: next_hdr_def)

declare list_loop.simps [simp del] find_loop.simps [simp del]

text \<open>The offset and size of the file, and the returned code.\<close>

definition tarfs_lookup :: "'a tarfs_scheme \<Rightarrow> cptr \<Rightarrow> ((nat \<times> u64) option \<times> int) option" where
  "tarfs_lookup w path =
     (case (tar_archive_base w, path) of
        (Some a, Some p) \<Rightarrow>
          if tar_archive_size w < 512 then Some (None, - 1)
          else map_option (\<lambda>f. (f, if f = None then - 1 else 0)) (find_loop a (unat (tar_archive_size w)) p 0)
      | _ \<Rightarrow> Some (None, - 1))"

section \<open>Operations behind the virtual file system\<close>

definition tarfs_vfs_read :: "'a tarfs_scheme \<Rightarrow> static_ptr \<Rightarrow> u64 \<Rightarrow> u64 \<Rightarrow> ('a tarfs_scheme \<times> bytes \<times> int) option" where
  "tarfs_vfs_read w node offset sz =
     (case vn_priv_data (vnodes w node) of
        None \<Rightarrow> Some (w, [], 0)
      | Some data \<Rightarrow>
          if vn_size (vnodes w node) \<le> offset then Some (w, [], 0)
          else
            let to_read = (if vn_size (vnodes w node) < offset + sz then vn_size (vnodes w node) - offset else sz);
                rest = drop (static_idx data + unat offset) (the (tar_archive_base w))
            in if unat to_read \<le> length rest then Some (w, take (unat to_read) rest, sint to_read) else None)"

fun tarfs_find_loop :: "'a tarfs_scheme \<Rightarrow> bytes \<Rightarrow> nat \<Rightarrow> nat \<Rightarrow> nat option option" where
  "tarfs_find_loop w name i 0 = Some None"
| "tarfs_find_loop w name i (Suc n) = do {
     r \<leftarrow> kstrcmp (Some (vn_name (vnodes w (tarfs_files i)))) (Some name);
     if r = 0 then Some (Some i) else tarfs_find_loop w name (i + 1) n
   }"

definition tarfs_vfs_finddir :: "'a tarfs_scheme \<Rightarrow> static_ptr \<Rightarrow> bytes \<Rightarrow> ('a tarfs_scheme \<times> static_ptr option \<times> int) option" where
  "tarfs_vfs_finddir w dir name = do {
     f \<leftarrow> tarfs_find_loop w name 0 (tarfs_file_count w);
     Some (case f of Some i \<Rightarrow> (w, Some (tarfs_files i), 0) | None \<Rightarrow> (w, None, - 1))
   }"

text \<open>The index is compared as a signed \<open>int\<close>, so one above \<open>INT_MAX\<close> passes the test.\<close>

definition tarfs_vfs_readdir :: "'a tarfs_scheme \<Rightarrow> static_ptr \<Rightarrow> u32 \<Rightarrow> ('a tarfs_scheme \<times> vfs_dirent option \<times> int) option" where
  "tarfs_vfs_readdir w dir index =
     (if int (tarfs_file_count w) \<le> sint index then Some (w, None, - 1)
      else if 64 \<le> unat index then None
      else do {
        nm \<leftarrow> kstrncpy (Some (replicate 128 0)) (Some (vn_name (vnodes w (tarfs_files (unat index))))) 128;
        Some (w, Some \<lparr>d_ino = vn_inode (vnodes w (tarfs_files (unat index))), d_name = the nm,
          d_type = ucast (vn_type (vnodes w (tarfs_files (unat index))))\<rparr>, 0)
      })"

definition tarfs_dir_ops :: "'a tarfs_scheme vfs_ops" where
  "tarfs_dir_ops = \<lparr>op_open = None, op_close = None, op_read = None, op_write = None,
     op_readdir = Some tarfs_vfs_readdir, op_finddir = Some tarfs_vfs_finddir, op_create = None\<rparr>"

definition tarfs_file_ops :: "'a tarfs_scheme vfs_ops" where
  "tarfs_file_ops = \<lparr>op_open = None, op_close = None, op_read = Some tarfs_vfs_read, op_write = None,
     op_readdir = None, op_finddir = None, op_create = None\<rparr>"

definition tarfs_ops :: "string \<Rightarrow> 'a tarfs_scheme vfs_ops" where
  "tarfs_ops t = (if t = ''tarfs_dir_ops'' then tarfs_dir_ops else if t = ''tarfs_file_ops'' then tarfs_file_ops else no_ops)"

text \<open>The node of one archive member, and the loop that fills \<open>tarfs_files\<close>.\<close>

definition tarfs_node :: "bytes \<Rightarrow> nat \<Rightarrow> u64 \<Rightarrow> nat \<Rightarrow> vfs_node option" where
  "tarfs_node a off file_size count = do {
     nm \<leftarrow> normalize_path (hdr_name a off);
     nm \<leftarrow> kstrncpy (Some (replicate 128 0)) (Some nm) 128;
     Some (vfs_node_zero\<lparr>vn_name := the nm, vn_type := VFS_FILE, vn_inode := of_nat (count + 10), vn_size := file_size,
       vn_ops := Some ''tarfs_file_ops'', vn_priv_data := Some (Static ''tar_archive'' (off + 512))\<rparr>)
   }"

function build_loop :: "bytes \<Rightarrow> nat \<Rightarrow> nat \<Rightarrow> 'a tarfs_scheme \<Rightarrow> 'a tarfs_scheme option" where
  "build_loop a sz off w =
     (if off + 512 \<le> sz \<and> tarfs_file_count w < 64 then do {
        c \<leftarrow> at_idx a off;
        if c = 0 then Some w
        else do {
          file_size \<leftarrow> hdr_size a off;
          tf \<leftarrow> hdr_typeflag a off;
          w \<leftarrow> (if tf = 48 \<or> tf = 0 then do {
                nd \<leftarrow> tarfs_node a off file_size (tarfs_file_count w);
                Some (w\<lparr>vnodes := (vnodes w)(tarfs_files (tarfs_file_count w) := nd),
                        tarfs_file_count := tarfs_file_count w + 1\<rparr>)
              } else Some w);
          build_loop a sz (next_hdr off file_size) w
        }
      } else Some w)"
  by pat_completeness auto
termination
  by (relation "measure (\<lambda>(a, sz, off, w). sz - off)") (auto simp: next_hdr_def)

declare build_loop.simps [simp del]

definition tarfs_get_vfs_root :: "'a tarfs_scheme \<Rightarrow> ('a tarfs_scheme \<times> static_ptr) option" where
  "tarfs_get_vfs_root w =
     (let w = w\<lparr>vnodes := (vnodes w)(tarfs_root := vfs_node_zero\<lparr>vn_name := 47 # replicate 127 0,
                  vn_type := VFS_DIRECTORY, vn_inode := 1, vn_ops := Some ''tarfs_dir_ops''\<rparr>),
                tarfs_file_count := 0\<rparr>
      in (case tar_archive_base w of
            None \<Rightarrow> Some (w, tarfs_root)
          | Some a \<Rightarrow>
              if tar_archive_size w < 512 then Some (w, tarfs_root)
              else map_option (\<lambda>w. (w, tarfs_root)) (build_loop a (unat (tar_archive_size w)) 0 w)))"

section \<open>Names\<close>

definition norm_name :: "bytes \<Rightarrow> bytes" where
  "norm_name s = dropWhile (\<lambda>c. c = 47 \<or> c = 46) s"

text \<open>Two names match when they are equal up to leading slashes and dots and one leading \<open>bin/\<close>.\<close>

definition names_match :: "bytes \<Rightarrow> bytes \<Rightarrow> bool" where
  "names_match t e \<longleftrightarrow> norm_name t = norm_name e \<or> norm_name e = [98, 105, 110, 47] @ norm_name t \<or>
     norm_name t = [98, 105, 110, 47] @ norm_name e"

lemma normalize_path_eq:
  "nul_term p \<Longrightarrow> \<exists>q. normalize_path p = Some q \<and> nul_term q \<and> cval q = norm_name (cval p)"
  by (induction p) (auto simp: norm_name_def)

lemma kstrcmp_zero:
  assumes "nul_term s" and "nul_term t"
  obtains r where "kstrcmp (Some s) (Some t) = Some r" and "r = 0 \<longleftrightarrow> cval s = cval t"
  using kstrcmp_loop_spec [OF assms] by auto

lemma bin_prefix_test:
  assumes "nul_term s" and "nul_term t"
  obtains r where "kstrncmp (Some s) (Some str_bin) 4 = Some r"
    and "(if r = 0 then map_option (\<lambda>r. r = 0) (kstrcmp (Some t) (Some (drop 4 s))) else Some False) =
         Some (cval s = [98, 105, 110, 47] @ cval t)"
    and "(if r = 0 then map_option (\<lambda>r. r = 0) (kstrcmp (Some (drop 4 s)) (Some t)) else Some False) =
         Some (cval s = [98, 105, 110, 47] @ cval t)"
proof -
  have "nul_term str_bin" and bin: "cval str_bin = [98, 105, 110, 47]"
    by (simp_all add: str_bin_def)
  then obtain r where r: "kstrncmp (Some s) (Some str_bin) 4 = Some r" "r = 0 \<longleftrightarrow> take 4 (cval s) = [98, 105, 110, 47]"
    using kstrncmp_zero_iff [OF assms(1), of str_bin 4] by auto
  show thesis
  proof (cases "r = 0")
    case True
    have "length (take 4 (cval s)) = 4"
      using True r(2) by simp
    then have "4 \<le> length (cval s)"
      by simp
    then have d: "nul_term (drop 4 s)" "cval (drop 4 s) = drop 4 (cval s)"
      by (auto intro: nul_term_drop [OF assms(1)] simp: cval_drop)
    have "cval s = [98, 105, 110, 47] @ cval t \<longleftrightarrow> drop 4 (cval s) = cval t"
      using True r(2) by (metis append_take_drop_id same_append_eq)
    moreover obtain r1 where "kstrcmp (Some t) (Some (drop 4 s)) = Some r1" "r1 = 0 \<longleftrightarrow> cval t = cval (drop 4 s)"
      by (rule kstrcmp_zero [OF assms(2) d(1)])
    moreover obtain r2 where "kstrcmp (Some (drop 4 s)) (Some t) = Some r2" "r2 = 0 \<longleftrightarrow> cval (drop 4 s) = cval t"
      by (rule kstrcmp_zero [OF d(1) assms(2)])
    ultimately show thesis
      using that [OF r(1)] True d(2) by (auto simp del: kstrcmp.simps)
  next
    case False
    then have "cval s \<noteq> [98, 105, 110, 47] @ cval t"
      using r(2) by auto
    then show thesis
      using that [OF r(1)] False by simp
  qed
qed

lemma path_matches_eq:
  assumes "nul_term t" and "nul_term e"
  shows "path_matches t e = Some (names_match (cval t) (cval e))"
proof -
  obtain t' where t': "normalize_path t = Some t'" "nul_term t'" "cval t' = norm_name (cval t)"
    using normalize_path_eq [OF assms(1)] by blast
  obtain e' where e': "normalize_path e = Some e'" "nul_term e'" "cval e' = norm_name (cval e)"
    using normalize_path_eq [OF assms(2)] by blast
  obtain r where r: "kstrcmp (Some t') (Some e') = Some r" "r = 0 \<longleftrightarrow> cval t' = cval e'"
    by (rule kstrcmp_zero [OF t'(2) e'(2)])
  obtain r1 where r1: "kstrncmp (Some e') (Some str_bin) 4 = Some r1"
    "(if r1 = 0 then map_option (\<lambda>r. r = 0) (kstrcmp (Some t') (Some (drop 4 e'))) else Some False) =
         Some (cval e' = [98, 105, 110, 47] @ cval t')"
    by (rule bin_prefix_test [OF e'(2) t'(2)])
  obtain r2 where r2: "kstrncmp (Some t') (Some str_bin) 4 = Some r2"
    "(if r2 = 0 then map_option (\<lambda>r. r = 0) (kstrcmp (Some (drop 4 t')) (Some e')) else Some False) =
         Some (cval t' = [98, 105, 110, 47] @ cval e')"
    by (rule bin_prefix_test [OF t'(2) e'(2)])
  show ?thesis
    unfolding path_matches_def t'(1) e'(1) Option.bind.simps r(1) r1 r2 names_match_def t'(3) [symmetric] e'(3) [symmetric]
    using r(2) by auto
qed

section \<open>Archives\<close>

text \<open>The USTAR encoding of a list of members with name, type and contents.\<close>

type_synonym tar_file = "bytes \<times> u8 \<times> bytes"

fun octal :: "nat \<Rightarrow> nat \<Rightarrow> bytes" where
  "octal 0 n = []"
| "octal (Suc k) n = octal k (n div 8) @ [48 + of_nat (n mod 8)]"

definition tar_header :: "bytes \<Rightarrow> u8 \<Rightarrow> nat \<Rightarrow> bytes" where
  "tar_header nm ty n = nm @ replicate (100 - length nm) 0 @ replicate 24 0 @ octal 11 n @ [0] @
     replicate 20 0 @ [ty] @ replicate 355 0"

definition padding :: "nat \<Rightarrow> nat" where
  "padding n = (511 - (n + 511) mod 512)"

definition tar_member :: "tar_file \<Rightarrow> bytes" where
  "tar_member = (\<lambda>(nm, ty, data). tar_header nm ty (length data) @ data @ replicate (padding (length data)) 0)"

definition tar_archive :: "tar_file list \<Rightarrow> bytes" where
  "tar_archive es = concat (map tar_member es) @ replicate 1024 0"

definition member_ok :: "tar_file \<Rightarrow> bool" where
  "member_ok = (\<lambda>(nm, ty, data). nm \<noteq> [] \<and> 0 \<notin> set nm \<and> length nm < 100 \<and> length data < 8 ^ 11)"

definition regular :: "tar_file \<Rightarrow> bool" where
  "regular = (\<lambda>(nm, ty, data). ty = 48 \<or> ty = 0)"

definition data_off :: "tar_file list \<Rightarrow> nat \<Rightarrow> nat" where
  "data_off es i = length (concat (map tar_member (take i es))) + 512"

lemma length_octal [simp]: "length (octal k n) = k"
  by (induction k arbitrary: n) simp_all

lemma length_tar_header [simp]: "length nm < 100 \<Longrightarrow> length (tar_header nm ty n) = 512"
  by (simp add: tar_header_def)

lemma octal_shift:
  fixes v d :: u64
  assumes "d < 8"
  shows "push_bit 3 v OR d = 8 * v + d"
proof -
  have d: "take_bit 3 d = d"
    using assms by (simp add: take_bit_eq_mod mod_word_less)
  have "push_bit 3 v AND d = 0"
    by (subst d [symmetric], rule bit_word_eqI) (simp add: bit_simps)
  then have "push_bit 3 v OR d = push_bit 3 v + d"
    by (simp add: disjunctive_add_eq_or)
  then show ?thesis
    by (simp add: push_bit_eq_mult mult.commute)
qed

lemma parse_octal_loop_octal:
  "parse_octal_loop (k + j) (octal k n @ r) v = parse_octal_loop j r (of_nat (8 ^ k * unat v + n mod 8 ^ k))"
proof (induction k arbitrary: n j r)
  case (Suc k)
  let ?d = "of_nat (n mod 8) :: u8"
  have d: "unat ?d = n mod 8"
    by (simp add: unat_of_nat)
  have digit: "\<not> (48 + ?d < 48)" "\<not> (55 < 48 + ?d)"
    using d by (simp_all add: word_less_nat_alt unat_word_ariths)
  have "(ucast ?d :: u64) = of_nat (n mod 8)"
    using d by (metis of_nat_unat)
  then have d8: "ucast (48 + ?d - 48) = (of_nat (n mod 8) :: u64)" "(of_nat (n mod 8) :: u64) < 8"
    by (simp_all add: word_less_nat_alt unat_of_nat)
  have "parse_octal_loop (Suc k + j) (octal (Suc k) n @ r) v = parse_octal_loop (k + Suc j) (octal k (n div 8) @ (48 + ?d) # r) v"
    by simp
  also have "\<dots> = parse_octal_loop (Suc j) ((48 + ?d) # r) (of_nat (8 ^ k * unat v + n div 8 mod 8 ^ k))"
    by (rule Suc.IH)
  also have "\<dots> = parse_octal_loop j r (8 * of_nat (8 ^ k * unat v + n div 8 mod 8 ^ k) + of_nat (n mod 8))"
    using digit d8 octal_shift [OF d8(2)] by simp
  also have "8 * of_nat (8 ^ k * unat v + n div 8 mod 8 ^ k) + of_nat (n mod 8) =
      (of_nat (8 * (8 ^ k * unat v + n div 8 mod 8 ^ k) + n mod 8) :: u64)"
    by (simp only: of_nat_add of_nat_mult of_nat_numeral)
  also have "8 * (8 ^ k * unat v + n div 8 mod 8 ^ k) + n mod 8 = 8 ^ Suc k * unat v + n mod 8 ^ Suc k"
    by (simp add: mod_mult2_eq distrib_left)
  finally show ?case .
qed simp

lemma parse_octal_octal: "n < 8 ^ 11 \<Longrightarrow> parse_octal (octal 11 n @ 0 # r) 12 = Some (of_nat n)"
  using parse_octal_loop_octal [of 11 1 n "0 # r" 0] by (simp add: parse_octal_def)

lemma padding_length:
  assumes "n < 8 ^ 11"
  shows "unat (((of_nat n :: u64) + 511) AND NOT 511) = n + padding n"
proof -
  have n: "n < 8589934592"
    using assms by simp
  have "unat (of_nat n + 511 :: u64) = n + 511"
    using n by (simp add: unat_word_ariths unat_of_nat)
  moreover have "(511 :: u64) = mask 9"
    by (simp add: mask_eq_exp_minus_1)
  ultimately have "unat (((of_nat n :: u64) + 511) AND NOT 511) = (n + 511) div 512 * 512"
    using unat_and_not_mask [of "of_nat n + 511 :: u64" 9] by simp
  also have "\<dots> = n + padding n"
    by (simp add: padding_def div_mult_mod_eq minus_mod_eq_div_mult [symmetric])
  finally show ?thesis .
qed

lemma length_tar_member: "member_ok (nm, ty, data) \<Longrightarrow> length (tar_member (nm, ty, data)) = 512 + length data + padding (length data)"
  by (simp add: tar_member_def member_ok_def)

lemma member_header:
  assumes "member_ok (nm, ty, data)" and "a = pre @ tar_member (nm, ty, data) @ post" and "off = length pre"
  shows "\<exists>c. at_idx a off = Some c \<and> c \<noteq> 0" "hdr_size a off = Some (of_nat (length data))" "hdr_typeflag a off = Some ty"
    "nul_term (hdr_name a off)" "cval (hdr_name a off) = nm" "off + 512 \<le> length a"
    "next_hdr off (of_nat (length data)) = length (pre @ tar_member (nm, ty, data))"
    "take (length data) (drop (off + 512) a) = data"
proof -
  have ok: "nm \<noteq> []" "0 \<notin> set nm" "length nm < 100" "length data < 8 ^ 11"
    using assms(1) by (simp_all add: member_ok_def)
  define rest where "rest = data @ replicate (padding (length data)) 0 @ post"
  have a: "a = pre @ tar_header nm ty (length data) @ rest"
    by (simp add: assms(2) tar_member_def rest_def)
  obtain k where k: "100 - length nm = Suc k"
    using ok(3) by (cases "100 - length nm") auto
  have name: "drop off a = nm @ 0 # (replicate k 0 @ replicate 24 0 @ octal 11 (length data) @ [0] @
      replicate 20 0 @ [ty] @ replicate 355 0 @ rest)"
    by (simp add: a assms(3) tar_header_def k)
  have "drop (off + 124) a = drop 124 (drop off a)"
    by (simp add: add.commute)
  also have "\<dots> = octal 11 (length data) @ 0 # (replicate 20 0 @ [ty] @ replicate 355 0 @ rest)"
  proof -
    define P :: bytes where "P = nm @ 0 # replicate k 0 @ replicate 24 0"
    have "length P = 124"
      using ok(3) k by (simp add: P_def)
    moreover have "drop off a = P @ octal 11 (length data) @ 0 # (replicate 20 0 @ [ty] @ replicate 355 0 @ rest)"
      using name by (simp add: P_def)
    ultimately show ?thesis
      by simp
  qed
  finally have sz: "drop (off + 124) a = octal 11 (length data) @ 0 # (replicate 20 0 @ [ty] @ replicate 355 0 @ rest)" .
  have "drop (off + 156) a = drop 32 (drop (off + 124) a)"
    by (simp add: add.commute)
  also have "\<dots> = ty # (replicate 355 0 @ rest)"
    unfolding sz by simp
  finally have tf: "drop (off + 156) a = ty # (replicate 355 0 @ rest)" .
  show "\<exists>c. at_idx a off = Some c \<and> c \<noteq> 0"
    using ok(1, 2) name by (cases nm) (auto simp: assms(2, 3) tar_member_def tar_header_def nth_append)
  show "hdr_size a off = Some (of_nat (length data))"
    unfolding hdr_size_def sz by (rule parse_octal_octal [OF ok(4)])
  have "off + 156 < length a"
    using tf by (metis drop_all leI list.distinct(1))
  then show "hdr_typeflag a off = Some ty"
    using tf by (simp add: hdr_typeflag_def) (metis Cons_nth_drop_Suc list.sel(1))
  show "nul_term (hdr_name a off)" "cval (hdr_name a off) = nm"
    unfolding hdr_name_def name using ok(2) by simp_all
  show "off + 512 \<le> length a"
    using ok(3) by (simp add: a assms(3))
  show "next_hdr off (of_nat (length data)) = length (pre @ tar_member (nm, ty, data))"
    using length_tar_member [OF assms(1)] padding_length [OF ok(4)] by (simp add: next_hdr_def assms(3))
  show "take (length data) (drop (off + 512) a) = data"
    using ok(3) by (simp add: a assms(3) rest_def)
qed

lemma end_of_archive:
  assumes "a = pre @ replicate 1024 0"
  shows "at_idx a (length pre) = Some 0" "length pre + 512 \<le> length a"
  by (simp_all add: assms nth_append)

definition wanted :: "bytes \<Rightarrow> tar_file \<Rightarrow> bool" where
  "wanted s e \<longleftrightarrow> regular e \<and> names_match s (fst e)"

lemma find_loop_spec:
  assumes "nul_term path" and "\<forall>e \<in> set es. member_ok e" and "a = pre @ tar_archive es"
  shows "find_loop a (length a) path (length pre) =
    Some (map_option (\<lambda>i. (length pre + data_off es i, of_nat (length (snd (snd (es ! i)))))) (scan (wanted (cval path)) es))"
  using assms(2, 3)
proof (induction es arbitrary: pre)
  case Nil
  then show ?case
    using end_of_archive [of a pre] by (subst find_loop.simps) (simp add: tar_archive_def at_idx_less)
next
  case (Cons e es)
  obtain nm ty data where e: "e = (nm, ty, data)" by (cases e)
  have ok: "member_ok (nm, ty, data)" and a: "a = pre @ tar_member (nm, ty, data) @ tar_archive es"
    using Cons.prems e by (simp_all add: tar_archive_def)
  note h = member_header [OF ok a refl]
  have ih: "find_loop a (length a) path (length (pre @ tar_member (nm, ty, data))) =
    Some (map_option (\<lambda>i. (length (pre @ tar_member (nm, ty, data)) + data_off es i, of_nat (length (snd (snd (es ! i))))))
      (scan (wanted (cval path)) es))"
    using Cons.prems a by (intro Cons.IH) simp_all
  have m: "path_matches path (hdr_name a (length pre)) = Some (names_match (cval path) nm)"
    using path_matches_eq [OF assms(1) h(4)] h(5) by simp
  have step: "find_loop a (length a) path (length pre) =
      (if wanted (cval path) e then Some (Some (length pre + 512, of_nat (length data)))
       else find_loop a (length a) path (length (pre @ tar_member (nm, ty, data))))"
    using h(1) by (subst find_loop.simps) (auto simp: at_idx_less h(2, 3, 6, 7) m wanted_def regular_def e)
  show ?case
    unfolding step ih
    by (auto simp: e data_off_def option.map_comp comp_def intro!: map_option_cong)
qed

section \<open>The nodes of an archive\<close>

text \<open>The regular members of an archive with the offsets of their contents.\<close>

fun reg_files :: "nat \<Rightarrow> tar_file list \<Rightarrow> (nat \<times> tar_file) list" where
  "reg_files off [] = []"
| "reg_files off (e # es) = (if regular e then [(off + 512, e)] else []) @ reg_files (off + length (tar_member e)) es"

definition node_for :: "nat \<times> tar_file \<Rightarrow> vfs_node \<Rightarrow> bool" where
  "node_for f nd \<longleftrightarrow> (case f of (off, nm, ty, data) \<Rightarrow>
     nul_term (vn_name nd) \<and> cval (vn_name nd) = norm_name nm \<and> vn_type nd = VFS_FILE \<and>
     vn_size nd = of_nat (length data) \<and> vn_ops nd = Some ''tarfs_file_ops'' \<and>
     vn_priv_data nd = Some (Static ''tar_archive'' off) \<and> vn_refcount nd = 0)"

lemma tarfs_node_spec:
  assumes "member_ok (nm, ty, data)" and "nul_term (hdr_name a off)" and "cval (hdr_name a off) = nm"
  obtains nd where "tarfs_node a off (of_nat (length data)) c = Some nd" "node_for (off + 512, nm, ty, data) nd"
proof -
  obtain q where q: "normalize_path (hdr_name a off) = Some q" "nul_term q" "cval q = norm_name nm"
    using normalize_path_eq [OF assms(2)] assms(3) by auto
  have "length (norm_name nm) \<le> length nm"
    by (simp add: norm_name_def length_dropWhile_le)
  then have short: "take 127 (cval q) = norm_name nm"
    using assms(1) q(3) by (simp add: member_ok_def)
  have "0 \<notin> set (norm_name nm)"
    using assms(1) set_dropWhileD unfolding member_ok_def norm_name_def by fastforce
  then have "\<exists>out. kstrncpy (Some (replicate 128 0)) (Some q) 128 = Some (Some out) \<and> nul_term out \<and> cval out = norm_name nm"
    using kstrncpy_loop_eq [OF q(2), of 128 "replicate 128 0"] short by simp
  then show thesis
    using that q(1) by (auto simp: tarfs_node_def node_for_def vfs_node_zero_def)
qed

definition same_but_files :: "'a tarfs_scheme \<Rightarrow> 'a tarfs_scheme \<Rightarrow> bool" where
  "same_but_files w w' \<longleftrightarrow> tar_archive_base w' = tar_archive_base w \<and> tar_archive_size w' = tar_archive_size w \<and>
     mounts w' = mounts w \<and> mount_count w' = mount_count w"

lemma build_loop_spec:
  assumes "\<forall>e \<in> set es. member_ok e" and "a = pre @ tar_archive es" and "tarfs_file_count w \<le> 64"
  shows "\<exists>w'. build_loop a (length a) (length pre) w = Some w' \<and> same_but_files w w' \<and>
    tarfs_file_count w' = min 64 (tarfs_file_count w + length (reg_files (length pre) es)) \<and>
    (\<forall>k. tarfs_file_count w + k < tarfs_file_count w' \<longrightarrow>
       node_for (reg_files (length pre) es ! k) (vnodes w' (tarfs_files (tarfs_file_count w + k)))) \<and>
    (\<forall>n. (\<forall>j \<ge> tarfs_file_count w. n \<noteq> tarfs_files j) \<longrightarrow> vnodes w' n = vnodes w n)"
  using assms
proof (induction es arbitrary: pre w)
  case Nil
  then have "build_loop a (length a) (length pre) w = Some w"
    using end_of_archive [of a pre] by (subst build_loop.simps) (simp add: tar_archive_def at_idx_less)
  then show ?case
    using Nil.prems(3) by (simp add: same_but_files_def)
next
  case (Cons e es)
  obtain nm ty data where e: "e = (nm, ty, data)" by (cases e)
  have ok: "member_ok (nm, ty, data)" and a: "a = pre @ tar_member (nm, ty, data) @ tar_archive es"
    using Cons.prems e by (simp_all add: tar_archive_def)
  note h = member_header [OF ok a refl]
  let ?pre = "pre @ tar_member (nm, ty, data)"
  show ?case
  proof (cases "tarfs_file_count w < 64")
    case False
    then have "build_loop a (length a) (length pre) w = Some w"
      by (subst build_loop.simps) simp
    then show ?thesis
      using False Cons.prems(3) by (simp add: same_but_files_def)
  next
    case True
    obtain nd where nd: "tarfs_node a (length pre) (of_nat (length data)) (tarfs_file_count w) = Some nd"
      "node_for (length pre + 512, nm, ty, data) nd"
      by (rule tarfs_node_spec [OF ok h(4, 5)])
    define w1 where "w1 = (if regular e then w\<lparr>vnodes := (vnodes w)(tarfs_files (tarfs_file_count w) := nd),
      tarfs_file_count := tarfs_file_count w + 1\<rparr> else w)"
    have step: "build_loop a (length a) (length pre) w = build_loop a (length a) (length ?pre) w1"
      using h(1) True by (subst build_loop.simps) (auto simp: at_idx_less h(2, 3, 6, 7) nd(1) w1_def regular_def e)
    have "tarfs_file_count w1 \<le> 64" "\<forall>e \<in> set es. member_ok e" "a = ?pre @ tar_archive es"
      using True Cons.prems(1) a by (simp_all add: w1_def)
    from Cons.IH [OF this(2, 3, 1)] obtain w' where w': "build_loop a (length a) (length ?pre) w1 = Some w'"
      "same_but_files w1 w'" "tarfs_file_count w' = min 64 (tarfs_file_count w1 + length (reg_files (length ?pre) es))"
      "\<And>k. tarfs_file_count w1 + k < tarfs_file_count w' \<Longrightarrow>
        node_for (reg_files (length ?pre) es ! k) (vnodes w' (tarfs_files (tarfs_file_count w1 + k)))"
      "\<And>n. (\<forall>j \<ge> tarfs_file_count w1. n \<noteq> tarfs_files j) \<Longrightarrow> vnodes w' n = vnodes w1 n" by blast
    have regs: "reg_files (length pre) (e # es) = (if regular e then [(length pre + 512, e)] else []) @ reg_files (length ?pre) es"
      by (simp add: e)
    have "node_for (reg_files (length pre) (e # es) ! k) (vnodes w' (tarfs_files (tarfs_file_count w + k)))"
      if k: "tarfs_file_count w + k < tarfs_file_count w'" for k
    proof (cases "regular e")
      case True
      then show ?thesis
        using w'(4) [of "k - 1"] w'(5) [of "tarfs_files (tarfs_file_count w)"] k nd(2)
        by (cases k) (auto simp: regs w1_def e tarfs_files_def)
    next
      case False
      then show ?thesis
        using w'(4) [of k] k by (simp add: regs w1_def e)
    qed
    moreover have "vnodes w' n = vnodes w n" if "\<forall>j \<ge> tarfs_file_count w. n \<noteq> tarfs_files j" for n
      using w'(5) [of n] that by (auto simp: w1_def)
    ultimately show ?thesis
      using step w'(1-3) by (auto simp: same_but_files_def w1_def regs e)
  qed
qed

interpretation tfs: filesystem tarfs_ops "\<lambda>_. True" "\<lambda>_ _. True"
  by unfold_locales (auto simp: tarfs_ops_def tarfs_dir_ops_def tarfs_file_ops_def no_ops_def tarfs_vfs_finddir_def
    split: if_splits bind_splits option.splits)

definition has_archive :: "'a tarfs_scheme \<Rightarrow> tar_file list \<Rightarrow> bool" where
  "has_archive w es \<longleftrightarrow> (\<forall>e \<in> set es. member_ok e) \<and> length (tar_archive es) < 2 ^ 63 \<and>
     tar_archive_base w = Some (tar_archive es) \<and> tar_archive_size w = of_nat (length (tar_archive es))"

lemma has_archiveD:
  assumes "has_archive w es"
  shows "\<forall>e \<in> set es. member_ok e" "tar_archive_base w = Some (tar_archive es)"
    "unat (tar_archive_size w) = length (tar_archive es)" "\<not> tar_archive_size w < 512"
proof -
  show 1: "\<forall>e \<in> set es. member_ok e" "tar_archive_base w = Some (tar_archive es)"
    using assms by (simp_all add: has_archive_def)
  show 2: "unat (tar_archive_size w) = length (tar_archive es)"
    using assms by (simp add: has_archive_def unat_of_nat)
  have "512 \<le> length (tar_archive es)"
    by (simp add: tar_archive_def)
  then show "\<not> tar_archive_size w < 512"
    using 2 by (simp add: word_less_nat_alt)
qed

lemma reg_files_slice:
  assumes "\<forall>e \<in> set es. member_ok e" and "a = pre @ tar_archive es" and "(off, nm, ty, data) \<in> set (reg_files (length pre) es)"
  shows "take (length data) (drop off a) = data \<and> off + length data \<le> length a"
  using assms
proof (induction es arbitrary: pre)
  case (Cons e es)
  obtain nm' ty' data' where e: "e = (nm', ty', data')" by (cases e)
  have ok: "member_ok (nm', ty', data')" and a: "a = pre @ tar_member (nm', ty', data') @ tar_archive es"
    using Cons.prems e by (simp_all add: tar_archive_def)
  show ?case
  proof (cases "(off, nm, ty, data) = (length pre + 512, e)")
    case True
    then show ?thesis
      using member_header(8) [OF ok a refl] length_tar_member [OF ok] a by (simp add: e)
  next
    case False
    then have "(off, nm, ty, data) \<in> set (reg_files (length (pre @ tar_member e)) es)"
      using Cons.prems(3) by (auto split: if_splits)
    then show ?thesis
      using Cons.prems(1) a by (intro Cons.IH [of "pre @ tar_member e"]) (simp_all add: e)
  qed
qed simp

lemma sint_of_small:
  fixes x :: u64
  assumes "unat x < 2 ^ 63"
  shows "sint x = int (unat x)"
proof -
  have "int (unat x) < int (2 ^ 63)"
    using assms by (simp only: of_nat_less_iff)
  then have "int (unat x) < 2 ^ 63"
    by simp
  then show ?thesis
    unfolding sint_uint uint_nat by (intro signed_take_bit_int_eq_self) (simp_all add: order_trans [OF _ uint_ge_0])
qed

lemma tarfs_read_slice:
  assumes nd: "node_for (pos, nm, ty, data) (vnodes w n)" and base: "tar_archive_base w = Some a"
    and slice: "take (length data) (drop pos a) = data" "pos + length data \<le> length a"
    and small: "length data < 2 ^ 63" and nowrap: "unat offset + unat len < 2 ^ 64"
  shows "tarfs_vfs_read w n offset len =
    Some (w, take (unat len) (drop (unat offset) data), int (length (take (unat len) (drop (unat offset) data))))"
proof -
  have priv: "vn_priv_data (vnodes w n) = Some (Static ''tar_archive'' pos)" and sz: "unat (vn_size (vnodes w n)) = length data"
    using nd small by (simp_all add: node_for_def unat_of_nat)
  define to_read where "to_read = (if vn_size (vnodes w n) < offset + len then vn_size (vnodes w n) - offset else len)"
  show ?thesis
  proof (cases "vn_size (vnodes w n) \<le> offset")
    case True
    then show ?thesis
      using priv sz by (simp add: tarfs_vfs_read_def word_le_nat_alt)
  next
    case False
    then have off: "unat offset < length data"
      using sz by (simp add: word_le_nat_alt)
    have "unat (offset + len) = unat offset + unat len"
      using nowrap by (intro unat_add_no_wrap) simp
    then have n: "unat to_read = min (unat len) (length data - unat offset)"
      using sz off by (auto simp: to_read_def word_less_nat_alt unat_sub_if_size word_size)
    have "take (unat to_read) (drop (pos + unat offset) a) = take (unat to_read) (drop (unat offset) (take (length data) (drop pos a)))"
      using n off by (simp add: drop_take add.commute)
    also have "\<dots> = take (unat len) (drop (unat offset) data)"
      using n by (simp add: slice(1) min_def)
    finally have "take (unat to_read) (drop (pos + unat offset) a) = take (unat len) (drop (unat offset) data)" .
    moreover have "unat to_read \<le> length (drop (pos + unat offset) a)"
      using n off slice(2) by simp
    moreover have "sint to_read = int (length (take (unat len) (drop (unat offset) data)))"
      using n small by (simp add: sint_of_small min.commute)
    ultimately show ?thesis
      using priv base False unfolding tarfs_vfs_read_def to_read_def [symmetric] by (simp add: Let_def)
  qed
qed

lemma root_node_for:
  assumes "has_archive w es" and "k < 64" and "k < length (reg_files 0 es)" and "reg_files 0 es ! k = (pos, nm, ty, data)"
  obtains w' where "tarfs_get_vfs_root w = Some (w', tarfs_root)" "tar_archive_base w' = Some (tar_archive es)"
    "node_for (pos, nm, ty, data) (vnodes w' (tarfs_files k))" "take (length data) (drop pos (tar_archive es)) = data"
    "pos + length data \<le> length (tar_archive es)"
proof -
  note h = has_archiveD [OF assms(1)]
  let ?a = "tar_archive es"
  define w0 where "w0 = w\<lparr>vnodes := (vnodes w)(tarfs_root := vfs_node_zero\<lparr>vn_name := 47 # replicate 127 0,
      vn_type := VFS_DIRECTORY, vn_inode := 1, vn_ops := Some ''tarfs_dir_ops''\<rparr>), tarfs_file_count := 0\<rparr>"
  obtain w' where w': "build_loop ?a (length ?a) 0 w0 = Some w'" "same_but_files w0 w'"
    "tarfs_file_count w' = min 64 (length (reg_files 0 es))"
    "\<And>k. k < tarfs_file_count w' \<Longrightarrow> node_for (reg_files 0 es ! k) (vnodes w' (tarfs_files k))"
    using build_loop_spec [OF h(1), of ?a "[]" w0] by (auto simp: w0_def)
  have "tarfs_get_vfs_root w = Some (w', tarfs_root)"
    using w'(1) h by (simp add: tarfs_get_vfs_root_def Let_def w0_def)
  moreover have "node_for (pos, nm, ty, data) (vnodes w' (tarfs_files k))"
    using w'(3) w'(4) [of k] assms(2-4) by simp
  moreover have "take (length data) (drop pos ?a) = data" "pos + length data \<le> length ?a"
    using reg_files_slice [OF h(1), of ?a "[]" pos nm ty data] assms(3, 4) nth_mem by fastforce+
  moreover have "tar_archive_base w' = Some ?a"
    using w'(2) h(2) by (simp add: same_but_files_def w0_def)
  ultimately show thesis
    using that by blast
qed

section \<open>Properties\<close>

text \<open>
  C15: on a well-formed archive \<open>tarfs_lookup\<close> finds the first regular member whose name matches
  the path, up to leading slashes, dots and one \<open>bin/\<close>, and returns the place and the size of
  exactly its contents; it fails when there is none.
\<close>

theorem tarfs_lookup_first:
  assumes "has_archive w es" and "nul_term path"
  shows "\<exists>f r. tarfs_lookup w (Some path) = Some (f, r) \<and>
    (case scan (\<lambda>e. regular e \<and> names_match (cval path) (fst e)) es of
       None \<Rightarrow> f = None \<and> r = - 1
     | Some i \<Rightarrow> (\<exists>off. f = Some (off, of_nat (length (snd (snd (es ! i))))) \<and> r = 0 \<and>
         take (length (snd (snd (es ! i)))) (drop off (tar_archive es)) = snd (snd (es ! i))))"
proof -
  note h = has_archiveD [OF assms(1)]
  have eq: "tarfs_lookup w (Some path) = Some (let f = map_option (\<lambda>i. (data_off es i, of_nat (length (snd (snd (es ! i))))))
      (scan (wanted (cval path)) es) in (f, if f = None then - 1 else 0))"
    using h find_loop_spec [OF assms(2) h(1), of "tar_archive es" "[]"] by (simp add: tarfs_lookup_def Let_def)
  have w: "scan (\<lambda>e. regular e \<and> names_match (cval path) (fst e)) es = scan (wanted (cval path)) es"
    by (rule arg_cong2 [of _ _ _ _ scan]) (auto simp: wanted_def)
  show ?thesis
  proof (cases "scan (wanted (cval path)) es")
    case None
    then show ?thesis
      unfolding w using eq by simp
  next
    case (Some i)
    then have i: "i < length es"
      using scan_SomeD(1) by blast
    obtain nm ty data where e: "es ! i = (nm, ty, data)" by (cases "es ! i")
    have ok: "member_ok (nm, ty, data)"
      using h(1) i e nth_mem by metis
    have "tar_archive es = tar_archive (take i es @ es ! i # drop (Suc i) es)"
      by (rule arg_cong [OF id_take_nth_drop [OF i]])
    also have "\<dots> = concat (map tar_member (take i es)) @ tar_member (nm, ty, data) @ tar_archive (drop (Suc i) es)"
      by (simp add: tar_archive_def e)
    finally have "tar_archive es = concat (map tar_member (take i es)) @ tar_member (nm, ty, data) @ tar_archive (drop (Suc i) es)" .
    from member_header(8) [OF ok this refl] show ?thesis
      unfolding w using eq Some e by (simp add: data_off_def)
  qed
qed

definition demo_files :: "tar_file list" where
  "demo_files = [([98, 105, 110], 53, []), ([98, 105, 110, 47, 104, 105], 48, [1, 2, 3])]"

definition demo_tarfs :: tarfs where
  "demo_tarfs = \<lparr>mounts = mounts demo_vfs, mount_count = 2, vnodes = (\<lambda>_. vfs_node_zero),
     tar_archive_base = Some (tar_archive demo_files), tar_archive_size = 2560, tarfs_file_count = 0\<rparr>"

lemma demo_has_archive: "has_archive demo_tarfs demo_files"
proof -
  have "length (tar_archive demo_files) = 2560"
    by (simp add: demo_files_def tar_archive_def length_tar_member member_ok_def padding_def)
  then show ?thesis
    by (simp add: has_archive_def demo_tarfs_def demo_files_def member_ok_def)
qed

lemma demo_reg_files: "reg_files 0 demo_files = [(1024, [98, 105, 110, 47, 104, 105], 48, [1, 2, 3])]"
  by (simp add: demo_files_def regular_def length_tar_member member_ok_def padding_def)

theorem tarfs_lookup_first_witness:
  "\<exists>off. tarfs_lookup demo_tarfs (Some [47, 104, 105, 0]) = Some (Some (off, 3), 0) \<and>
     take 3 (drop off (tar_archive demo_files)) = [1, 2, 3]"
  using tarfs_lookup_first [OF demo_has_archive, of "[47, 104, 105, 0]"]
  by (auto simp: demo_files_def regular_def names_match_def norm_name_def numeral_3_eq_3)

text \<open>
  After \<open>tarfs_get_vfs_root\<close> the node of each of the first 64 regular members carries its
  name, and reading it at any offset returns the contents from there on, cut at the end of the
  file and at the requested size, for every request that does not run past the end of
  the address space.
\<close>

theorem tarfs_read_contents:
  assumes "has_archive w es" and "k < 64" and "k < length (reg_files 0 es)"
    and "reg_files 0 es ! k = (pos, nm, ty, data)" and "unat offset + unat len < 2 ^ 64"
  shows "\<exists>w'. tarfs_get_vfs_root w = Some (w', tarfs_root) \<and> cval (vn_name (vnodes w' (tarfs_files k))) = norm_name nm \<and>
    tarfs_vfs_read w' (tarfs_files k) offset len =
      Some (w', take (unat len) (drop (unat offset) data), int (length (take (unat len) (drop (unat offset) data))))"
proof -
  let ?a = "tar_archive es"
  obtain w' where w': "tarfs_get_vfs_root w = Some (w', tarfs_root)" "tar_archive_base w' = Some ?a"
    "node_for (pos, nm, ty, data) (vnodes w' (tarfs_files k))" "take (length data) (drop pos ?a) = data"
    "pos + length data \<le> length ?a"
    by (rule root_node_for [OF assms(1-4)])
  have "length ?a < 2 ^ 63"
    using assms(1) by (simp add: has_archive_def)
  then have "length data < 2 ^ 63"
    using w'(5) by linarith
  from tarfs_read_slice [OF w'(3, 2, 4, 5) this assms(5)] show ?thesis
    using w'(1, 3) by (simp add: node_for_def)
qed

text \<open>
  A read whose offset and size add up past the end of the address space escapes the clamp
  to the file size and copies from outside the archive.
\<close>

theorem tarfs_read_wraps:
  assumes "has_archive w es" and "k < 64" and "k < length (reg_files 0 es)"
    and "reg_files 0 es ! k = (pos, nm, ty, data)" and "unat offset < length data"
    and "2 ^ 64 \<le> unat offset + unat len" and "unat offset + unat len \<le> 2 ^ 64 + length data"
  shows "\<exists>w'. tarfs_get_vfs_root w = Some (w', tarfs_root) \<and> tarfs_vfs_read w' (tarfs_files k) offset len = None"
proof -
  let ?a = "tar_archive es"
  obtain w' where w': "tarfs_get_vfs_root w = Some (w', tarfs_root)" "tar_archive_base w' = Some ?a"
    "node_for (pos, nm, ty, data) (vnodes w' (tarfs_files k))" "take (length data) (drop pos ?a) = data"
    "pos + length data \<le> length ?a"
    by (rule root_node_for [OF assms(1-4)])
  have a: "length ?a < 2 ^ 63"
    using assms(1) by (simp add: has_archive_def)
  then have "length data < 2 ^ 64"
    using w'(5) by simp
  then have priv: "vn_priv_data (vnodes w' (tarfs_files k)) = Some (Static ''tar_archive'' pos)"
    and sz: "unat (vn_size (vnodes w' (tarfs_files k))) = length data"
    using w'(3) by (simp_all add: node_for_def unat_of_nat)
  have "unat (offset + len) = unat offset + unat len - 2 ^ 64"
    using assms(6) unat_u64_less [of offset] unat_u64_less [of len] by (simp add: unat_plus_if_size word_size)
  then have "\<not> vn_size (vnodes w' (tarfs_files k)) < offset + len" "\<not> vn_size (vnodes w' (tarfs_files k)) \<le> offset"
    using assms(5, 7) sz by (simp_all add: word_less_nat_alt word_le_nat_alt)
  moreover have "length ?a < unat len"
    using a w'(5) assms(5, 6) by simp
  ultimately show ?thesis
    using w'(1, 2) priv by (simp add: tarfs_vfs_read_def Let_def)
qed

end
