(* ===== verification/Process.thy ===== *)
theory Process
  imports Elf Tarfs
begin

text \<open>
  Processes and the scheduler, \<^verbatim>\<open>kernel/process/process.c\<close>: creation from an ELF image, fork, clone,
  execve, wait, exit, kill, futexes and the timer tick.

  The kernel state extends the state of the file systems by the process table, the memory and
  the processor registers the code touches.  Pointers to table slots are indices, pointers to
  kernel stacks and saved frames are physical addresses (the kernel runs on the identity
  map); a context frame is the 22 words at such an address.  Accesses through user pointers go
  through the page tables; one that would fault is an outcome without a result, \<open>None\<close>.
  \<open>fpu0\<close> is the image that \<open>fninit\<close> leaves in the FPU.  The end-of-interrupt and mask writes to the
  interrupt controller are recorded; console output is left out.  A loop around \<open>hlt\<close> is its
  test: the operation reports that it waits, and is called again after the next interrupt.
\<close>

section \<open>State\<close>

datatype process_state = FREE | READY | RUNNING | SLEEPING | ZOMBIE

record process =
  fpu_state :: bytes
  pid :: int
  ppid :: int
  tgid :: int
  is_thread :: bool
  active :: bool
  exited :: bool
  pstate :: process_state
  exit_code :: int
  proc_entry :: u64
  user_rsp :: u64
  heap_curr :: u64
  fs_base :: u64
  mmap_curr_base :: u64
  segments :: "elf_segment list"
  stack_phys_base :: u64
  stack_num_pages :: u64
  vmas :: "vm_area list"
  fd_table :: "file_desc list"
  kstack :: u64
  kstack_top :: u64
  saved_frame :: u64
  sleep_ticks_remaining :: u64
  wait_channel :: u64
  clear_child_tid :: u64
  proc_name :: bytes

definition MAX_PROCESSES :: nat where "MAX_PROCESSES = 32"
definition USER_STACK_TOP :: u64 where "USER_STACK_TOP = 0x7FFFF0000000"
definition USER_STACK_PAGES :: u64 where "USER_STACK_PAGES = 16"
definition KERNEL_STACK_PAGES :: u64 where "KERNEL_STACK_PAGES = 4"

text \<open>A slot cleared by \<open>kmemset\<close>.\<close>

definition process_zero :: process where
  "process_zero = \<lparr>fpu_state = replicate 512 0, pid = 0, ppid = 0, tgid = 0, is_thread = False, active = False,
     exited = False, pstate = FREE, exit_code = 0, proc_entry = 0, user_rsp = 0, heap_curr = 0, fs_base = 0,
     mmap_curr_base = 0, segments = [], stack_phys_base = 0, stack_num_pages = 0,
     vmas = replicate MAX_PROCESS_VMAS vma_zero, fd_table = replicate VFS_MAX_FD fd_zero, kstack = 0, kstack_top = 0,
     saved_frame = 0, sleep_ticks_remaining = 0, wait_channel = 0, clear_child_tid = 0, proc_name = replicate 32 0\<rparr>"

record kernel = tarfs +
  process_table :: "process list"
  current_proc_idx :: nat
  next_pid :: int
  scheduler_enabled :: bool
  mem :: mm
  pit_ticks :: u64
  kernel_rsp_temp :: u64
  tss_rsp0 :: u64
  fs_base_msr :: u64
  cpu_fpu :: bytes
  irq0_unmasked :: bool
  eoi_count :: nat

abbreviation proc :: "'a kernel_scheme \<Rightarrow> nat \<Rightarrow> process" where
  "proc k i \<equiv> process_table k ! i"

definition set_proc :: "nat \<Rightarrow> process \<Rightarrow> 'a kernel_scheme \<Rightarrow> 'a kernel_scheme" where
  "set_proc i p k = k\<lparr>process_table := (process_table k)[i := p]\<rparr>"

definition process_init :: "'a kernel_scheme \<Rightarrow> 'a kernel_scheme" where
  "process_init k = k\<lparr>process_table := replicate MAX_PROCESSES process_zero, current_proc_idx := 0, next_pid := 1,
     scheduler_enabled := False\<rparr>"

section \<open>Memory accesses\<close>

text \<open>User pointers, byte by byte through the tables the processor uses.\<close>

definition vphys :: "mm \<Rightarrow> u64 \<Rightarrow> u64 option" where
  "vphys m a = map_option fst (walk (ram m) (cr3 m) a)"

definition vld32 :: "mm \<Rightarrow> u64 \<Rightarrow> u32 option" where
  "vld32 m a = do {
     p0 \<leftarrow> vphys m a; p1 \<leftarrow> vphys m (a + 1); p2 \<leftarrow> vphys m (a + 2); p3 \<leftarrow> vphys m (a + 3);
     Some (ucast (ram m p0) OR push_bit 8 (ucast (ram m p1)) OR push_bit 16 (ucast (ram m p2)) OR
       push_bit 24 (ucast (ram m p3)))
   }"

definition vst32 :: "mm \<Rightarrow> u64 \<Rightarrow> u32 \<Rightarrow> mm option" where
  "vst32 m a v = do {
     p0 \<leftarrow> vphys m a; p1 \<leftarrow> vphys m (a + 1); p2 \<leftarrow> vphys m (a + 2); p3 \<leftarrow> vphys m (a + 3);
     Some (m\<lparr>ram := (ram m)(p0 := ucast v, p1 := ucast (drop_bit 8 v), p2 := ucast (drop_bit 16 v),
       p3 := ucast (drop_bit 24 v))\<rparr>)
   }"

text \<open>\<open>kstrncpy\<close> of a string object into memory: the copied prefix and its terminator.\<close>

definition mem_strncpy :: "memory \<Rightarrow> u64 \<Rightarrow> bytes \<Rightarrow> nat \<Rightarrow> memory option" where
  "mem_strncpy r dst src n = do {
     out \<leftarrow> kstrncpy (Some (replicate n 0)) (Some src) n;
     Some (copy_in r dst (cval (the out) @ [0]))
   }"

text \<open>The offsets of the fields of a context frame.\<close>

definition FRAME_SIZE :: u64 where "FRAME_SIZE = 176"
definition F_RAX :: u64 where "F_RAX = 112"
definition F_RIP :: u64 where "F_RIP = 136"
definition F_CS :: u64 where "F_CS = 144"
definition F_RFLAGS :: u64 where "F_RFLAGS = 152"
definition F_RSP :: u64 where "F_RSP = 160"
definition F_SS :: u64 where "F_SS = 168"

text \<open>The frame from which \<open>iretq\<close> enters a fresh program.\<close>

definition user_frame :: "memory \<Rightarrow> u64 \<Rightarrow> u64 \<Rightarrow> u64 \<Rightarrow> memory" where
  "user_frame r frame rip rsp =
     (let r = kmemset r frame 0 (unat FRAME_SIZE);
          r = st64 r (frame + F_RIP) rip;
          r = st64 r (frame + F_CS) (0x20 OR 3);
          r = st64 r (frame + F_RFLAGS) 0x202;
          r = st64 r (frame + F_RSP) rsp
      in st64 r (frame + F_SS) (0x18 OR 3))"

text \<open>The words at the initial stack pointer: argc, argv, envp and the auxiliary vector.\<close>

definition user_stack :: "memory \<Rightarrow> u64 \<Rightarrow> bytes \<Rightarrow> memory option" where
  "user_stack r phys_top name = do {
     r \<leftarrow> mem_strncpy r (phys_top - 64) name 63;
     let sp = phys_top - 256;
         r = st64 r sp 1;
         r = st64 r (sp + 8) (USER_STACK_TOP - 64);
         r = st64 r (sp + 16) 0;
         r = st64 r (sp + 24) 0;
         r = st64 r (sp + 32) 0
     in Some (st64 r (sp + 40) 0)
   }"

definition stack_bytes :: u64 where
  "stack_bytes = USER_STACK_PAGES * of_nat PAGE_SIZE"

section \<open>Creation\<close>

text \<open>The loop that records the segments of the image and creates their areas.\<close>

fun segment_vmas :: "elf_segment list \<Rightarrow> vm_area list \<Rightarrow> vm_area list" where
  "segment_vmas [] vs = vs"
| "segment_vmas (s # ss) vs =
     segment_vmas ss (fst (vma_create vs (seg_virt s) (seg_virt s + seg_pages s * of_nat PAGE_SIZE)
       (VMA_PROT_READ OR VMA_PROT_WRITE OR VMA_PROT_EXEC) VMA_MAP_PRIVATE))"

definition stack_vma :: "vm_area list \<Rightarrow> vm_area list" where
  "stack_vma vs = fst (vma_create vs (USER_STACK_TOP - stack_bytes) USER_STACK_TOP
     (VMA_PROT_READ OR VMA_PROT_WRITE) (VMA_MAP_PRIVATE OR VMA_MAP_ANONYMOUS))"

definition str_app :: bytes where "str_app = [97, 112, 112, 0]"

definition process_create_from_elf ::
    "bytes \<Rightarrow> 'a kernel_scheme \<Rightarrow> elf_info \<Rightarrow> cptr \<Rightarrow> ('a kernel_scheme \<times> nat option) option" where
  "process_create_from_elf fpu0 k info name =
     (case scan (\<lambda>p. \<not> active p) (process_table k) of
        None \<Rightarrow> Some (k, None)
      | Some idx \<Rightarrow> do {
          nm \<leftarrow> kstrncpy (Some (replicate 32 0)) name 31;
          let pd = next_pid k; (vs, base) = vmm_init_process pd;
              p = process_zero\<lparr>pid := pd, ppid := 0, tgid := pd, is_thread := False, active := True, exited := False,
                pstate := READY, proc_entry := entry_point info, heap_curr := page_round_up (max_vaddr info),
                proc_name := the nm, fd_table := fd_table_init, mmap_curr_base := base,
                segments := elf_segments info, vmas := segment_vmas (elf_segments info) vs\<rparr>
          in do {
            (m, ks) \<leftarrow> alloc_pages (mem k) KERNEL_STACK_PAGES;
            (m, stack_phys) \<leftarrow> alloc_pages m USER_STACK_PAGES;
            m \<leftarrow> map_user_pages m (USER_STACK_TOP - stack_bytes) stack_phys (unat USER_STACK_PAGES);
            r \<leftarrow> user_stack (ram m) (stack_phys + stack_bytes) (case name of Some s \<Rightarrow> s | None \<Rightarrow> str_app);
            let top = ks + KERNEL_STACK_PAGES * of_nat PAGE_SIZE;
                rsp = (USER_STACK_TOP - 256) AND NOT 0xF;
                frame = top - FRAME_SIZE;
                m = m\<lparr>ram := user_frame r frame (entry_point info) rsp\<rparr>;
                p = p\<lparr>kstack := ks, kstack_top := top, stack_phys_base := stack_phys, stack_num_pages := USER_STACK_PAGES,
                  vmas := stack_vma (vmas p), user_rsp := rsp, saved_frame := frame, fpu_state := fpu0\<rparr>
            in Some (set_proc idx p (k\<lparr>next_pid := pd + 1, mem := m, cpu_fpu := fpu0, current_proc_idx := idx\<rparr>), Some idx)
          }
        })"

text \<open>The jump to user mode: the state and the frame that is restored.\<close>

definition process_jump_to_user :: "'a kernel_scheme \<Rightarrow> nat \<Rightarrow> 'a kernel_scheme \<times> u64" where
  "process_jump_to_user k i =
     (let p = proc k i;
          k = k\<lparr>tss_rsp0 := kstack_top p, kernel_rsp_temp := kstack_top p, scheduler_enabled := True, irq0_unmasked := True,
            cpu_fpu := fpu_state p\<rparr>
      in (set_proc i (p\<lparr>pstate := RUNNING\<rparr>) k, saved_frame p))"

text \<open>
  The first free slot above slot 0, which stays with the first process.  The caller of fork and
  clone is active, so the slot is never its own.
\<close>

definition free_slot :: "process list \<Rightarrow> nat option" where
  "free_slot ps = map_option Suc (scan (\<lambda>p. \<not> active p) (drop 1 ps))"

definition process_fork :: "'a kernel_scheme \<Rightarrow> u64 \<Rightarrow> ('a kernel_scheme \<times> int) option" where
  "process_fork k frame =
     (case free_slot (process_table k) of
        None \<Rightarrow> Some (k, - 12)
      | Some child_idx \<Rightarrow>
          let parent = proc k (current_proc_idx k);
              k = set_proc child_idx process_zero k;
              child = process_zero\<lparr>pid := next_pid k, ppid := pid parent, tgid := next_pid k, is_thread := False,
                active := True, exited := False, proc_entry := proc_entry parent, heap_curr := heap_curr parent,
                fs_base := fs_base parent\<rparr>
          in do {
            nm \<leftarrow> kstrncpy (Some (proc_name child)) (Some (proc_name parent)) 31;
            (m, ks) \<leftarrow> alloc_pages (mem k) KERNEL_STACK_PAGES;
            (m, stack_phys) \<leftarrow> alloc_pages m USER_STACK_PAGES;
            let top = ks + KERNEL_STACK_PAGES * of_nat PAGE_SIZE;
                child_frame = top - FRAME_SIZE;
                r = kmemcpy (ram m) stack_phys (stack_phys_base parent) (unat stack_bytes);
                r = kmemcpy r child_frame frame (unat FRAME_SIZE);
                r = st64 r (child_frame + F_RAX) 0;
                r = st64 r (child_frame + F_RFLAGS) (ld64 r (child_frame + F_RFLAGS) OR 0x202);
                (k, fds) = fd_table_clone k (fd_table parent);
                child = child\<lparr>proc_name := the nm, segments := segments parent, kstack := ks, kstack_top := top,
                  stack_phys_base := stack_phys, stack_num_pages := USER_STACK_PAGES, saved_frame := child_frame,
                  user_rsp := ld64 r (frame + F_RSP), fpu_state := fpu_state parent,
                  mmap_curr_base := mmap_curr_base parent, vmas := vmas parent, fd_table := fds, pstate := READY\<rparr>
            in Some (set_proc child_idx child (k\<lparr>next_pid := next_pid k + 1, mem := m\<lparr>ram := r\<rparr>\<rparr>), pid child)
          })"

definition process_clone ::
    "'a kernel_scheme \<Rightarrow> u64 \<Rightarrow> u64 \<Rightarrow> u64 \<Rightarrow> u64 \<Rightarrow> u64 \<Rightarrow> u64 \<Rightarrow> ('a kernel_scheme \<times> int) option" where
  "process_clone k flags child_stack ptid ctid newtls frame =
     (if flags AND 0x100 = 0 then process_fork k frame
      else (case free_slot (process_table k) of
          None \<Rightarrow> Some (k, - 12)
        | Some thread_idx \<Rightarrow>
            let parent = proc k (current_proc_idx k);
                k = set_proc thread_idx process_zero k;
                thread = process_zero\<lparr>pid := next_pid k, ppid := pid parent,
                  tgid := (if tgid parent \<noteq> 0 then tgid parent else pid parent), is_thread := True, active := True,
                  exited := False, proc_entry := proc_entry parent, heap_curr := heap_curr parent,
                  fs_base := (if newtls \<noteq> 0 then newtls else fs_base parent),
                  stack_phys_base := stack_phys_base parent\<rparr>
            in do {
              nm \<leftarrow> kstrncpy (Some (proc_name thread)) (Some (proc_name parent)) 31;
              let (k, fds) = fd_table_clone k (fd_table parent) in do {
                (m, ks) \<leftarrow> alloc_pages (mem k) KERNEL_STACK_PAGES;
                let top = ks + KERNEL_STACK_PAGES * of_nat PAGE_SIZE;
                    tframe = top - FRAME_SIZE;
                    r = kmemcpy (ram m) tframe frame (unat FRAME_SIZE);
                    r = (if child_stack \<noteq> 0 then st64 r (tframe + F_RSP) child_stack else r);
                    r = st64 r (tframe + F_RAX) 0;
                    r = st64 r (tframe + F_RFLAGS) (ld64 r (tframe + F_RFLAGS) OR 0x202);
                    m = m\<lparr>ram := r\<rparr>
                in do {
                  m' \<leftarrow> (if ptid \<noteq> 0 \<and> flags AND 0x100000 \<noteq> 0 then vst32 m ptid (of_int (pid thread)) else Some m);
                  let thread = thread\<lparr>proc_name := the nm, fd_table := fds, segments := segments parent, kstack := ks,
                        kstack_top := top, saved_frame := tframe, user_rsp := ld64 r (tframe + F_RSP),
                        clear_child_tid := (if ctid \<noteq> 0 \<and> flags AND 0x200000 \<noteq> 0 then ctid else 0),
                        fpu_state := fpu_state parent, mmap_curr_base := mmap_curr_base parent, vmas := vmas parent,
                        pstate := READY\<rparr>
                  in Some (set_proc thread_idx thread (k\<lparr>next_pid := next_pid k + 1, mem := m'\<rparr>), pid thread)
                }
              }
            }))"

text \<open>
  \<open>execve\<close>: the code on failure, or the frame of the new program.  \<open>argv0\<close> is \<open>argv[0]\<close> when \<open>argv\<close>
  and \<open>argv[0]\<close> are not null.
\<close>

definition exec_image ::
    "bytes \<Rightarrow> 'a kernel_scheme \<Rightarrow> elf_info \<Rightarrow> bytes \<Rightarrow> ('a kernel_scheme \<times> u64) option" where
  "exec_image fpu0 k info src_name =
     (let i = current_proc_idx k; p = proc k i; (vs, base) = vmm_init_process (pid p) in do {
        nm \<leftarrow> kstrncpy (Some (proc_name p)) (Some src_name) 31;
        (m, stack_phys) \<leftarrow> (if stack_phys_base p = 0 then alloc_pages (mem k) USER_STACK_PAGES else Some (mem k, stack_phys_base p));
        m \<leftarrow> map_user_pages m (USER_STACK_TOP - stack_bytes) stack_phys (unat USER_STACK_PAGES);
        r \<leftarrow> user_stack (ram m) (stack_phys + stack_bytes) src_name;
        let rsp = (USER_STACK_TOP - 256) AND NOT 0xF;
            frame = kstack_top p - FRAME_SIZE;
            m = mm_flush_tlb (m\<lparr>ram := user_frame r frame (entry_point info) rsp\<rparr>);
            p = p\<lparr>proc_entry := entry_point info, heap_curr := page_round_up (max_vaddr info), proc_name := the nm,
              segments := elf_segments info, vmas := stack_vma (segment_vmas (elf_segments info) vs), mmap_curr_base := base,
              stack_phys_base := stack_phys,
              stack_num_pages := (if stack_phys_base p = 0 then USER_STACK_PAGES else stack_num_pages p),
              user_rsp := rsp, saved_frame := frame, fpu_state := fpu0\<rparr>
        in Some (process_jump_to_user (set_proc i p (k\<lparr>mem := m, cpu_fpu := fpu0\<rparr>)) i)
      })"

definition elf_info_zero :: elf_info where
  "elf_info_zero = \<lparr>entry_point = 0, min_vaddr = 0, max_vaddr = 0, elf_segments = []\<rparr>"

definition process_execve ::
    "bytes \<Rightarrow> 'a kernel_scheme \<Rightarrow> cptr \<Rightarrow> cptr \<Rightarrow> ('a kernel_scheme \<times> (int + u64)) option" where
  "process_execve fpu0 k path argv0 =
     (case path of
        None \<Rightarrow> Some (k, Inl (- 14))
      | Some pth \<Rightarrow> do {
          (f, r) \<leftarrow> tarfs_lookup k path;
          (case (if r = 0 then f else None) of
             None \<Rightarrow> Some (k, Inl (- 2))
           | Some (off, elf_size) \<Rightarrow> do {
               (m, info, r) \<leftarrow> elf_load_binary (mem k) (map_option (drop off) (tar_archive_base k)) elf_size elf_info_zero;
               let k = k\<lparr>mem := m\<rparr> in
               if r \<noteq> 0 then Some (k, Inl (- 8))
               else do {
                 (k, frame) \<leftarrow> exec_image fpu0 k info (case argv0 of Some a \<Rightarrow> a | None \<Rightarrow> pth);
                 Some (k, Inr frame)
               }
             })
        })"

section \<open>Termination and waiting\<close>

definition wait_matches :: "int \<Rightarrow> process \<Rightarrow> process \<Rightarrow> bool" where
  "wait_matches pd parent p \<longleftrightarrow> active p \<and> (pid p = pd \<or> pd \<le> 0 \<and> ppid p = pid parent)"

definition has_exited :: "process \<Rightarrow> bool" where
  "has_exited p \<longleftrightarrow> pstate p = ZOMBIE \<or> exited p"

text \<open>One round of \<open>process_wait4\<close>: the returned value, or \<open>None\<close> when the caller halts and tries again.\<close>

definition process_wait4 :: "'a kernel_scheme \<Rightarrow> int \<Rightarrow> u64 \<Rightarrow> ('a kernel_scheme \<times> int option) option" where
  "process_wait4 k pd status_ptr =
     (let parent = proc k (current_proc_idx k) in
      case scan (\<lambda>p. wait_matches pd parent p \<and> has_exited p) (process_table k) of
        Some i \<Rightarrow> do {
          m \<leftarrow> (if status_ptr \<noteq> 0 then vst32 (mem k) status_ptr (of_int (push_bit 8 (exit_code (proc k i) AND 0xFF))) else Some (mem k));
          Some (set_proc i ((proc k i)\<lparr>active := False, exited := False, pstate := FREE\<rparr>) (k\<lparr>mem := m\<rparr>),
                Some (pid (proc k i)))
        }
      | None \<Rightarrow>
          if \<exists>p \<in> set (process_table k). wait_matches pd parent p then Some (k, None) else Some (k, Some (- 10)))"

fun wake_loop :: "u64 \<Rightarrow> int \<Rightarrow> int \<Rightarrow> process list \<Rightarrow> process list \<times> int" where
  "wake_loop uaddr count woken [] = ([], woken)"
| "wake_loop uaddr count woken (p # ps) =
     (if active p \<and> pstate p = SLEEPING \<and> wait_channel p = uaddr then
        let p = p\<lparr>wait_channel := 0, pstate := READY\<rparr>; woken = woken + 1 in
        if count \<le> woken then (p # ps, woken)
        else (case wake_loop uaddr count woken ps of (ps, w) \<Rightarrow> (p # ps, w))
      else (case wake_loop uaddr count woken ps of (ps, w) \<Rightarrow> (p # ps, w)))"

definition futex_wake :: "'a kernel_scheme \<Rightarrow> u64 \<Rightarrow> int \<Rightarrow> 'a kernel_scheme \<times> int" where
  "futex_wake k uaddr count =
     (if uaddr = 0 \<or> count \<le> 0 then (k, 0)
      else (case wake_loop uaddr count 0 (process_table k) of (ps, woken) \<Rightarrow> (k\<lparr>process_table := ps\<rparr>, woken)))"

text \<open>The code, or \<open>None\<close> when the caller has gone to sleep on the address.\<close>

definition futex_wait :: "'a kernel_scheme \<Rightarrow> u64 \<Rightarrow> u32 \<Rightarrow> ('a kernel_scheme \<times> int option) option" where
  "futex_wait k uaddr val =
     (if uaddr = 0 then Some (k, Some (- 14))
      else do {
        v \<leftarrow> vld32 (mem k) uaddr;
        if v \<noteq> val then Some (k, Some (- 11))
        else
          let i = current_proc_idx k
          in Some (set_proc i ((proc k i)\<lparr>wait_channel := uaddr, pstate := SLEEPING\<rparr>) k, None)
      })"

text \<open>The test of the loop in which \<open>futex_wait\<close> halts.\<close>

definition futex_waiting :: "'a kernel_scheme \<Rightarrow> nat \<Rightarrow> u64 \<Rightarrow> bool" where
  "futex_waiting k i uaddr \<longleftrightarrow> wait_channel (proc k i) = uaddr"

fun free_fds :: "(string \<Rightarrow> 'a kernel_scheme vfs_ops) \<Rightarrow> nat \<Rightarrow> nat \<Rightarrow> nat \<Rightarrow> 'a kernel_scheme \<Rightarrow> 'a kernel_scheme option" where
  "free_fds ops i f 0 k = Some k"
| "free_fds ops i f (Suc n) k =
     (if fd_in_use (fd_table (proc k i) ! f) then
        (case fd_free ops k (fd_table (proc k i)) (int f) of
           None \<Rightarrow> None
         | Some (k', t', r) \<Rightarrow> free_fds ops i (f + 1) n (set_proc i ((proc k' i)\<lparr>fd_table := t'\<rparr>) k'))
      else free_fds ops i (f + 1) n k)"

definition close_all_fds :: "(string \<Rightarrow> 'a kernel_scheme vfs_ops) \<Rightarrow> nat \<Rightarrow> 'a kernel_scheme \<Rightarrow> 'a kernel_scheme option" where
  "close_all_fds ops i k = free_fds ops i 3 (VFS_MAX_FD - 3) k"

definition make_zombie :: "int \<Rightarrow> process \<Rightarrow> process" where
  "make_zombie code p = p\<lparr>exited := True, exit_code := code, pstate := ZOMBIE, active := False\<rparr>"

definition kill_children :: "int \<Rightarrow> int \<Rightarrow> process list \<Rightarrow> process list" where
  "kill_children parent code ps = map (\<lambda>p. if active p \<and> ppid p = parent then make_zombie code p else p) ps"

definition wake_parent :: "int \<Rightarrow> process list \<Rightarrow> process list" where
  "wake_parent parent ps = map (\<lambda>p. if active p \<and> pid p = parent \<and> pstate p = SLEEPING then p\<lparr>pstate := READY\<rparr> else p) ps"

text \<open>\<open>process_exit\<close> does not return: it powers the machine off or halts until it is switched away from.\<close>

datatype exit_outcome = Powered_off u8 | Halted

definition clear_tid :: "nat \<Rightarrow> 'a kernel_scheme \<Rightarrow> 'a kernel_scheme option" where
  "clear_tid i k =
     (let tid = clear_child_tid (proc k i) in
      if tid \<noteq> 0 then do {
        m \<leftarrow> vst32 (mem k) tid 0;
        Some (fst (futex_wake (k\<lparr>mem := m\<rparr>) tid 1))
      } else Some k)"

definition end_process :: "nat \<Rightarrow> int \<Rightarrow> 'a kernel_scheme \<Rightarrow> 'a kernel_scheme \<times> exit_outcome" where
  "end_process i code k =
     (let p = proc k i in
      if pid p = 1 then (k, Powered_off (of_int code))
      else if is_thread p then (set_proc i (p\<lparr>pstate := ZOMBIE, exit_code := code, active := False\<rparr>) k, Halted)
      else
        let k = set_proc i (p\<lparr>exited := True, exit_code := code, pstate := ZOMBIE\<rparr>) k
        in (k\<lparr>process_table := wake_parent (ppid p) (kill_children (pid p) code (process_table k))\<rparr>, Halted))"

definition process_exit ::
    "(string \<Rightarrow> 'a kernel_scheme vfs_ops) \<Rightarrow> 'a kernel_scheme \<Rightarrow> int \<Rightarrow> ('a kernel_scheme \<times> exit_outcome) option" where
  "process_exit ops k code =
     (let i = current_proc_idx k in do {
        k \<leftarrow> close_all_fds ops i k;
        k \<leftarrow> clear_tid i k;
        Some (end_process i code k)
      })"

definition process_kill ::
    "(string \<Rightarrow> 'a kernel_scheme vfs_ops) \<Rightarrow> 'a kernel_scheme \<Rightarrow> int \<Rightarrow> int \<Rightarrow> ('a kernel_scheme \<times> int) option" where
  "process_kill ops k pd sig =
     (case scan (\<lambda>p. active p \<and> pid p = pd) (process_table k) of
        None \<Rightarrow> Some (k, - 3)
      | Some i \<Rightarrow> do {
          k \<leftarrow> close_all_fds ops i (set_proc i (make_zombie sig (proc k i)) k);
          Some (k\<lparr>process_table := wake_parent (ppid (proc k i)) (process_table k)\<rparr>, 0)
        })"

section \<open>The timer tick\<close>

definition tick_sleeper :: "process \<Rightarrow> process" where
  "tick_sleeper p =
     (if active p \<and> pstate p = SLEEPING \<and> 0 < sleep_ticks_remaining p then
        let p = p\<lparr>sleep_ticks_remaining := sleep_ticks_remaining p - 1\<rparr>
        in if sleep_ticks_remaining p = 0 \<and> wait_channel p = 0 then p\<lparr>pstate := READY\<rparr> else p
      else p)"

definition save_current :: "u64 \<Rightarrow> process \<Rightarrow> process" where
  "save_current frame p =
     (if active p then
        let p = p\<lparr>saved_frame := frame\<rparr> in if pstate p = RUNNING then p\<lparr>pstate := READY\<rparr> else p
      else p)"

definition runnable :: "process \<Rightarrow> bool" where
  "runnable p \<longleftrightarrow> active p \<and> pstate p = READY"

text \<open>The candidates in round-robin order, and the choice with its fallbacks.\<close>

definition candidates :: "nat \<Rightarrow> nat list" where
  "candidates cur = map (\<lambda>i. (cur + i) mod MAX_PROCESSES) [1 ..< MAX_PROCESSES + 1]"

definition pick_next :: "process list \<Rightarrow> nat \<Rightarrow> nat" where
  "pick_next ps cur =
     (case scan (\<lambda>c. runnable (ps ! c)) (candidates cur) of
        Some j \<Rightarrow> candidates cur ! j
      | None \<Rightarrow>
          if active (ps ! cur) \<and> (pstate (ps ! cur) = READY \<or> pstate (ps ! cur) = RUNNING) then cur else 0)"

fun map_segments :: "mm \<Rightarrow> elf_segment list \<Rightarrow> mm option" where
  "map_segments m [] = Some m"
| "map_segments m (s # ss) =
     (case map_user_pages m (seg_virt s) (seg_phys s) (unat (seg_pages s)) of None \<Rightarrow> None | Some m \<Rightarrow> map_segments m ss)"

definition remap :: "process \<Rightarrow> mm \<Rightarrow> mm option" where
  "remap nxt m = do {
     m \<leftarrow> map_segments m (segments nxt);
     m \<leftarrow> (if stack_phys_base nxt \<noteq> 0
           then map_user_pages m (USER_STACK_TOP - stack_bytes) (stack_phys_base nxt) (unat USER_STACK_PAGES) else Some m);
     Some (mm_flush_tlb m)
   }"

definition switch_to :: "'a kernel_scheme \<Rightarrow> nat \<Rightarrow> nat \<Rightarrow> 'a kernel_scheme option" where
  "switch_to k cur_idx next_idx =
     (let cur = proc k cur_idx; nxt = proc k next_idx;
          k = (if active cur then set_proc cur_idx (cur\<lparr>fpu_state := cpu_fpu k\<rparr>) k else k);
          k = k\<lparr>cpu_fpu := fpu_state nxt\<rparr>;
          k = (if fs_base nxt \<noteq> 0 then k\<lparr>fs_base_msr := fs_base nxt\<rparr> else k)
      in do {
        m \<leftarrow> (if \<not> is_thread nxt \<or> tgid nxt \<noteq> tgid cur then remap nxt (mem k) else Some (mem k));
        Some (k\<lparr>mem := m, current_proc_idx := next_idx\<rparr>)
      })"

text \<open>The state after the tick and the frame that the interrupt returns to.\<close>

definition scheduler_tick :: "'a kernel_scheme \<Rightarrow> u64 \<Rightarrow> ('a kernel_scheme \<times> u64) option" where
  "scheduler_tick k current_frame =
     (let k = k\<lparr>pit_ticks := pit_ticks k + 1\<rparr> in
      if \<not> scheduler_enabled k then Some (k\<lparr>eoi_count := eoi_count k + 1\<rparr>, current_frame)
      else
        let cur_idx = current_proc_idx k;
            k = k\<lparr>process_table := map tick_sleeper (process_table k)\<rparr>;
            k = set_proc cur_idx (save_current current_frame (proc k cur_idx)) k;
            next_idx = pick_next (process_table k) cur_idx
        in do {
          k \<leftarrow> (if next_idx \<noteq> cur_idx then switch_to k cur_idx next_idx else Some k);
          let nxt = proc k next_idx;
              k = set_proc next_idx (nxt\<lparr>pstate := RUNNING\<rparr>) k
          in Some (k\<lparr>tss_rsp0 := kstack_top nxt, kernel_rsp_temp := kstack_top nxt, eoi_count := eoi_count k + 1\<rparr>, saved_frame nxt)
        })"

definition timer_interrupt_handler :: "'a kernel_scheme \<Rightarrow> u64 \<Rightarrow> ('a kernel_scheme \<times> u64) option" where
  "timer_interrupt_handler k frame = scheduler_tick k frame"

section \<open>What a tick does\<close>

definition sched_ok :: "'a kernel_scheme \<Rightarrow> bool" where
  "sched_ok k \<longleftrightarrow> length (process_table k) = MAX_PROCESSES \<and> current_proc_idx k < MAX_PROCESSES \<and> mm_ok (mem k) \<and>
     scheduler_enabled k \<and> active (proc k 0) \<and>
     (\<forall>i < MAX_PROCESSES. pstate (proc k i) = RUNNING \<longrightarrow> i = current_proc_idx k \<and> active (proc k i))"

lemma map_segments_total: "mm_ok m \<Longrightarrow> \<exists>m'. map_segments m ss = Some m' \<and> mm_ok m'"
proof (induction ss arbitrary: m)
  case (Cons s ss)
  obtain m1 where "map_user_pages m (seg_virt s) (seg_phys s) (unat (seg_pages s)) = Some m1" "mm_ok m1"
    by (rule map_user_pages_total [OF Cons.prems])
  then show ?case
    using Cons.IH by simp
qed simp

lemma remap_total:
  assumes "mm_ok m"
  obtains m' where "remap p m = Some m'" "mm_ok m'"
proof -
  obtain m1 where 1: "map_segments m (segments p) = Some m1" "mm_ok m1"
    using map_segments_total [OF assms] by blast
  obtain m2 where 2: "map_user_pages m1 (USER_STACK_TOP - stack_bytes) (stack_phys_base p) (unat USER_STACK_PAGES) = Some m2" "mm_ok m2"
    by (rule map_user_pages_total [OF 1(2)])
  show thesis
    using that 1 2 by (cases "stack_phys_base p = 0") (auto simp: remap_def)
qed

text \<open>The table before the choice, and after saving the FPU of a process that loses the processor.\<close>

definition ticked :: "'a kernel_scheme \<Rightarrow> u64 \<Rightarrow> process list" where
  "ticked k frame = (let ps = map tick_sleeper (process_table k)
     in ps[current_proc_idx k := save_current frame (ps ! current_proc_idx k)])"

definition tick_next :: "'a kernel_scheme \<Rightarrow> u64 \<Rightarrow> nat" where
  "tick_next k frame = pick_next (ticked k frame) (current_proc_idx k)"

definition fpu_saved :: "'a kernel_scheme \<Rightarrow> u64 \<Rightarrow> process list" where
  "fpu_saved k frame = (let ps = ticked k frame; c = current_proc_idx k in
     if tick_next k frame \<noteq> c \<and> active (ps ! c) then ps[c := (ps ! c)\<lparr>fpu_state := cpu_fpu k\<rparr>] else ps)"

lemma switch_to_total:
  assumes "mm_ok (mem k)" and "i \<noteq> j"
  obtains k' where "switch_to k i j = Some k'" "mm_ok (mem k')" "current_proc_idx k' = j"
    "process_table k' = (if active (proc k i) then (process_table k)[i := (proc k i)\<lparr>fpu_state := cpu_fpu k\<rparr>] else process_table k)"
    "cpu_fpu k' = fpu_state (proc k j)" "scheduler_enabled k' = scheduler_enabled k"
proof -
  obtain m where m: "remap (proc k j) (mem k) = Some m" "mm_ok m"
    by (rule remap_total [OF assms(1)])
  then show thesis
    using that assms(1)
    by (cases "active (proc k i)"; cases "fs_base (proc k j) = 0"; cases "\<not> is_thread (proc k j) \<or> tgid (proc k j) \<noteq> tgid (proc k i)")
      (auto simp: switch_to_def Let_def set_proc_def)
qed

lemma candidates_less: "c \<in> set (candidates cur) \<Longrightarrow> c < MAX_PROCESSES"
  by (auto simp: candidates_def MAX_PROCESSES_def)

lemma pick_next_less:
  assumes "cur < MAX_PROCESSES"
  shows "pick_next ps cur < MAX_PROCESSES"
proof (cases "scan (\<lambda>c. runnable (ps ! c)) (candidates cur)")
  case (Some j)
  then show ?thesis
    using candidates_less [OF nth_mem [OF scan_SomeD(1) [OF Some]]] by (simp add: pick_next_def)
qed (use assms in \<open>simp add: pick_next_def MAX_PROCESSES_def\<close>)

lemma tick_eq:
  assumes "sched_ok k"
  obtains k' where
    "scheduler_tick k frame = Some (k', saved_frame (fpu_saved k frame ! tick_next k frame))"
    "process_table k' = (fpu_saved k frame)[tick_next k frame := (fpu_saved k frame ! tick_next k frame)\<lparr>pstate := RUNNING\<rparr>]"
    "current_proc_idx k' = tick_next k frame" "mm_ok (mem k')" "scheduler_enabled k'"
    "cpu_fpu k' = (if tick_next k frame = current_proc_idx k then cpu_fpu k else fpu_state (ticked k frame ! tick_next k frame))"
    "kernel_rsp_temp k' = kstack_top (fpu_saved k frame ! tick_next k frame)"
proof -
  define k1 where "k1 = k\<lparr>pit_ticks := pit_ticks k + 1, process_table := ticked k frame\<rparr>"
  have k1: "process_table k1 = ticked k frame" "current_proc_idx k1 = current_proc_idx k" "mem k1 = mem k" "cpu_fpu k1 = cpu_fpu k"
    "scheduler_enabled k1"
    using assms by (simp_all add: k1_def sched_ok_def)
  have mm: "mm_ok (mem k1)" and en: "scheduler_enabled k"
    using assms by (simp_all add: k1 sched_ok_def)
  let ?n = "tick_next k frame" and ?c = "current_proc_idx k"
  define fin where "fin k' = set_proc ?n ((proc k' ?n)\<lparr>pstate := RUNNING\<rparr>) k'\<lparr>tss_rsp0 := kstack_top (proc k' ?n),
    kernel_rsp_temp := kstack_top (proc k' ?n), eoi_count := eoi_count k' + 1\<rparr>" for k' :: "'a kernel_scheme"
  have tick: "scheduler_tick k frame = do {
      k' \<leftarrow> (if ?n \<noteq> ?c then switch_to k1 ?c ?n else Some k1);
      Some (fin k', saved_frame (proc k' ?n)) }"
    using en by (simp add: scheduler_tick_def Let_def set_proc_def k1_def ticked_def tick_next_def fin_def)
  have fin: "process_table (fin k') = (process_table k')[?n := (proc k' ?n)\<lparr>pstate := RUNNING\<rparr>]"
    "current_proc_idx (fin k') = current_proc_idx k'" "mem (fin k') = mem k'" "cpu_fpu (fin k') = cpu_fpu k'"
    "scheduler_enabled (fin k') = scheduler_enabled k'" "kernel_rsp_temp (fin k') = kstack_top (proc k' ?n)" for k'
    by (simp_all add: fin_def set_proc_def)
  show thesis
  proof (cases "?n = ?c")
    case True
    then have "fpu_saved k frame = ticked k frame"
      by (simp add: fpu_saved_def Let_def)
    then show thesis
      by (intro that [of "fin k1"]) (use tick True k1 mm in \<open>simp_all add: fin\<close>)
  next
    case False
    obtain k2 where k2: "switch_to k1 ?c ?n = Some k2" "mm_ok (mem k2)" "current_proc_idx k2 = ?n"
      "process_table k2 = (if active (proc k1 ?c) then (process_table k1)[?c := (proc k1 ?c)\<lparr>fpu_state := cpu_fpu k1\<rparr>] else process_table k1)"
      "cpu_fpu k2 = fpu_state (proc k1 ?n)" "scheduler_enabled k2 = scheduler_enabled k1"
      by (rule switch_to_total [OF mm False [symmetric]])
    have "process_table k2 = fpu_saved k frame"
      using k2(4) False k1 by (simp add: fpu_saved_def Let_def)
    then show thesis
      by (intro that [of "fin k2"]) (use tick False k1 k2 in \<open>simp_all add: fin\<close>)
  qed
qed

section \<open>Scheduling\<close>

lemma tick_sleeper_simps [simp]:
  "active (tick_sleeper p) = active p" "pstate (tick_sleeper p) = RUNNING \<longleftrightarrow> pstate p = RUNNING"
  "saved_frame (tick_sleeper p) = saved_frame p" "fpu_state (tick_sleeper p) = fpu_state p"
  by (simp_all add: tick_sleeper_def Let_def)

lemma tick_sleeper_awake: "pstate p \<noteq> SLEEPING \<Longrightarrow> tick_sleeper p = p"
  by (simp add: tick_sleeper_def)

lemma save_current_simps [simp]:
  "active (save_current f p) = active p" "fpu_state (save_current f p) = fpu_state p"
  "saved_frame (save_current f p) = (if active p then f else saved_frame p)"
  "pstate (save_current f p) = (if active p \<and> pstate p = RUNNING then READY else pstate p)"
  by (simp_all add: save_current_def Let_def)

lemma length_ticked [simp]: "length (ticked k f) = length (process_table k)"
  by (simp add: ticked_def Let_def)

lemma ticked_nth:
  "i < length (process_table k) \<Longrightarrow> ticked k f ! i =
    (if i = current_proc_idx k then save_current f (tick_sleeper (proc k i)) else tick_sleeper (proc k i))"
  by (simp add: ticked_def Let_def nth_list_update)

lemma fpu_saved_nth:
  "i < length (process_table k) \<Longrightarrow> fpu_saved k f ! i =
    (if i = current_proc_idx k \<and> tick_next k f \<noteq> i \<and> active (proc k i) then (ticked k f ! i)\<lparr>fpu_state := cpu_fpu k\<rparr>
     else ticked k f ! i)"
  by (auto simp: fpu_saved_def Let_def nth_list_update ticked_nth)

lemma fpu_saved_same:
  assumes "i < length (process_table k)"
  shows "active (fpu_saved k f ! i) = active (ticked k f ! i)" "pstate (fpu_saved k f ! i) = pstate (ticked k f ! i)"
    "saved_frame (fpu_saved k f ! i) = saved_frame (ticked k f ! i)" "kstack_top (fpu_saved k f ! i) = kstack_top (ticked k f ! i)"
    "sleep_ticks_remaining (fpu_saved k f ! i) = sleep_ticks_remaining (ticked k f ! i)"
    "wait_channel (fpu_saved k f ! i) = wait_channel (ticked k f ! i)"
  using assms by (simp_all add: fpu_saved_nth)

lemma length_fpu_saved [simp]: "length (fpu_saved k f) = length (process_table k)"
  by (simp add: fpu_saved_def Let_def)

text \<open>The number of slots between the current one and another in round-robin order.\<close>

definition gap :: "nat \<Rightarrow> nat \<Rightarrow> nat" where
  "gap c j = (if c < j then j - c - 1 else j + (MAX_PROCESSES - 1) - c)"

lemma candidates_nth: "c < MAX_PROCESSES \<Longrightarrow> m < MAX_PROCESSES \<Longrightarrow> candidates c ! m = (c + m + 1) mod MAX_PROCESSES"
  by (simp add: candidates_def del: upt_Suc)

lemma candidates_gap: "c < MAX_PROCESSES \<Longrightarrow> j < MAX_PROCESSES \<Longrightarrow> gap c j < MAX_PROCESSES \<and> candidates c ! gap c j = j"
  by (auto simp: gap_def candidates_nth MAX_PROCESSES_def mod_if)

lemma gap_candidates: "c < MAX_PROCESSES \<Longrightarrow> m < MAX_PROCESSES \<Longrightarrow> gap c (candidates c ! m) = m"
  by (auto simp: gap_def candidates_nth MAX_PROCESSES_def mod_if)

lemma pick_next_round_robin:
  assumes "cur < MAX_PROCESSES" and "j < MAX_PROCESSES" and "runnable (ps ! j)"
  shows "runnable (ps ! pick_next ps cur) \<and> gap cur (pick_next ps cur) \<le> gap cur j"
proof -
  have g: "gap cur j < MAX_PROCESSES" "candidates cur ! gap cur j = j"
    using candidates_gap [OF assms(1, 2)] by auto
  have len: "length (candidates cur) = MAX_PROCESSES"
    by (simp add: candidates_def del: upt_Suc)
  then obtain m where m: "scan (\<lambda>c. runnable (ps ! c)) (candidates cur) = Some m" "m \<le> gap cur j"
    using scan_ex [of "gap cur j" "candidates cur" "\<lambda>c. runnable (ps ! c)"] g assms(3) by auto
  then have "m < MAX_PROCESSES"
    using scan_SomeD(1) len by metis
  then show ?thesis
    using m scan_SomeD(2) [OF m(1)] gap_candidates [OF assms(1)] by (simp add: pick_next_def)
qed

lemma pick_next_active:
  assumes "cur < MAX_PROCESSES" and "active (ps ! 0)"
  shows "active (ps ! pick_next ps cur)"
proof (cases "scan (\<lambda>c. runnable (ps ! c)) (candidates cur)")
  case (Some j)
  then show ?thesis
    using scan_SomeD(2) [OF Some] by (simp add: pick_next_def runnable_def)
qed (use assms(2) in \<open>simp add: pick_next_def\<close>)

lemma gap_shrinks:
  "c < MAX_PROCESSES \<Longrightarrow> n < MAX_PROCESSES \<Longrightarrow> j < MAX_PROCESSES \<Longrightarrow> n \<noteq> j \<Longrightarrow> gap c n \<le> gap c j \<Longrightarrow> gap n j < gap c j"
  by (auto simp: gap_def MAX_PROCESSES_def split: if_splits)

lemma tick_next_less: "sched_ok k \<Longrightarrow> tick_next k f < MAX_PROCESSES"
  by (simp add: tick_next_def pick_next_less sched_ok_def)

lemma tick_ok:
  assumes ok: "sched_ok k"
  obtains k' g where "scheduler_tick k f = Some (k', g)" "sched_ok k'" "current_proc_idx k' = tick_next k f"
    "pstate (proc k' (tick_next k f)) = RUNNING"
    "\<And>i. i < MAX_PROCESSES \<Longrightarrow> i \<noteq> tick_next k f \<Longrightarrow> proc k' i = fpu_saved k f ! i"
    "kernel_rsp_temp k' = kstack_top (proc k' (tick_next k f))"
proof -
  let ?n = "tick_next k f" and ?c = "current_proc_idx k"
  have len: "length (process_table k) = MAX_PROCESSES" and c: "?c < MAX_PROCESSES" and n: "?n < MAX_PROCESSES"
    and a0: "active (proc k 0)" and pos: "0 < MAX_PROCESSES"
    using ok tick_next_less [OF ok] by (simp_all add: sched_ok_def MAX_PROCESSES_def)
  have run: "\<And>i. i < MAX_PROCESSES \<Longrightarrow> pstate (proc k i) = RUNNING \<Longrightarrow> i = ?c \<and> active (proc k i)"
    using ok by (simp add: sched_ok_def)
  obtain k' where k': "scheduler_tick k f = Some (k', saved_frame (fpu_saved k f ! ?n))"
    "process_table k' = (fpu_saved k f)[?n := (fpu_saved k f ! ?n)\<lparr>pstate := RUNNING\<rparr>]"
    "current_proc_idx k' = ?n" "mm_ok (mem k')" "scheduler_enabled k'"
    "kernel_rsp_temp k' = kstack_top (fpu_saved k f ! ?n)"
    by (rule tick_eq [OF ok])
  have act: "active (fpu_saved k f ! i) = active (proc k i)" if "i < MAX_PROCESSES" for i
    using that len by (simp add: fpu_saved_same ticked_nth)
  have notrun: "pstate (fpu_saved k f ! i) \<noteq> RUNNING" if "i < MAX_PROCESSES" for i
  proof -
    have "pstate (fpu_saved k f ! i) = pstate (ticked k f ! i)"
      using that len by (simp add: fpu_saved_same)
    moreover have "pstate (ticked k f ! i) \<noteq> RUNNING"
    proof (cases "pstate (proc k i) = RUNNING")
      case True
      then show ?thesis
        using run [OF that True, THEN conjunct1] run [OF that True, THEN conjunct2] that len
        by (simp add: ticked_nth)
    next
      case False
      then show ?thesis
        using that len by (auto simp: ticked_nth)
    qed
    ultimately show ?thesis by simp
  qed
  have "active (ticked k f ! i) = active (proc k i)" if "i < MAX_PROCESSES" for i
    using that len by (simp add: ticked_nth)
  then have "active (proc k ?n)"
    using pick_next_active [OF c, of "ticked k f"] a0 n pos by (simp add: tick_next_def)
  then have "sched_ok k'"
    using k' len n act notrun a0 pos by (auto simp: sched_ok_def nth_list_update)
  then show thesis
    using that k' len n by (auto simp: nth_list_update)
qed

text \<open>Ticks in a row, and ticks with system calls of the running processes in between.\<close>

fun run_ticks :: "(u64 \<times> ('a kernel_scheme \<Rightarrow> 'a kernel_scheme)) list \<Rightarrow> 'a kernel_scheme \<Rightarrow> 'a kernel_scheme option" where
  "run_ticks [] k = Some k"
| "run_ticks ((frame, e) # es) k = (case scheduler_tick (e k) frame of None \<Rightarrow> None | Some (k', _) \<Rightarrow> run_ticks es k')"

definition ticks :: "nat \<Rightarrow> u64 \<Rightarrow> 'a kernel_scheme \<Rightarrow> 'a kernel_scheme option" where
  "ticks n frame k = run_ticks (replicate n (frame, id)) k"

text \<open>System calls that leave the scheduler intact and do not stop the process in slot \<open>j\<close>.\<close>

definition spares :: "nat \<Rightarrow> ('a kernel_scheme \<Rightarrow> 'a kernel_scheme) \<Rightarrow> bool" where
  "spares j e \<longleftrightarrow> (\<forall>k. sched_ok k \<longrightarrow> sched_ok (e k) \<and> current_proc_idx (e k) = current_proc_idx k \<and>
     (runnable (proc k j) \<longrightarrow> runnable (proc (e k) j)))"

lemma ticked_runnable: "j < length (process_table k) \<Longrightarrow> runnable (proc k j) \<Longrightarrow> runnable (ticked k f ! j)"
  by (cases "j = current_proc_idx k") (simp_all add: ticked_nth runnable_def tick_sleeper_awake)

lemma fairness:
  assumes "sched_ok k" and "j < MAX_PROCESSES" and "runnable (proc k j)" and "\<forall>(f, e) \<in> set es. spares j e"
    and "gap (current_proc_idx k) j < length es"
  shows "\<exists>n k'. 0 < n \<and> n \<le> length es \<and> run_ticks (take n es) k = Some k' \<and> current_proc_idx k' = j \<and> pstate (proc k' j) = RUNNING"
  using assms
proof (induction es arbitrary: k)
  case (Cons fe es)
  obtain f e where fe: "fe = (f, e)" by (cases fe)
  have sp: "spares j e"
    using Cons.prems(4) fe by auto
  let ?k = "e k" and ?n = "tick_next (e k) f"
  have ok: "sched_ok ?k" and cur: "current_proc_idx ?k = current_proc_idx k" and run: "runnable (proc ?k j)"
    using sp Cons.prems(1, 3) by (simp_all add: spares_def)
  have len: "length (process_table ?k) = MAX_PROCESSES" and c: "current_proc_idx ?k < MAX_PROCESSES"
    using ok by (simp_all add: sched_ok_def)
  obtain k' g where k': "scheduler_tick ?k f = Some (k', g)" "sched_ok k'" "current_proc_idx k' = ?n"
    "pstate (proc k' ?n) = RUNNING" "\<And>i. i < MAX_PROCESSES \<Longrightarrow> i \<noteq> ?n \<Longrightarrow> proc k' i = fpu_saved ?k f ! i"
    by (rule tick_ok [OF ok, of f]) blast
  have step: "run_ticks (take (Suc m) (fe # es)) k = run_ticks (take m es) k'" for m
    using k'(1) fe by simp
  show ?case
  proof (cases "?n = j")
    case True
    then show ?thesis
      using step [of 0] k'(3, 4) by (intro exI [of _ 1] exI [of _ k']) simp
  next
    case False
    have "runnable (ticked ?k f ! j)"
      using ticked_runnable [of j ?k f] run len Cons.prems(2) by simp
    then have "runnable (proc k' j)"
      using k'(5) [OF Cons.prems(2) False [symmetric]] len Cons.prems(2) by (simp add: fpu_saved_same runnable_def)
    moreover have "gap (current_proc_idx ?k) ?n \<le> gap (current_proc_idx ?k) j"
      using pick_next_round_robin [OF c Cons.prems(2) \<open>runnable (ticked ?k f ! j)\<close>] by (simp add: tick_next_def)
    then have "gap ?n j < gap (current_proc_idx k) j"
      using gap_shrinks [OF c tick_next_less [OF ok] Cons.prems(2) False] cur by simp
    then have "gap (current_proc_idx k') j < length es"
      using Cons.prems(5) k'(3) by simp
    ultimately obtain n k'' where "0 < n" "n \<le> length es" "run_ticks (take n es) k' = Some k''"
      "current_proc_idx k'' = j" "pstate (proc k'' j) = RUNNING"
      using Cons.IH [OF k'(2) Cons.prems(2)] Cons.prems(4) by auto
    then show ?thesis
      using step [of n] by (intro exI [of _ "Suc n"] exI [of _ k'']) simp
  qed
qed simp

subsection \<open>Sleeping\<close>

lemma pick_next_awake:
  assumes "pick_next ps cur = i" and "i \<noteq> 0"
  shows "pstate (ps ! i) = READY \<or> pstate (ps ! i) = RUNNING"
proof (cases "scan (\<lambda>c. runnable (ps ! c)) (candidates cur)")
  case (Some j)
  then show ?thesis
    using assms scan_SomeD(2) [OF Some] by (auto simp: pick_next_def runnable_def)
next
  case None
  then show ?thesis
    using assms by (auto simp: pick_next_def split: if_splits)
qed

definition asleep :: "nat \<Rightarrow> process \<Rightarrow> bool" where
  "asleep n p \<longleftrightarrow> active p \<and> pstate p = SLEEPING \<and> wait_channel p = 0 \<and> unat (sleep_ticks_remaining p) = n"

lemma tick_sleeper_asleep:
  assumes "asleep (Suc n) p"
  shows "if n = 0 then runnable (tick_sleeper p) \<and> sleep_ticks_remaining (tick_sleeper p) = 0
    else asleep n (tick_sleeper p)"
proof -
  have n: "unat (sleep_ticks_remaining p) = Suc n"
    using assms by (simp add: asleep_def)
  then have "0 < sleep_ticks_remaining p"
    by (simp add: word_less_nat_alt)
  moreover have "unat (sleep_ticks_remaining p - 1) = n"
    using n by (simp add: unat_sub word_le_nat_alt)
  moreover have "sleep_ticks_remaining p - 1 = 0 \<longleftrightarrow> n = 0"
    using calculation(2) by (metis unat_eq_zero)
  ultimately show ?thesis
    using assms by (auto simp: asleep_def tick_sleeper_def runnable_def Let_def)
qed

lemma save_current_asleep: "asleep n p \<Longrightarrow> asleep n (save_current f p)"
  by (auto simp: asleep_def save_current_def Let_def)

lemma asleep_tick:
  assumes ok: "sched_ok k" and i: "i < MAX_PROCESSES" "i \<noteq> 0" and sl: "asleep (Suc n) (proc k i)"
  obtains k' g where "scheduler_tick k f = Some (k', g)" "sched_ok k'"
    "if n = 0 then active (proc k' i) \<and> (pstate (proc k' i) = READY \<or> pstate (proc k' i) = RUNNING) \<and>
       sleep_ticks_remaining (proc k' i) = 0 else asleep n (proc k' i)"
proof -
  have len: "length (process_table k) = MAX_PROCESSES"
    using ok by (simp add: sched_ok_def)
  obtain k' g where k': "scheduler_tick k f = Some (k', g)" "sched_ok k'" "current_proc_idx k' = tick_next k f"
    "pstate (proc k' (tick_next k f)) = RUNNING" "\<And>i. i < MAX_PROCESSES \<Longrightarrow> i \<noteq> tick_next k f \<Longrightarrow> proc k' i = fpu_saved k f ! i"
    and eq: "process_table k' = (fpu_saved k f)[tick_next k f := (fpu_saved k f ! tick_next k f)\<lparr>pstate := RUNNING\<rparr>]"
    by (rule tick_ok [OF ok, of f]) (metis tick_eq [OF ok, of f] option.inject prod.inject)
  note ts = tick_sleeper_asleep [OF sl]
  show thesis
  proof (cases "n = 0")
    case True
    then have "runnable (ticked k f ! i)" "sleep_ticks_remaining (ticked k f ! i) = 0"
      using ts i(1) len by (auto simp: ticked_nth runnable_def save_current_def Let_def)
    then have "active (proc k' i) \<and> (pstate (proc k' i) = READY \<or> pstate (proc k' i) = RUNNING) \<and>
        sleep_ticks_remaining (proc k' i) = 0"
      unfolding eq using i(1) len by (cases "tick_next k f = i") (simp_all add: runnable_def fpu_saved_same)
    then show thesis
      using that [OF k'(1, 2)] True by simp
  next
    case False
    then have "asleep n (ticked k f ! i)"
      using ts i(1) len by (auto simp: ticked_nth save_current_asleep)
    moreover from this have "tick_next k f \<noteq> i"
      using pick_next_awake [of "ticked k f" "current_proc_idx k" i] i(2) by (auto simp: tick_next_def asleep_def)
    ultimately show thesis
      using that [OF k'(1, 2)] False k'(5) [OF i(1)] i(1) len by (simp add: asleep_def fpu_saved_same)
  qed
qed

lemma asleep_ticks:
  assumes "sched_ok k" and "i < MAX_PROCESSES" "i \<noteq> 0" and "asleep n (proc k i)" and "t < n"
  shows "\<exists>k'. ticks t f k = Some k' \<and> sched_ok k' \<and> asleep (n - t) (proc k' i)"
  using assms
proof (induction t arbitrary: k n)
  case 0
  then show ?case
    by (simp add: ticks_def)
next
  case (Suc t)
  obtain m where m: "n = Suc m" "t < m"
    using Suc.prems(5) by (cases n) auto
  obtain k1 g where "scheduler_tick k f = Some (k1, g)" "sched_ok k1" "asleep m (proc k1 i)"
    using asleep_tick [OF Suc.prems(1-3), of m f] Suc.prems(4) m by (metis not_less0)
  then show ?case
    using Suc.IH [of k1 m] Suc.prems(2, 3) m by (auto simp: ticks_def)
qed

lemma run_ticks_append:
  "run_ticks (es @ fs) k = (case run_ticks es k of None \<Rightarrow> None | Some k' \<Rightarrow> run_ticks fs k')"
  by (induction es k rule: run_ticks.induct) (auto split: option.splits)

lemma ticks_Suc: "ticks (Suc n) f k = (case ticks n f k of None \<Rightarrow> None | Some k' \<Rightarrow> map_option fst (scheduler_tick k' f))"
  unfolding ticks_def replicate_Suc replicate_append_same [symmetric] run_ticks_append
  by (auto split: option.splits)

subsection \<open>A sleeper in slot 0\<close>

text \<open>Slot 0 is the fallback of the scheduler: alone, it is made to run while it sleeps.\<close>

definition lone :: "'a kernel_scheme \<Rightarrow> bool" where
  "lone k \<longleftrightarrow> sched_ok k \<and> current_proc_idx k = 0 \<and> (\<forall>i < MAX_PROCESSES. i \<noteq> 0 \<longrightarrow> \<not> active (proc k i))"

lemma pick_next_lone:
  assumes "\<forall>i < MAX_PROCESSES. i \<noteq> 0 \<longrightarrow> \<not> active (ps ! i)"
  shows "pick_next ps 0 = 0"
proof (cases "scan (\<lambda>c. runnable (ps ! c)) (candidates 0)")
  case (Some j)
  then have "candidates 0 ! j < MAX_PROCESSES" "runnable (ps ! (candidates 0 ! j))"
    using scan_SomeD(1, 2) [OF Some] candidates_less [OF nth_mem] by auto
  then show ?thesis
    using assms Some by (auto simp: pick_next_def runnable_def)
qed (simp add: pick_next_def)

lemma lone_tick:
  assumes "lone k"
  obtains k' g where "scheduler_tick k f = Some (k', g)" "lone k'" "pstate (proc k' 0) = RUNNING"
    "sleep_ticks_remaining (proc k' 0) = sleep_ticks_remaining (tick_sleeper (proc k 0))"
proof -
  have ok: "sched_ok k" and c: "current_proc_idx k = 0" and len: "length (process_table k) = MAX_PROCESSES"
    and pos: "0 < MAX_PROCESSES"
    using assms by (auto simp: lone_def sched_ok_def MAX_PROCESSES_def)
  have "\<not> active (ticked k f ! i)" if "i < MAX_PROCESSES" "i \<noteq> 0" for i
    using that assms len by (simp add: lone_def ticked_nth c)
  then have n: "tick_next k f = 0"
    using pick_next_lone by (simp add: tick_next_def c)
  obtain k' where k': "scheduler_tick k f = Some (k', saved_frame (fpu_saved k f ! tick_next k f))"
    "process_table k' = (fpu_saved k f)[tick_next k f := (fpu_saved k f ! tick_next k f)\<lparr>pstate := RUNNING\<rparr>]"
    by (rule tick_eq [OF ok])
  obtain k'' g where k'': "scheduler_tick k f = Some (k'', g)" "sched_ok k''" "current_proc_idx k'' = tick_next k f"
    "pstate (proc k'' (tick_next k f)) = RUNNING"
    "\<And>i. i < MAX_PROCESSES \<Longrightarrow> i \<noteq> tick_next k f \<Longrightarrow> proc k'' i = fpu_saved k f ! i"
    by (rule tick_ok [OF ok, of f]) blast
  have same: "k'' = k'"
    using k'(1) k''(1) by simp
  have "\<not> active (proc k' i)" if "i < MAX_PROCESSES" "i \<noteq> 0" for i
    using that k''(5) [of i] same n len assms by (simp add: fpu_saved_same ticked_nth c lone_def)
  then have "lone k'"
    using k''(2, 3) same n by (simp add: lone_def)
  moreover have "sleep_ticks_remaining (proc k' 0) = sleep_ticks_remaining (tick_sleeper (proc k 0))"
    using k'(2) n len pos by (simp add: fpu_saved_same ticked_nth c save_current_def Let_def)
  ultimately show thesis
    using that k'(1) k''(4) same n by simp
qed

lemma lone_running_stuck:
  assumes "lone k" and "pstate (proc k 0) = RUNNING"
  shows "\<exists>k'. ticks t f k = Some k' \<and> lone k' \<and> pstate (proc k' 0) = RUNNING \<and>
    sleep_ticks_remaining (proc k' 0) = sleep_ticks_remaining (proc k 0)"
  using assms
proof (induction t arbitrary: k)
  case (Suc t)
  obtain k1 g where "scheduler_tick k f = Some (k1, g)" "lone k1" "pstate (proc k1 0) = RUNNING"
    "sleep_ticks_remaining (proc k1 0) = sleep_ticks_remaining (tick_sleeper (proc k 0))"
    by (rule lone_tick [OF Suc.prems(1)])
  then show ?case
    using Suc.IH [of k1] Suc.prems(2) by (auto simp: ticks_def tick_sleeper_awake)
qed (simp add: ticks_def)

section \<open>Properties of the scheduler\<close>

text \<open>
  C6: the timer tick always returns; afterwards exactly one process is running, it is the
  one whose slot is current, it is active, and the kernel stack of the processor is its own.
\<close>

theorem tick_one_running:
  assumes "sched_ok k"
  shows "\<exists>k' g. scheduler_tick k frame = Some (k', g) \<and> sched_ok k' \<and>
    kernel_rsp_temp k' = kstack_top (proc k' (current_proc_idx k')) \<and> active (proc k' (current_proc_idx k')) \<and>
    (\<forall>i < MAX_PROCESSES. pstate (proc k' i) = RUNNING \<longleftrightarrow> i = current_proc_idx k')"
proof -
  obtain k' g where "scheduler_tick k frame = Some (k', g)" "sched_ok k'" "current_proc_idx k' = tick_next k frame"
    "pstate (proc k' (tick_next k frame)) = RUNNING" "kernel_rsp_temp k' = kstack_top (proc k' (tick_next k frame))"
    by (rule tick_ok [OF assms, of frame]) blast
  then show ?thesis
    by (auto simp: sched_ok_def)
qed

definition demo_proc :: "int \<Rightarrow> process_state \<Rightarrow> process" where
  "demo_proc n s = process_zero\<lparr>pid := n, tgid := n, ppid := 1, active := True, pstate := s, saved_frame := of_int n * 0x1000,
     kstack_top := of_int n * 0x4000\<rparr>"

definition demo_kernel :: "process list \<Rightarrow> kernel" where
  "demo_kernel ps = \<lparr>mounts = mounts demo_vfs, mount_count = 2, vnodes = (\<lambda>_. vfs_node_zero),
     tar_archive_base = Some (tar_archive demo_files), tar_archive_size = 2560, tarfs_file_count = 0,
     process_table = ps @ replicate (MAX_PROCESSES - length ps) process_zero, current_proc_idx = 0, next_pid = 10,
     scheduler_enabled = True, mem = mm_empty, pit_ticks = 0, kernel_rsp_temp = 0, tss_rsp0 = 0, fs_base_msr = 0,
     cpu_fpu = replicate 512 7, irq0_unmasked = True, eoi_count = 0\<rparr>"

lemma demo_kernel_simps [simp]:
  "current_proc_idx (demo_kernel ps) = 0" "mem (demo_kernel ps) = mm_empty" "scheduler_enabled (demo_kernel ps)"
  "process_table (demo_kernel ps) = ps @ replicate (MAX_PROCESSES - length ps) process_zero" "cpu_fpu (demo_kernel ps) = replicate 512 7"
  by (simp_all add: demo_kernel_def)

lemma demo_sched_ok:
  assumes "ps \<noteq> []" and "length ps \<le> MAX_PROCESSES" and "active (ps ! 0)" and "\<forall>i < length ps. 0 < i \<longrightarrow> pstate (ps ! i) \<noteq> RUNNING"
  shows "sched_ok (demo_kernel ps)"
  using assms mm_ok_empty
  by (auto simp: sched_ok_def MAX_PROCESSES_def nth_append process_zero_def Suc_le_eq split: if_splits)

definition demo_two :: kernel where
  "demo_two = demo_kernel [demo_proc 1 RUNNING, demo_proc 2 READY]"

lemma demo_two_ok: "sched_ok demo_two"
  unfolding demo_two_def by (rule demo_sched_ok) (auto simp: demo_proc_def MAX_PROCESSES_def less_Suc_eq)

theorem tick_one_running_witness:
  "\<exists>k' g. scheduler_tick demo_two 0x8000 = Some (k', g) \<and> active (proc k' (current_proc_idx k'))"
  using tick_one_running [OF demo_two_ok, of "0x8000"] by auto

text \<open>
  C5: scheduling is fair: a ready process runs within 32 ticks, whatever system calls the other
  processes make in between, as long as none of them stops it.
\<close>

theorem scheduler_fair:
  assumes "sched_ok k" and "j < MAX_PROCESSES" and "runnable (proc k j)" and "length es = MAX_PROCESSES"
    and "\<forall>(f, e) \<in> set es. spares j e"
  shows "\<exists>n k'. 0 < n \<and> n \<le> MAX_PROCESSES \<and> run_ticks (take n es) k = Some k' \<and> current_proc_idx k' = j \<and>
    pstate (proc k' j) = RUNNING"
proof -
  have "current_proc_idx k < MAX_PROCESSES"
    using assms(1) by (simp add: sched_ok_def)
  then have "gap (current_proc_idx k) j < length es"
    using candidates_gap [OF _ assms(2)] assms(4) by simp
  from fairness [OF assms(1-3, 5) this] show ?thesis
    using assms(4) by simp
qed

lemma demo_two_runnable: "runnable (proc demo_two 1)"
  by (simp add: demo_two_def runnable_def demo_proc_def)

theorem scheduler_fair_witness:
  "\<exists>n k'. 0 < n \<and> run_ticks (take n (replicate 32 (0x8000, id))) demo_two = Some k' \<and> current_proc_idx k' = 1"
  using scheduler_fair [OF demo_two_ok _ demo_two_runnable, of "replicate 32 (0x8000, id)"]
  by (auto simp: MAX_PROCESSES_def spares_def)

text \<open>
  C7: a process that loses the processor gets it back as it was: the interrupt frame it
  is resumed from is the one it was stopped with and the FPU holds what it held, provided
  nothing changed the saved state in between.
\<close>

theorem context_preserved:
  assumes "sched_ok k" and "active (proc k (current_proc_idx k))" and "scheduler_tick k frame = Some (k1, g)"
    and "current_proc_idx k1 \<noteq> current_proc_idx k" and "sched_ok k2" and "current_proc_idx k2 \<noteq> current_proc_idx k"
    and "saved_frame (proc k2 (current_proc_idx k)) = saved_frame (proc k1 (current_proc_idx k))"
    and "fpu_state (proc k2 (current_proc_idx k)) = fpu_state (proc k1 (current_proc_idx k))"
    and "scheduler_tick k2 frame2 = Some (k3, g3)" and "current_proc_idx k3 = current_proc_idx k"
  shows "g3 = frame \<and> cpu_fpu k3 = cpu_fpu k"
proof -
  let ?c = "current_proc_idx k"
  have c: "?c < MAX_PROCESSES" and len: "length (process_table k) = MAX_PROCESSES" and len2: "length (process_table k2) = MAX_PROCESSES"
    using assms(1, 5) by (simp_all add: sched_ok_def)
  obtain k1' where k1: "scheduler_tick k frame = Some (k1', saved_frame (fpu_saved k frame ! tick_next k frame))"
    "process_table k1' = (fpu_saved k frame)[tick_next k frame := (fpu_saved k frame ! tick_next k frame)\<lparr>pstate := RUNNING\<rparr>]"
    "current_proc_idx k1' = tick_next k frame"
    by (rule tick_eq [OF assms(1)])
  have "k1' = k1" and n: "tick_next k frame \<noteq> ?c"
    using k1 assms(3, 4) by auto
  then have "proc k1 ?c = fpu_saved k frame ! ?c"
    using k1(2) c len by simp
  then have saved: "saved_frame (proc k1 ?c) = frame" "fpu_state (proc k1 ?c) = cpu_fpu k"
    using c len n assms(2) by (simp_all add: fpu_saved_nth ticked_nth)
  obtain k3' where k3: "scheduler_tick k2 frame2 = Some (k3', saved_frame (fpu_saved k2 frame2 ! tick_next k2 frame2))"
    "current_proc_idx k3' = tick_next k2 frame2"
    "cpu_fpu k3' = (if tick_next k2 frame2 = current_proc_idx k2 then cpu_fpu k2 else fpu_state (ticked k2 frame2 ! tick_next k2 frame2))"
    by (rule tick_eq [OF assms(5)])
  then have "k3' = k3" "tick_next k2 frame2 = ?c" "g3 = saved_frame (fpu_saved k2 frame2 ! ?c)"
    using assms(9, 10) by auto
  then show ?thesis
    using k3(3) assms(6-8) saved c len2 by (simp add: fpu_saved_same ticked_nth)
qed

lemma tick_next_other:
  assumes ok: "sched_ok k" and j: "j < MAX_PROCESSES" "j \<noteq> current_proc_idx k" "runnable (proc k j)"
    and others: "\<forall>i < MAX_PROCESSES. i \<noteq> current_proc_idx k \<and> i \<noteq> j \<longrightarrow> \<not> active (proc k i)"
  shows "tick_next k f = j"
proof -
  let ?c = "current_proc_idx k" and ?n = "tick_next k f"
  have c: "?c < MAX_PROCESSES" and len: "length (process_table k) = MAX_PROCESSES" and n: "?n < MAX_PROCESSES"
    using ok tick_next_less [OF ok] by (simp_all add: sched_ok_def)
  have "runnable (ticked k f ! j)"
    using ticked_runnable j(1, 3) len by metis
  from pick_next_round_robin [OF c j(1) this]
  have nx: "runnable (ticked k f ! ?n)" "gap ?c ?n \<le> gap ?c j"
    by (simp_all add: tick_next_def)
  have "active (proc k ?n)"
    using nx(1) n len by (auto simp: runnable_def ticked_nth split: if_splits)
  then have "?n = ?c \<or> ?n = j"
    using others n by blast
  moreover have "gap ?c j < gap ?c ?c"
    using c j(1, 2) by (auto simp: gap_def MAX_PROCESSES_def)
  ultimately show ?thesis
    using nx(2) by auto
qed

theorem context_preserved_witness:
  "\<exists>k1 g k3. scheduler_tick demo_two 0x8000 = Some (k1, g) \<and> scheduler_tick k1 0x9000 = Some (k3, 0x8000) \<and>
     cpu_fpu k3 = replicate 512 7"
proof -
  have two: "process_table demo_two = [demo_proc 1 RUNNING, demo_proc 2 READY] @ replicate 30 process_zero"
    "current_proc_idx demo_two = 0" "cpu_fpu demo_two = replicate 512 7"
    by (simp_all add: demo_two_def MAX_PROCESSES_def)
  have off: "\<not> active (proc demo_two i)" if "i < MAX_PROCESSES" "i \<noteq> 0" "i \<noteq> 1" for i
    using that by (auto simp: two MAX_PROCESSES_def process_zero_def nth_append nth_Cons split: nat.splits)
  have n: "tick_next demo_two 0x8000 = 1"
    using off by (intro tick_next_other [OF demo_two_ok]) (auto simp: two runnable_def demo_proc_def MAX_PROCESSES_def)
  obtain k1 g where k1: "scheduler_tick demo_two 0x8000 = Some (k1, g)" "sched_ok k1" "current_proc_idx k1 = tick_next demo_two 0x8000"
    "pstate (proc k1 (tick_next demo_two 0x8000)) = RUNNING"
    "\<And>i. i < MAX_PROCESSES \<Longrightarrow> i \<noteq> tick_next demo_two 0x8000 \<Longrightarrow> proc k1 i = fpu_saved demo_two 0x8000 ! i"
    by (rule tick_ok [OF demo_two_ok, of "0x8000"]) blast
  have "proc k1 i = fpu_saved demo_two 0x8000 ! i" if "i < MAX_PROCESSES" "i \<noteq> 1" for i
    using k1(5) that n by simp
  then have same: "active (proc k1 i) = active (ticked demo_two 0x8000 ! i)" "pstate (proc k1 i) = pstate (ticked demo_two 0x8000 ! i)"
    if "i < MAX_PROCESSES" "i \<noteq> 1" for i
    using that by (simp_all add: fpu_saved_same two MAX_PROCESSES_def)
  have st: "active (proc k1 i) = active (proc demo_two i)" if "i < MAX_PROCESSES" "i \<noteq> 1" for i
    using same [OF that] that by (simp add: ticked_nth two MAX_PROCESSES_def)
  have st0: "runnable (proc k1 0)"
    using same [of 0] by (simp add: ticked_nth two MAX_PROCESSES_def runnable_def demo_proc_def tick_sleeper_def)
  have n3: "tick_next k1 0x9000 = 0"
    using st st0 off k1(3) n by (intro tick_next_other [OF k1(2)]) (auto simp: MAX_PROCESSES_def)
  obtain k3 g3 where k3: "scheduler_tick k1 0x9000 = Some (k3, g3)" "current_proc_idx k3 = tick_next k1 0x9000"
    by (rule tick_ok [OF k1(2), of "0x9000"]) blast
  have "active (proc demo_two 0)"
    by (simp add: two demo_proc_def)
  then show ?thesis
    using context_preserved [OF demo_two_ok _ k1(1) _ k1(2) _ _ _ k3(1)] k1 k3 n n3 two by auto
qed

text \<open>
  A process outside slot 0 that sleeps for \<open>n\<close> ticks sleeps through the first \<open>n - 1\<close> of them
  and is ready or running after the last one.
\<close>

theorem sleep_exact:
  assumes "sched_ok k" and "i < MAX_PROCESSES" and "i \<noteq> 0" and "active (proc k i)" and "pstate (proc k i) = SLEEPING"
    and "wait_channel (proc k i) = 0" and "unat (sleep_ticks_remaining (proc k i)) = n" and "0 < n"
  shows "(\<forall>t < n. \<exists>k'. ticks t frame k = Some k' \<and> pstate (proc k' i) = SLEEPING) \<and>
    (\<exists>k'. ticks n frame k = Some k' \<and> (pstate (proc k' i) = READY \<or> pstate (proc k' i) = RUNNING) \<and>
      sleep_ticks_remaining (proc k' i) = 0)"
proof -
  have sl: "asleep n (proc k i)"
    using assms(4-7) by (simp add: asleep_def)
  obtain m where m: "n = Suc m"
    using assms(8) by (cases n) auto
  obtain k1 where k1: "ticks m frame k = Some k1" "sched_ok k1" "asleep 1 (proc k1 i)"
    using asleep_ticks [OF assms(1-3) sl, of m frame] m by auto
  obtain k2 g where "scheduler_tick k1 frame = Some (k2, g)"
    "pstate (proc k2 i) = READY \<or> pstate (proc k2 i) = RUNNING" "sleep_ticks_remaining (proc k2 i) = 0"
    by (rule asleep_tick [OF k1(2) assms(2, 3) k1(3) [unfolded One_nat_def], of frame]) auto
  then have "\<exists>k'. ticks n frame k = Some k' \<and> (pstate (proc k' i) = READY \<or> pstate (proc k' i) = RUNNING) \<and>
      sleep_ticks_remaining (proc k' i) = 0"
    using k1(1) m by (auto simp: ticks_Suc)
  moreover have "\<exists>k'. ticks t frame k = Some k' \<and> pstate (proc k' i) = SLEEPING" if "t < n" for t
    using asleep_ticks [OF assms(1-3) sl that, of frame] by (auto simp: asleep_def)
  ultimately show ?thesis by blast
qed

definition demo_sleep :: "process list \<Rightarrow> kernel" where
  "demo_sleep ps = demo_kernel (ps @ [(demo_proc 5 SLEEPING)\<lparr>sleep_ticks_remaining := 3\<rparr>])"

lemma demo_sleep_ok: "sched_ok (demo_sleep [demo_proc 1 RUNNING])" "sched_ok (demo_sleep [])"
  unfolding demo_sleep_def by (rule demo_sched_ok; auto simp: demo_proc_def MAX_PROCESSES_def less_Suc_eq)+

text \<open>
  The process in slot 0 can sleep forever.  When it is the only one and sleeps for two
  ticks or more, the first tick makes it run through the fallback, and from then on its
  counter never moves again, so \<open>nanosleep\<close> never returns.
\<close>

theorem lone_sleeper_never_wakes:
  assumes "sched_ok k" and "current_proc_idx k = 0" and "\<forall>i < MAX_PROCESSES. i \<noteq> 0 \<longrightarrow> \<not> active (proc k i)"
    and "pstate (proc k 0) = SLEEPING" and "2 \<le> sleep_ticks_remaining (proc k 0)" and "0 < t"
  shows "\<exists>k'. ticks t frame k = Some k' \<and> sleep_ticks_remaining (proc k' 0) = sleep_ticks_remaining (proc k 0) - 1 \<and>
    sleep_ticks_remaining (proc k' 0) \<noteq> 0"
proof -
  have l: "lone k" and a: "active (proc k 0)"
    using assms(1-3) by (simp_all add: lone_def sched_ok_def)
  obtain m where m: "t = Suc m"
    using assms(6) by (cases t) auto
  have s: "0 < sleep_ticks_remaining (proc k 0)" "sleep_ticks_remaining (proc k 0) - 1 \<noteq> 0"
    using assms(5) by (auto simp: word_le_nat_alt word_less_nat_alt)
  have dec: "sleep_ticks_remaining (tick_sleeper (proc k 0)) = sleep_ticks_remaining (proc k 0) - 1"
    using a s(1) assms(4) by (simp add: tick_sleeper_def Let_def)
  obtain k1 g where k1: "scheduler_tick k frame = Some (k1, g)" "lone k1" "pstate (proc k1 0) = RUNNING"
    "sleep_ticks_remaining (proc k1 0) = sleep_ticks_remaining (tick_sleeper (proc k 0))"
    by (rule lone_tick [OF l])
  then show ?thesis
    using lone_running_stuck [OF k1(2, 3), of m frame] dec s(2) m by (auto simp: ticks_def)
qed

end
