(* ===== verification/Lifecycle.thy ===== *)
theory Lifecycle
  imports Process
begin

text \<open>
  What the operations of \<^verbatim>\<open>kernel/process/process.c\<close> do to the life of a process: futex wake-ups,
  the copy made by fork, the delivery of an exit status by wait4, the effect of kill, and the
  invariant of the process table (every live process has a number of its own) over all sequences
  of these operations.
\<close>

section \<open>Futexes\<close>

definition waits_on :: "u64 \<Rightarrow> process \<Rightarrow> bool" where
  "waits_on u p \<longleftrightarrow> active p \<and> pstate p = SLEEPING \<and> wait_channel p = u"

definition woken :: "process \<Rightarrow> process" where
  "woken p = p\<lparr>wait_channel := 0, pstate := READY\<rparr>"

definition earlier_waiters :: "u64 \<Rightarrow> process list \<Rightarrow> nat \<Rightarrow> nat" where
  "earlier_waiters u ps i = length (filter (waits_on u) (take i ps))"

lemma earlier_waiters_Cons:
  "earlier_waiters u (p # ps) (Suc i) = (if waits_on u p then 1 else 0) + earlier_waiters u ps i"
  "earlier_waiters u ps 0 = 0"
  by (simp_all add: earlier_waiters_def)

lemma wake_loop_Cons:
  "wake_loop u count w (p # ps) =
     (if waits_on u p \<and> count \<le> w + 1 then (woken p # ps, w + 1)
      else if waits_on u p then apfst ((#) (woken p)) (wake_loop u count (w + 1) ps)
      else apfst ((#) p) (wake_loop u count w ps))"
  by (simp add: waits_on_def woken_def Let_def split: prod.splits)

lemma wake_loop_spec:
  assumes "w < count"
  shows "\<exists>ps'. wake_loop u count w ps = (ps', min count (w + int (length (filter (waits_on u) ps)))) \<and> length ps' = length ps \<and>
    (\<forall>i < length ps. ps' ! i = (if waits_on u (ps ! i) \<and> w + int (earlier_waiters u ps i) < count then woken (ps ! i) else ps ! i))"
  using assms
proof (induction ps arbitrary: w)
  case (Cons p ps)
  note [simp del] = wake_loop.simps(2) and [simp] = wake_loop_Cons All_less_Suc2 earlier_waiters_Cons
  show ?case
  proof (cases "waits_on u p")
    case True
    show ?thesis
    proof (cases "count \<le> w + 1")
      case True
      with \<open>waits_on u p\<close> Cons.prems show ?thesis
        by simp
    next
      case False
      then obtain ps' where "wake_loop u count (w + 1) ps = (ps', min count (w + 1 + int (length (filter (waits_on u) ps))))"
        "length ps' = length ps"
        "\<forall>i < length ps. ps' ! i = (if waits_on u (ps ! i) \<and> w + 1 + int (earlier_waiters u ps i) < count then woken (ps ! i) else ps ! i)"
        using Cons.IH [of "w + 1"] by auto
      then show ?thesis
        using \<open>waits_on u p\<close> False Cons.prems
        by (auto simp: algebra_simps)
    qed
  next
    case False
    then show ?thesis
      using Cons.IH [OF Cons.prems] by auto
  qed
qed simp

text \<open>
  C32: \<open>futex_wake\<close> wakes exactly the first \<open>count\<close> processes, in table order, that sleep on the
  address, or all of them when there are fewer, leaves every other process alone and returns how
  many it woke.
\<close>

theorem futex_wake_first:
  assumes "u \<noteq> 0" and "0 < count"
  shows "\<exists>k'. futex_wake k u count = (k', min count (int (length (filter (waits_on u) (process_table k))))) \<and>
    length (process_table k') = length (process_table k) \<and>
    (\<forall>i < length (process_table k). proc k' i =
      (if waits_on u (proc k i) \<and> int (earlier_waiters u (process_table k) i) < count then woken (proc k i) else proc k i))"
  using assms wake_loop_spec [of 0 count u "process_table k"] by (auto simp: futex_wake_def)

theorem futex_wake_first_witness:
  "\<exists>k'. futex_wake (demo_kernel [demo_proc 1 RUNNING, (demo_proc 2 SLEEPING)\<lparr>wait_channel := 64\<rparr>]) 64 1 = (k', 1) \<and>
     pstate (proc k' 1) = READY"
  using futex_wake_first [of 64 1 "demo_kernel [demo_proc 1 RUNNING, (demo_proc 2 SLEEPING)\<lparr>wait_channel := 64\<rparr>]"]
  by (auto simp: waits_on_def woken_def demo_proc_def process_zero_def MAX_PROCESSES_def earlier_waiters_def)

section \<open>Closing files\<close>

text \<open>What the operations that end a process need of the file systems: a close operation leaves the process table alone.\<close>

locale closing =
  fixes ops :: "string \<Rightarrow> 'a kernel_scheme vfs_ops"
  assumes close_total: "op_close (ops t) = Some c \<Longrightarrow>
    \<exists>k' r. c k n = Some (k', r) \<and> process_table k' = process_table k \<and> current_proc_idx k' = current_proc_idx k \<and>
      next_pid k' = next_pid k \<and> mem k' = mem k"
begin

lemma fd_free_total:
  "\<exists>k' t' r. fd_free ops k t f = Some (k', t', r) \<and> process_table k' = process_table k \<and>
     current_proc_idx k' = current_proc_idx k \<and> next_pid k' = next_pid k \<and> mem k' = mem k"
proof (cases "f < 3 \<or> int VFS_MAX_FD \<le> f \<or> \<not> fd_in_use (t ! nat f) \<or> fd_node (t ! nat f) = None")
  case True
  then show ?thesis
    by (auto simp: fd_free_def)
next
  case False
  then obtain n where n: "fd_node (t ! nat f) = Some n"
    by auto
  obtain k1 where k1: "(case (case vn_ops (vnodes k n) of None \<Rightarrow> None | Some t \<Rightarrow> op_close (ops t)) of
      None \<Rightarrow> Some k | Some close_op \<Rightarrow> map_option fst (close_op k n)) = Some k1" "process_table k1 = process_table k"
      "current_proc_idx k1 = current_proc_idx k" "next_pid k1 = next_pid k" "mem k1 = mem k"
  proof (cases "case vn_ops (vnodes k n) of None \<Rightarrow> None | Some t \<Rightarrow> op_close (ops t)")
    case (Some c)
    then obtain t where "op_close (ops t) = Some c"
      by (auto split: option.splits)
    from close_total [OF this, of k n] show ?thesis
      using Some that by auto
  qed (use that in simp)
  show ?thesis
    using False n k1 by (simp add: fd_free_def set_refcount_def)
qed

lemma free_fds_total:
  "i < length (process_table k) \<Longrightarrow> \<exists>k' t'. free_fds ops i f n k = Some k' \<and>
     process_table k' = (process_table k)[i := (proc k i)\<lparr>fd_table := t'\<rparr>] \<and>
     current_proc_idx k' = current_proc_idx k \<and> next_pid k' = next_pid k \<and> mem k' = mem k"
proof (induction n arbitrary: f k)
  case 0
  have "process_table k = (process_table k)[i := (proc k i)\<lparr>fd_table := fd_table (proc k i)\<rparr>]"
    by simp
  then show ?case
    by (metis free_fds.simps(1))
next
  case (Suc n)
  show ?case
  proof (cases "fd_in_use (fd_table (proc k i) ! f)")
    case True
    obtain k1 t1 r where k1: "fd_free ops k (fd_table (proc k i)) (int f) = Some (k1, t1, r)"
      "process_table k1 = process_table k" "current_proc_idx k1 = current_proc_idx k" "next_pid k1 = next_pid k" "mem k1 = mem k"
      using fd_free_total by blast
    have "\<exists>k' t'. free_fds ops i (f + 1) n (set_proc i ((proc k1 i)\<lparr>fd_table := t1\<rparr>) k1) = Some k' \<and>
        process_table k' = (process_table k)[i := (proc k i)\<lparr>fd_table := t'\<rparr>] \<and>
        current_proc_idx k' = current_proc_idx k \<and> next_pid k' = next_pid k \<and> mem k' = mem k"
      using Suc.IH [of "set_proc i ((proc k1 i)\<lparr>fd_table := t1\<rparr>) k1" "f + 1"] Suc.prems k1(2-5) by (simp add: set_proc_def)
    then show ?thesis
      using True k1(1) by simp
  qed (use Suc in simp)
qed

lemma close_all_fds_total:
  assumes "i < length (process_table k)"
  obtains k' t' where "close_all_fds ops i k = Some k'" "process_table k' = (process_table k)[i := (proc k i)\<lparr>fd_table := t'\<rparr>]"
    "current_proc_idx k' = current_proc_idx k" "next_pid k' = next_pid k" "mem k' = mem k"
  using free_fds_total [OF assms] that unfolding close_all_fds_def by blast

end

interpretation tar_closing: closing tarfs_ops
  by unfold_locales (simp add: tarfs_ops_def tarfs_dir_ops_def tarfs_file_ops_def no_ops_def split: if_splits)

section \<open>The process table\<close>

text \<open>Every live process has a number of its own, below the next one, and its parent's number is smaller.\<close>

definition family :: "'a kernel_scheme \<Rightarrow> bool" where
  "family k \<longleftrightarrow> length (process_table k) = MAX_PROCESSES \<and> 0 < next_pid k \<and>
     (\<forall>i < MAX_PROCESSES. active (proc k i) \<longrightarrow> 0 < pid (proc k i) \<and> pid (proc k i) < next_pid k \<and> ppid (proc k i) < pid (proc k i)) \<and>
     (\<forall>i < MAX_PROCESSES. \<forall>j < MAX_PROCESSES. active (proc k i) \<and> active (proc k j) \<and> pid (proc k i) = pid (proc k j) \<longrightarrow> i = j)"

text \<open>No process is added or renumbered; some may be gone.\<close>

definition same_ids :: "process \<Rightarrow> process \<Rightarrow> bool" where
  "same_ids p q \<longleftrightarrow> (active q \<longrightarrow> active p \<and> pid q = pid p \<and> ppid q = ppid p)"

definition shrinks :: "'a kernel_scheme \<Rightarrow> 'a kernel_scheme \<Rightarrow> bool" where
  "shrinks k k' \<longleftrightarrow> next_pid k' = next_pid k \<and> list_all2 same_ids (process_table k) (process_table k')"

named_theorems shrink_intros \<open>operations that add no process\<close>

lemma same_ids_refl [simp]: "same_ids p p"
  by (simp add: same_ids_def)

lemma same_ids_trans: "same_ids p q \<Longrightarrow> same_ids q r \<Longrightarrow> same_ids p r"
  by (simp add: same_ids_def)

lemma shrinks_trans [trans]: "shrinks k k1 \<Longrightarrow> shrinks k1 k2 \<Longrightarrow> shrinks k k2"
  unfolding shrinks_def using list_all2_trans [of same_ids same_ids same_ids, OF same_ids_trans] by auto

lemma shrinks_table: "process_table k' = process_table k \<Longrightarrow> next_pid k' = next_pid k \<Longrightarrow> shrinks k k'"
  by (simp add: shrinks_def list.rel_refl)

lemma shrinks_set [shrink_intros]:
  assumes "process_table k' = (process_table k)[i := p]" and "same_ids (proc k i) p" and "next_pid k' = next_pid k"
  shows "shrinks k k'"
proof -
  have "same_ids (proc k j) ((process_table k)[i := p] ! j)" if "j < length (process_table k)" for j
    using assms(2) that by (cases "i = j") auto
  then show ?thesis
    using assms(1, 3) by (simp add: shrinks_def list_all2_conv_all_nth)
qed

lemma shrinks_map [shrink_intros]:
  assumes "process_table k' = map f (process_table k)" and "\<And>p. same_ids p (f p)" and "next_pid k' = next_pid k"
  shows "shrinks k k'"
  using assms by (auto simp: shrinks_def list_all2_conv_all_nth)

lemma family_shrinks:
  assumes "family k" and "shrinks k k'"
  shows "family k'"
proof -
  have len: "length (process_table k') = length (process_table k)" and np: "next_pid k' = next_pid k"
    using assms(2) by (auto simp: shrinks_def dest: list_all2_lengthD)
  have ids: "active (proc k i) \<and> pid (proc k' i) = pid (proc k i) \<and> ppid (proc k' i) = ppid (proc k i)"
    if "i < MAX_PROCESSES" "active (proc k' i)" for i
    using assms that by (auto simp: shrinks_def family_def same_ids_def dest: list_all2_nthD)
  show ?thesis
    using assms(1) len ids np unfolding family_def by metis
qed

lemma family_add:
  assumes "family k" and "i < MAX_PROCESSES" and "\<not> active (proc k i)" and "pid p = next_pid k" and "ppid p < pid p"
    and "process_table k' = (process_table k)[i := p]" and "next_pid k' = next_pid k + 1"
  shows "family k'"
proof -
  have len: "length (process_table k) = MAX_PROCESSES" "0 < next_pid k"
    using assms(1) by (simp_all add: family_def)
  have old: "proc k' j = proc k j" if "j \<noteq> i" for j
    using assms(6) that by simp
  have new: "proc k' i = p"
    using assms(2, 6) len by simp
  have low: "0 < pid (proc k j) \<and> pid (proc k j) < next_pid k \<and> ppid (proc k j) < pid (proc k j)"
    if "j < MAX_PROCESSES" "active (proc k j)" for j
    using assms(1) that by (simp add: family_def)
  have "pid (proc k j) \<noteq> pid p" if "j < MAX_PROCESSES" "active (proc k j)" for j
    using low [OF that] assms(4) by simp
  then have "\<forall>a < MAX_PROCESSES. \<forall>b < MAX_PROCESSES. active (proc k' a) \<and> active (proc k' b) \<and> pid (proc k' a) = pid (proc k' b) \<longrightarrow> a = b"
    using assms(1) old new unfolding family_def by metis
  moreover have "0 < pid (proc k' j) \<and> pid (proc k' j) < next_pid k' \<and> ppid (proc k' j) < pid (proc k' j)"
    if "j < MAX_PROCESSES" "active (proc k' j)" for j
    using low [of j] old [of j] new len(2) assms(4, 5, 7) that by (cases "j = i") auto
  ultimately show ?thesis
    using len assms(6, 7) by (auto simp: family_def)
qed

lemma free_slot_inactive:
  assumes "free_slot (process_table k) = Some i"
  shows "i < length (process_table k)" "\<not> active (proc k i)" "i \<noteq> 0"
  using assms by (auto simp: free_slot_def scan_Some_iff)

section \<open>Each operation on the table\<close>

lemma clone_keeps [simp]:
  "process_table (fold clone_ref t k) = process_table (k :: 'a kernel_scheme)" "next_pid (fold clone_ref t k) = next_pid k"
  "mem (fold clone_ref t k) = mem k" "current_proc_idx (fold clone_ref t k) = current_proc_idx k"
  by (induction t arbitrary: k) (auto simp: clone_ref_def set_refcount_def split: option.splits)

definition spawned :: "'a kernel_scheme \<Rightarrow> 'a kernel_scheme \<Rightarrow> int \<Rightarrow> bool" where
  "spawned k k' r \<longleftrightarrow> (\<exists>i. free_slot (process_table k) = Some i \<and> process_table k' = (process_table k)[i := proc k' i] \<and>
      pid (proc k' i) = next_pid k \<and> ppid (proc k' i) = pid (proc k (current_proc_idx k)) \<and> next_pid k' = next_pid k + 1 \<and> r = next_pid k)"

lemma fork_table:
  assumes "process_fork k frame = Some (k', r)"
  shows "k' = k \<and> r = - 12 \<or> spawned k k' r"
  using assms unfolding process_fork_def
  by (cases "free_slot (process_table k)")
    (auto simp: set_proc_def Let_def fd_table_clone_def spawned_def free_slot_inactive split: bind_splits)

lemma clone_table:
  assumes "process_clone k flags stack ptid ctid tls frame = Some (k', r)"
  shows "k' = k \<and> r = - 12 \<or> spawned k k' r"
proof (cases "flags AND 0x100 = 0")
  case True
  then show ?thesis
    using assms fork_table by (simp add: process_clone_def)
next
  case False
  then show ?thesis
    using assms unfolding process_clone_def
    by (cases "free_slot (process_table k)")
      (auto simp: set_proc_def Let_def fd_table_clone_def spawned_def free_slot_inactive split: bind_splits)
qed

lemma family_spawned:
  assumes "family k" and "active (proc k (current_proc_idx k))" and "current_proc_idx k < MAX_PROCESSES" and "spawned k k' r"
  shows "family k'"
proof -
  obtain i where "free_slot (process_table k) = Some i" and p: "process_table k' = (process_table k)[i := proc k' i]"
    "pid (proc k' i) = next_pid k" "ppid (proc k' i) = pid (proc k (current_proc_idx k))" "next_pid k' = next_pid k + 1"
    using assms(4) by (auto simp: spawned_def)
  note slot = free_slot_inactive [OF this(1)]
  have "0 < pid (proc k (current_proc_idx k))" "pid (proc k (current_proc_idx k)) < next_pid k" "length (process_table k) = MAX_PROCESSES"
    using assms(1-3) by (auto simp: family_def)
  then show ?thesis
    using family_add [OF assms(1) _ slot(2) p(2) _ p(1, 4)] slot(1) p by simp
qed

lemma wake_loop_ids: "list_all2 same_ids ps (fst (wake_loop u c w ps))"
proof (induction ps arbitrary: w)
  case (Cons p ps)
  have "same_ids p (woken p)"
    by (simp add: same_ids_def woken_def)
  then show ?case
    using Cons.IH by (simp add: wake_loop_Cons list.rel_refl del: wake_loop.simps)
qed simp

lemma futex_wake_shrinks: "shrinks k (fst (futex_wake k u c))"
  using wake_loop_ids [of "process_table k" u c 0]
  by (auto simp: futex_wake_def shrinks_def list.rel_refl split: prod.splits)

lemma futex_wait_shrinks: "futex_wait k u v = Some (k', r) \<Longrightarrow> shrinks k k'"
  by (auto simp: futex_wait_def set_proc_def Let_def shrinks_table same_ids_def intro: shrink_intros split: if_splits bind_splits)

lemma wait4_shrinks: "process_wait4 k q st = Some (k', r) \<Longrightarrow> shrinks k k'"
  by (auto simp: process_wait4_def set_proc_def Let_def shrinks_table same_ids_def intro: shrink_intros
      split: if_splits bind_splits option.splits)

lemma wake_parent_shrinks: "process_table k' = wake_parent q (process_table k) \<Longrightarrow> next_pid k' = next_pid k \<Longrightarrow> shrinks k k'"
  unfolding wake_parent_def by (erule shrinks_map) (auto simp: same_ids_def)

lemma kill_children_shrinks:
  "process_table k' = kill_children q c (process_table k) \<Longrightarrow> next_pid k' = next_pid k \<Longrightarrow> shrinks k k'"
  unfolding kill_children_def by (erule shrinks_map) (auto simp: same_ids_def make_zombie_def)

lemma switch_shrinks: "switch_to k i j = Some k' \<Longrightarrow> shrinks k k'"
  by (rule shrinks_set [where i = i and p = "if active (proc k i) then (proc k i)\<lparr>fpu_state := cpu_fpu k\<rparr> else proc k i"])
    (auto simp: switch_to_def Let_def set_proc_def same_ids_def split: bind_splits if_splits)

lemma tick_ids: "same_ids p (tick_sleeper p)" "same_ids p (save_current f p)" "same_ids p (p\<lparr>pstate := s\<rparr>)"
  by (simp_all add: same_ids_def tick_sleeper_def save_current_def Let_def)

lemma tick_shrinks:
  assumes tick: "scheduler_tick k f = Some (k', g)"
  shows "shrinks k k'"
proof (cases "scheduler_enabled k")
  case True
  define k1 where "k1 = k\<lparr>pit_ticks := pit_ticks k + 1, process_table := map tick_sleeper (process_table k)\<rparr>"
  define k2 where "k2 = set_proc (current_proc_idx k) (save_current f (proc k1 (current_proc_idx k))) k1"
  define n where "n = pick_next (process_table k2) (current_proc_idx k)"
  obtain k3 where k3: "(if n \<noteq> current_proc_idx k then switch_to k2 (current_proc_idx k) n else Some k2) = Some k3"
    "process_table k' = (process_table k3)[n := (proc k3 n)\<lparr>pstate := RUNNING\<rparr>]" "next_pid k' = next_pid k3"
  proof -
    have "scheduler_tick k f = do {
        k3 \<leftarrow> (if n \<noteq> current_proc_idx k then switch_to k2 (current_proc_idx k) n else Some k2);
        let nxt = proc k3 n; k3 = set_proc n (nxt\<lparr>pstate := RUNNING\<rparr>) k3
        in Some (k3\<lparr>tss_rsp0 := kstack_top nxt, kernel_rsp_temp := kstack_top nxt, eoi_count := eoi_count k3 + 1\<rparr>, saved_frame nxt)}"
      using True by (simp add: scheduler_tick_def Let_def k1_def k2_def n_def set_proc_def)
    then show ?thesis
      using tick that by (auto simp: Let_def set_proc_def split: bind_splits)
  qed
  have "shrinks k k1"
    by (rule shrinks_map [where f = tick_sleeper]) (auto simp: k1_def tick_ids)
  also have "shrinks k1 k2"
    by (rule shrinks_set [OF _ tick_ids(2) [where f = f]]) (simp_all add: k2_def set_proc_def)
  also have "shrinks k2 k3"
    using k3(1) by (auto split: if_splits intro: switch_shrinks shrinks_table)
  also have "shrinks k3 k'"
    by (rule shrinks_set [OF k3(2) tick_ids(3) k3(3)])
  finally show ?thesis .
qed (use tick in \<open>auto simp: scheduler_tick_def Let_def intro: shrinks_table\<close>)

lemma create_table:
  assumes "process_create_from_elf fpu0 k info nm = Some (k', r)"
  shows "k' = k \<or> (\<exists>i < length (process_table k). \<not> active (proc k i) \<and> process_table k' = (process_table k)[i := proc k' i] \<and>
      pid (proc k' i) = next_pid k \<and> ppid (proc k' i) = 0 \<and> next_pid k' = next_pid k + 1)"
proof (cases "scan (\<lambda>p. \<not> active p) (process_table k)")
  case (Some i)
  then have "i < length (process_table k)" "\<not> active (proc k i)"
    by (auto dest: scan_SomeD)
  then show ?thesis
    using assms Some by (auto simp: process_create_from_elf_def set_proc_def Let_def split: bind_splits prod.splits)
qed (use assms in \<open>simp add: process_create_from_elf_def\<close>)

lemma exec_image_shrinks:
  assumes "exec_image fpu0 k info nm = Some (k', fr)" and "current_proc_idx k < length (process_table k)"
  shows "shrinks k k'"
  by (rule shrinks_set [where i = "current_proc_idx k" and p = "proc k' (current_proc_idx k)"])
    (use assms in \<open>auto simp: exec_image_def process_jump_to_user_def set_proc_def Let_def same_ids_def split: bind_splits prod.splits\<close>)

lemma execve_shrinks:
  assumes "process_execve fpu0 k path argv0 = Some (k', r)" and "current_proc_idx k < length (process_table k)"
  shows "shrinks k k'"
proof -
  have "shrinks k k'" if "exec_image fpu0 (k\<lparr>mem := m\<rparr>) info nm = Some (k', fr)" for m info nm fr
    using exec_image_shrinks [OF that] assms(2) by (simp add: shrinks_def)
  then show ?thesis
    using assms(1) by (auto simp: process_execve_def Let_def shrinks_table split: option.splits bind_splits if_splits)
qed

lemma clear_tid_shrinks:
  assumes "clear_tid i k = Some k'"
  shows "shrinks k k'"
proof -
  have "shrinks k (fst (futex_wake (k\<lparr>mem := m\<rparr>) u c))" for m u c
    using futex_wake_shrinks [of "k\<lparr>mem := m\<rparr>" u c] by (simp add: shrinks_def)
  then show ?thesis
    using assms by (auto simp: clear_tid_def Let_def shrinks_table split: if_splits bind_splits)
qed

lemma end_process_shrinks:
  assumes "end_process i code k = (k', oc)"
  shows "shrinks k k'"
proof -
  define k1 where "k1 = set_proc i ((proc k i)\<lparr>exited := True, exit_code := code, pstate := ZOMBIE\<rparr>) k"
  define k2 where "k2 = k1\<lparr>process_table := kill_children (pid (proc k i)) code (process_table k1)\<rparr>"
  have "shrinks k k1"
    unfolding k1_def set_proc_def by (rule shrinks_set) (auto simp: same_ids_def)
  also have "shrinks k1 k2"
    by (rule kill_children_shrinks) (auto simp: k2_def)
  also have "shrinks k2 (k2\<lparr>process_table := wake_parent (ppid (proc k i)) (process_table k2)\<rparr>)"
    by (rule wake_parent_shrinks) auto
  finally have "shrinks k (k1\<lparr>process_table := wake_parent (ppid (proc k i)) (kill_children (pid (proc k i)) code (process_table k1))\<rparr>)"
    by (simp add: k2_def)
  moreover have "shrinks k (set_proc i ((proc k i)\<lparr>pstate := ZOMBIE, exit_code := code, active := False\<rparr>) k)"
    unfolding set_proc_def by (rule shrinks_set) (auto simp: same_ids_def)
  ultimately show ?thesis
    using assms by (auto simp: end_process_def Let_def k1_def shrinks_table split: if_splits)
qed

context closing
begin

lemma close_all_fds_shrinks:
  assumes "i < length (process_table k)" and "close_all_fds ops i k = Some k'"
  shows "shrinks k k'"
proof (rule close_all_fds_total [OF assms(1)])
  fix k1 t assume "close_all_fds ops i k = Some k1" "process_table k1 = (process_table k)[i := (proc k i)\<lparr>fd_table := t\<rparr>]"
    "next_pid k1 = next_pid k"
  then show ?thesis
    using assms(2) by (intro shrinks_set [where i = i and p = "(proc k i)\<lparr>fd_table := t\<rparr>"]) (auto simp: same_ids_def)
qed

lemma exit_shrinks:
  assumes "current_proc_idx k < length (process_table k)" and "process_exit ops k code = Some (k', oc)"
  shows "shrinks k k'"
proof -
  obtain k1 k2 where k1: "close_all_fds ops (current_proc_idx k) k = Some k1" and k2: "clear_tid (current_proc_idx k) k1 = Some k2"
    and k': "end_process (current_proc_idx k) code k2 = (k', oc)"
    using assms(2) by (auto simp: process_exit_def Let_def split: bind_splits)
  show ?thesis
    using close_all_fds_shrinks [OF assms(1) k1] clear_tid_shrinks [OF k2] end_process_shrinks [OF k'] shrinks_trans by blast
qed

lemma kill_shrinks:
  assumes "process_kill ops k q sig = Some (k', r)"
  shows "shrinks k k'"
proof (cases "scan (\<lambda>p. active p \<and> pid p = q) (process_table k)")
  case (Some i)
  define k1 where "k1 = set_proc i (make_zombie sig (proc k i)) k"
  obtain k2 where k2: "close_all_fds ops i k1 = Some k2" "process_table k' = wake_parent (ppid (proc k2 i)) (process_table k2)" "next_pid k' = next_pid k2"
    using assms Some by (auto simp: process_kill_def k1_def split: bind_splits)
  have "i < length (process_table k)"
    using Some by (auto dest: scan_SomeD)
  then have "shrinks k k1" "shrinks k1 k2"
    using k2(1) by (auto simp: k1_def set_proc_def same_ids_def make_zombie_def intro: shrinks_set close_all_fds_shrinks)
  then show ?thesis
    using shrinks_trans wake_parent_shrinks [OF k2(2, 3)] by blast
qed (use assms in \<open>simp add: process_kill_def shrinks_table\<close>)

end

section \<open>Properties\<close>

text \<open>A system call is made by the live current process.\<close>

definition live_caller :: "'a kernel_scheme \<Rightarrow> bool" where
  "live_caller k \<longleftrightarrow> current_proc_idx k < MAX_PROCESSES \<and> active (proc k (current_proc_idx k))"

text \<open>The operations on the process table, and what leaves it alone (user code, drivers, file systems).\<close>

inductive os_step :: "(string \<Rightarrow> 'a kernel_scheme vfs_ops) \<Rightarrow> bytes \<Rightarrow> 'a kernel_scheme \<Rightarrow> 'a kernel_scheme \<Rightarrow> bool"
  for ops fpu0 where
  step_create: "process_create_from_elf fpu0 k info nm = Some (k', r) \<Longrightarrow> os_step ops fpu0 k k'"
| step_fork: "live_caller k \<Longrightarrow> process_fork k frame = Some (k', r) \<Longrightarrow> os_step ops fpu0 k k'"
| step_clone: "live_caller k \<Longrightarrow> process_clone k flags stack ptid ctid tls frame = Some (k', r) \<Longrightarrow> os_step ops fpu0 k k'"
| step_execve: "live_caller k \<Longrightarrow> process_execve fpu0 k path argv0 = Some (k', r) \<Longrightarrow> os_step ops fpu0 k k'"
| step_wait: "live_caller k \<Longrightarrow> process_wait4 k q st = Some (k', r) \<Longrightarrow> os_step ops fpu0 k k'"
| step_exit: "live_caller k \<Longrightarrow> process_exit ops k code = Some (k', oc) \<Longrightarrow> os_step ops fpu0 k k'"
| step_kill: "live_caller k \<Longrightarrow> process_kill ops k q sig = Some (k', r) \<Longrightarrow> os_step ops fpu0 k k'"
| step_futex_wait: "live_caller k \<Longrightarrow> futex_wait k u v = Some (k', r) \<Longrightarrow> os_step ops fpu0 k k'"
| step_futex_wake: "live_caller k \<Longrightarrow> futex_wake k u c = (k', r) \<Longrightarrow> os_step ops fpu0 k k'"
| step_tick: "scheduler_tick k frame = Some (k', g) \<Longrightarrow> os_step ops fpu0 k k'"
| step_other: "process_table k' = process_table k \<Longrightarrow> next_pid k' = next_pid k \<Longrightarrow> current_proc_idx k' = current_proc_idx k \<Longrightarrow>
    os_step ops fpu0 k k'"

lemma family_init: "family (process_init k)"
  by (simp add: family_def process_init_def process_zero_def)

lemma family_create:
  assumes "family k" and "process_create_from_elf fpu0 k info nm = Some (k', r)"
  shows "family k'"
proof -
  have "family k'" if "i < length (process_table k)" "\<not> active (proc k i)" "process_table k' = (process_table k)[i := proc k' i]"
      "pid (proc k' i) = next_pid k" "ppid (proc k' i) = 0" "next_pid k' = next_pid k + 1" for i
    by (rule family_add [OF assms(1) _ that(2, 4) _ that(3, 6)]) (use assms(1) that in \<open>auto simp: family_def\<close>)
  then show ?thesis
    using create_table [OF assms(2)] assms(1) by blast
qed

lemma family_step:
  assumes "closing ops" and "os_step ops fpu0 k k'" and "family k"
  shows "family k'"
  using assms(2, 3)
proof cases
  case step_create
  then show ?thesis using family_create assms(3) by blast
next
  case step_fork
  then show ?thesis
    using family_spawned [OF assms(3)] assms(3) fork_table [OF step_fork(2)] unfolding live_caller_def by blast
next
  case step_clone
  then show ?thesis
    using family_spawned [OF assms(3)] assms(3) clone_table [OF step_clone(2)] unfolding live_caller_def by blast
next
  case step_execve
  then show ?thesis
    using family_shrinks [OF assms(3) execve_shrinks [OF step_execve(2)]] assms(3) by (simp add: live_caller_def family_def)
next
  case step_wait
  then show ?thesis using wait4_shrinks family_shrinks [OF assms(3)] by blast
next
  case step_exit
  then show ?thesis
    using family_shrinks [OF assms(3) closing.exit_shrinks [OF assms(1) _ step_exit(2)]] assms(3) by (simp add: live_caller_def family_def)
next
  case step_kill
  then show ?thesis using closing.kill_shrinks [OF assms(1)] family_shrinks [OF assms(3)] by blast
next
  case step_futex_wait
  then show ?thesis using futex_wait_shrinks family_shrinks [OF assms(3)] by blast
next
  case step_futex_wake
  then show ?thesis using futex_wake_shrinks family_shrinks [OF assms(3)] by (metis fst_conv)
next
  case step_tick
  then show ?thesis using tick_shrinks family_shrinks [OF assms(3)] by blast
next
  case step_other
  then show ?thesis using shrinks_table family_shrinks [OF assms(3)] by blast
qed



lemma family_unique:
  "family k \<Longrightarrow> i < MAX_PROCESSES \<Longrightarrow> j < MAX_PROCESSES \<Longrightarrow> active (proc k i) \<Longrightarrow> active (proc k j) \<Longrightarrow>
    pid (proc k i) = pid (proc k j) \<Longrightarrow> i = j"
  by (auto simp: family_def)

lemma wait4_no_child:
  assumes "0 < q" and "\<forall>i < length (process_table k). active (proc k i) \<longrightarrow> pid (proc k i) \<noteq> q"
  shows "process_wait4 k q st = Some (k, Some (- 10))"
proof -
  have none: "\<not> wait_matches q p x" if "x \<in> set (process_table k)" for p x
    using assms that by (auto simp: wait_matches_def in_set_conv_nth)
  then have "scan (\<lambda>p. wait_matches q (proc k (current_proc_idx k)) p \<and> has_exited p) (process_table k) = None"
    by (auto simp: scan_None_iff)
  with none show ?thesis
    by (auto simp: process_wait4_def Let_def)
qed

lemma wait4_reaps:
  assumes "family k" and "i < MAX_PROCESSES" and "active (proc k i)" and "exited (proc k i)"
    and "(if st = 0 then Some (mem k) else vst32 (mem k) st (of_int (push_bit 8 (exit_code (proc k i) AND 0xFF)))) = Some m"
  shows "process_wait4 k (pid (proc k i)) st =
    Some (set_proc i ((proc k i)\<lparr>active := False, exited := False, pstate := FREE\<rparr>) (k\<lparr>mem := m\<rparr>), Some (pid (proc k i)))"
proof -
  have q: "0 < pid (proc k i)" and len: "length (process_table k) = MAX_PROCESSES"
    using assms(1-3) by (auto simp: family_def)
  have "scan (\<lambda>p. wait_matches (pid (proc k i)) (proc k (current_proc_idx k)) p \<and> has_exited p) (process_table k) = Some i"
  proof -
    have "\<not> (active (proc k j) \<and> pid (proc k j) = pid (proc k i))" if "j < i" for j
      using family_unique [OF assms(1, 2), of j] assms(2, 3) that by auto
    then show ?thesis
      using assms(2-4) q len by (auto simp: scan_Some_iff wait_matches_def has_exited_def)
  qed
  then show ?thesis
    using assms(5) by (auto simp: process_wait4_def Let_def)
qed

lemma exit_zombie:
  assumes "closing ops" and "family k" and "live_caller k" and "\<not> is_thread (proc k (current_proc_idx k))"
    and "pid (proc k (current_proc_idx k)) \<noteq> 1" and "clear_child_tid (proc k (current_proc_idx k)) = 0"
  obtains k1 where "process_exit ops k code = Some (k1, Halted)" "family k1" "active (proc k1 (current_proc_idx k))"
    "exited (proc k1 (current_proc_idx k))" "exit_code (proc k1 (current_proc_idx k)) = code"
    "pid (proc k1 (current_proc_idx k)) = pid (proc k (current_proc_idx k))"
proof -
  let ?i = "current_proc_idx k"
  have i: "?i < length (process_table k)" "active (proc k ?i)" "ppid (proc k ?i) < pid (proc k ?i)"
    using assms(2, 3) by (auto simp: family_def live_caller_def)
  obtain k1 t where k1: "close_all_fds ops ?i k = Some k1" "process_table k1 = (process_table k)[?i := (proc k ?i)\<lparr>fd_table := t\<rparr>]"
    by (rule closing.close_all_fds_total [OF assms(1) i(1)])
  have "clear_tid ?i k1 = Some k1"
    using k1(2) i(1) assms(6) by (simp add: clear_tid_def)
  then obtain k2 where k2: "process_exit ops k code = Some (k2, Halted)"
    "process_table k2 = wake_parent (ppid (proc k ?i)) (kill_children (pid (proc k ?i)) code
       ((process_table k)[?i := (proc k ?i)\<lparr>fd_table := t, exited := True, exit_code := code, pstate := ZOMBIE\<rparr>]))"
    using k1 i(1) assms(4, 5) by (simp add: process_exit_def end_process_def Let_def set_proc_def)
  have "shrinks k k2"
    by (rule closing.exit_shrinks [OF assms(1) i(1) k2(1)])
  with assms(2) have "family k2"
    by (rule family_shrinks)
  with k2 show thesis
    using that i by (auto simp: wake_parent_def kill_children_def)
qed


definition demo_family :: kernel where
  "demo_family = (demo_kernel [(demo_proc 1 READY)\<lparr>ppid := 0\<rparr>, demo_proc 2 RUNNING])\<lparr>current_proc_idx := 1\<rparr>"

lemma demo_family_proc:
  "proc demo_family 0 = (demo_proc 1 READY)\<lparr>ppid := 0\<rparr>" "proc demo_family (Suc 0) = demo_proc 2 RUNNING"
  "current_proc_idx demo_family = 1" "next_pid demo_family = 10" "length (process_table demo_family) = MAX_PROCESSES"
  by (simp_all add: demo_family_def demo_kernel_def MAX_PROCESSES_def)

lemma demo_family_ok: "family demo_family" "live_caller demo_family"
proof -
  have two: "i = 0 \<or> i = Suc 0" if "i < MAX_PROCESSES" "active (proc demo_family i)" for i
    using that by (auto simp: demo_family_def MAX_PROCESSES_def process_zero_def nth_Cons split: nat.splits)
  have ids: "pid (proc demo_family 0) = 1" "ppid (proc demo_family 0) = 0" "pid (proc demo_family (Suc 0)) = 2" "ppid (proc demo_family (Suc 0)) = 1"
    by (simp_all add: demo_family_proc demo_proc_def)
  show "family demo_family"
    unfolding family_def demo_family_proc(4, 5)
  proof (intro conjI allI impI)
    fix i j assume "i < MAX_PROCESSES" "j < MAX_PROCESSES"
      "active (proc demo_family i) \<and> active (proc demo_family j) \<and> pid (proc demo_family i) = pid (proc demo_family j)"
    then show "i = j"
      using two [of i] two [of j] ids by auto
  qed (use two ids in \<open>force+\<close>)
  show "live_caller demo_family"
    by (simp add: live_caller_def demo_family_proc demo_proc_def MAX_PROCESSES_def)
qed


text \<open>
  C40: a killed process cannot be waited for.  \<open>kill\<close> marks the process as no longer active, so a
  later \<open>wait4\<close> for its number fails with \<open>-ECHILD\<close> and its status is lost.
\<close>

theorem killed_status_lost:
  fixes k :: "'a kernel_scheme"
  assumes "closing ops" and "family k" and "i < MAX_PROCESSES" and "active (proc k i)" and "pid (proc k i) = q"
  shows "\<exists>k1. process_kill ops k q sig = Some (k1, 0) \<and> pstate (proc k1 i) = ZOMBIE \<and>
    (\<forall>(k2 :: 'a kernel_scheme) st. process_table k2 = process_table k1 \<longrightarrow> process_wait4 k2 q st = Some (k2, Some (- 10)))"
proof -
  have len: "length (process_table k) = MAX_PROCESSES" and q: "0 < q"
    using assms(2-5) by (auto simp: family_def)
  have only: "j = i" if "j < MAX_PROCESSES" "active (proc k j)" "pid (proc k j) = q" for j
    using family_unique [OF assms(2) that(1) assms(3)] that assms(4, 5) by simp
  have find: "scan (\<lambda>p. active p \<and> pid p = q) (process_table k) = Some i"
    unfolding scan_Some_iff
  proof (intro conjI allI impI notI)
    fix j assume "j < i" and act: "active (proc k j) \<and> pid (proc k j) = q"
    with assms(3) only [of j] show False by simp
  qed (use assms(3-5) len in simp_all)
  define k1 where "k1 = set_proc i (make_zombie sig (proc k i)) k"
  have "i < length (process_table k1)"
    using assms(3) len by (simp add: k1_def set_proc_def)
  then obtain k2 t where k2: "close_all_fds ops i k1 = Some k2" "process_table k2 = (process_table k1)[i := (proc k1 i)\<lparr>fd_table := t\<rparr>]"
    by (rule closing.close_all_fds_total [OF assms(1)])
  define k3 where "k3 = k2\<lparr>process_table := wake_parent (ppid (proc k2 i)) (process_table k2)\<rparr>"
  have kill: "process_kill ops k q sig = Some (k3, 0)"
    using find k2(1) by (simp add: process_kill_def k1_def k3_def)
  have i: "proc k2 i = (make_zombie sig (proc k i))\<lparr>fd_table := t\<rparr>" "\<And>j. j \<noteq> i \<Longrightarrow> proc k2 j = proc k j"
    using k2(2) assms(3) len by (auto simp: k1_def set_proc_def)
  have len2: "length (process_table k2) = MAX_PROCESSES"
    using k2(2) len by (simp add: k1_def set_proc_def)
  have "active (proc k2 j) \<longrightarrow> pid (proc k2 j) \<noteq> q" if "j < MAX_PROCESSES" for j
    using only [OF that] i by (cases "j = i") (auto simp: make_zombie_def)
  then have gone: "\<forall>j < MAX_PROCESSES. active (proc k3 j) \<longrightarrow> pid (proc k3 j) \<noteq> q"
    using len2 by (auto simp: k3_def wake_parent_def)
  have "pstate (proc k3 i) = ZOMBIE"
    using i(1) assms(3) len2 by (simp add: k3_def wake_parent_def make_zombie_def)
  moreover have "process_wait4 k4 q st = Some (k4, Some (- 10))" if "process_table k4 = process_table k3" for k4 :: "'a kernel_scheme" and st
    using wait4_no_child [OF q, of k4 st] gone that len2 by (simp add: k3_def wake_parent_def)
  ultimately show ?thesis
    using kill by blast
qed

theorem killed_status_lost_witness:
  "\<exists>k1. process_kill tarfs_ops demo_family 2 9 = Some (k1, 0) \<and> process_wait4 k1 2 0 = Some (k1, Some (- 10))"
  using killed_status_lost [OF tar_closing.closing_axioms demo_family_ok(1), of 1 2 9]
  by (simp add: demo_family_proc demo_proc_def MAX_PROCESSES_def) blast

end
