(* ===== verification/Fork.thy ===== *)
theory Fork
  imports Lifecycle
begin

text \<open>
  What \<open>process_fork\<close> (\<^verbatim>\<open>kernel/process/process.c\<close>) leaves in memory: the frames the child gets from
  the allocator are disjoint from everything in use, so the child's stack and context frame are
  exact copies and the parent's memory is untouched.
\<close>

section \<open>Blocks in use\<close>

text \<open>No byte of the block lies in a frame that the allocator may hand out.\<close>

definition held :: "mm \<Rightarrow> u64 \<Rightarrow> nat \<Rightarrow> bool" where
  "held m a n \<longleftrightarrow> (\<forall>x i. in_block a n x \<and> i < MAX_PAGES \<and> in_block (frame_addr i) PAGE_SIZE x \<longrightarrow> i \<in> used_frames m)"

lemma in_frames:
  assumes "i + n \<le> MAX_PAGES" and "in_block (frame_addr i) (n * PAGE_SIZE) x"
  obtains j where "i \<le> j" "j < i + n" "in_block (frame_addr j) PAGE_SIZE x"
proof -
  define d where "d = unat (x - frame_addr i)"
  have d: "d < n * 4096"
    using assms(2) by (simp add: in_block_def PAGE_SIZE_def d_def)
  then have q: "d div 4096 < n"
    by (simp add: less_mult_imp_div_less)
  have ua: "unat (frame_addr i) = 0x2000000 + i * 4096"
    using assms(1) q by (intro unat_frame_addr) linarith
  have uj: "unat (frame_addr (i + d div 4096)) = 0x2000000 + (i + d div 4096) * 4096"
    using assms(1) q by (intro unat_frame_addr) linarith
  have "d + unat (frame_addr i) < 2 ^ 64"
    using ua d assms(1) by (simp add: MAX_PAGES_def)
  then have "unat x = d + unat (frame_addr i)"
    using unat_plus_if' [of "x - frame_addr i" "frame_addr i"] by (simp add: d_def)
  then have ux: "unat x = unat (frame_addr (i + d div 4096)) + d mod 4096"
    using ua uj by (simp add: algebra_simps)
  then have "unat (x - frame_addr (i + d div 4096)) = d mod 4096"
    by (simp add: unat_sub_if')
  then have "in_block (frame_addr (i + d div 4096)) PAGE_SIZE x"
    by (simp add: in_block_def PAGE_SIZE_def)
  then show thesis
    using that [of "i + d div 4096"] q by simp
qed

lemma alloc_block:
  assumes "mm_ok m" and "0 < c" and "unat c \<le> MAX_PAGES" and "alloc_pages m c = Some (m', p)" and "p \<noteq> 0"
  obtains i where "p = frame_addr i" "i + unat c \<le> MAX_PAGES" "mm_ok m'" "used_frames m \<inter> {i..<i + unat c} = {}"
    "used_frames m' = used_frames m \<union> {i..<i + unat c}"
    "ram m' = (\<lambda>x. if in_block p (unat c * PAGE_SIZE) x then 0 else ram m x)"
proof -
  obtain i where i: "first_fit (page_bitmap m) (unat c) = Some i"
    using alloc_pages_eq [OF assms(1-3)] assms(4, 5) by (cases "first_fit (page_bitmap m) (unat c)") auto
  note fit = first_fit_SomeD [OF i assms(3)]
  have "used_frames m \<inter> {i..<i + unat c} = {}"
    using fit(2) by (auto simp: used_frames_def run_free_def le_iff_add)
  moreover have "unat c * PAGE_SIZE \<le> 2 ^ 64"
    using assms(3) by (simp add: PAGE_SIZE_def MAX_PAGES_def)
  ultimately show thesis
    using that [of i] fit(1) alloc_pages_eq [OF assms(1-3)] used_frames_set_frames [OF assms(1) fit(1)] i assms(1, 4)
    by (auto simp: kmemset_eq mm_ok_def)
qed

text \<open>A fresh allocation misses every block in use, and is in use itself.\<close>

lemma alloc_held:
  assumes "mm_ok m" and "0 < c" and "unat c \<le> MAX_PAGES" and "alloc_pages m c = Some (m', p)" and "p \<noteq> 0"
  shows "mm_ok m'" "held m' p (unat c * PAGE_SIZE)"
    "held m a n \<Longrightarrow> in_block a n x \<Longrightarrow> \<not> in_block p (unat c * PAGE_SIZE) x \<and> ram m' x = ram m x"
    "held m a n \<Longrightarrow> held m' a n"
proof -
  obtain i where i: "p = frame_addr i" "i + unat c \<le> MAX_PAGES" "mm_ok m'" "used_frames m \<inter> {i..<i + unat c} = {}"
    "used_frames m' = used_frames m \<union> {i..<i + unat c}"
    "ram m' = (\<lambda>x. if in_block p (unat c * PAGE_SIZE) x then 0 else ram m x)"
    by (rule alloc_block [OF assms])
  show "mm_ok m'" by (rule i(3))
  show "held m' a n" if "held m a n"
    using that by (auto simp: held_def i(5))
  show "\<not> in_block p (unat c * PAGE_SIZE) x \<and> ram m' x = ram m x" if h: "held m a n" "in_block a n x"
  proof -
    have "\<not> in_block p (unat c * PAGE_SIZE) x"
    proof
      assume "in_block p (unat c * PAGE_SIZE) x"
      then obtain j where "i \<le> j" "j < i + unat c" "in_block (frame_addr j) PAGE_SIZE x"
        using in_frames [OF i(2)] i(1) by metis
      then show False
        using h i(2, 4) unfolding held_def by (metis IntI atLeastLessThan_iff empty_iff order_less_le_trans)
    qed
    then show ?thesis by (simp add: i(6))
  qed
  show "held m' p (unat c * PAGE_SIZE)"
    unfolding held_def
  proof (intro allI impI, elim conjE)
    fix x l assume x: "in_block p (unat c * PAGE_SIZE) x" and l: "l < MAX_PAGES" "in_block (frame_addr l) PAGE_SIZE x"
    obtain j where j: "i \<le> j" "j < i + unat c" "in_block (frame_addr j) PAGE_SIZE x"
      using in_frames [OF i(2)] x i(1) by metis
    have "j < MAX_PAGES"
      using j(2) i(2) by linarith
    then have "unat (frame_addr l) div 4096 = unat (frame_addr j) div 4096"
      using l(2) j(3) by (simp add: in_block_page frame_addr_aligned l(1))
    then have "l = j"
      using l(1) \<open>j < MAX_PAGES\<close> by (simp add: unat_frame_addr)
    then show "l \<in> used_frames m'"
      using j by (simp add: i(5))
  qed
qed

section \<open>The copies\<close>

lemma ld64_shift:
  assumes "\<And>i. i < 8 \<Longrightarrow> m (a + i) = m' (b + i)"
  shows "ld64 m a = ld64 m' b"
proof -
  have "m a = m' b" using assms [of 0] by simp
  then show ?thesis
    unfolding ld64_def using assms [of 1] assms [of 2] assms [of 3] assms [of 4] assms [of 5] assms [of 6] assms [of 7] by simp
qed

text \<open>The frame of a child: a copy with a zero \<open>rax\<close> and interrupts enabled.\<close>

definition child_frame :: "memory \<Rightarrow> u64 \<Rightarrow> u64 \<Rightarrow> memory" where
  "child_frame r cf frame =
     (let r = st64 (kmemcpy r cf frame (unat FRAME_SIZE)) (cf + F_RAX) 0
      in st64 r (cf + F_RFLAGS) (ld64 r (cf + F_RFLAGS) OR 0x202))"

lemma child_frame_words:
  assumes "disjoint_blocks cf frame (unat FRAME_SIZE)" and "j < 22"
  shows "ld64 (child_frame r cf frame) (cf + 8 * of_nat j) =
    (if j = 14 then 0 else if j = 19 then ld64 r (frame + F_RFLAGS) OR 0x202 else ld64 r (frame + 8 * of_nat j))"
proof -
  have copy: "ld64 (kmemcpy r cf frame (unat FRAME_SIZE)) (cf + 8 * of_nat l) = ld64 r (frame + 8 * of_nat l)" if "l < 22" for l
  proof (rule ld64_shift)
    fix i :: u64 assume "i < 8"
    then have "unat i < 8"
      by (simp add: word_less_nat_alt)
    then have "8 * l + unat i < unat FRAME_SIZE"
      using that by (simp add: FRAME_SIZE_def)
    from kmemcpy_inside [OF _ assms(1) this]
    show "kmemcpy r cf frame (unat FRAME_SIZE) (cf + 8 * of_nat l + i) = r (frame + 8 * of_nat l + i)"
      by (simp add: FRAME_SIZE_def add.assoc)
  qed
  have far: "8 \<le> (8 * of_nat a - 8 * of_nat b :: u64)" if "a < 22" "b < 22" "a \<noteq> b" for a b :: nat
  proof -
    have "unat (8 * of_nat a :: u64) = 8 * a" "unat (8 * of_nat b :: u64) = 8 * b"
      using that by (simp_all add: unat_word_ariths unat_of_nat)
    then show ?thesis
      using that by (auto simp: word_le_nat_alt unat_sub_if')
  qed
  have other: "ld64 (st64 q (cf + 8 * of_nat a) v) (cf + 8 * of_nat b) = ld64 q (cf + 8 * of_nat b)" if "a < 22" "b < 22" "a \<noteq> b" for a b q v
    using far [OF that(2, 1)] far [OF that(1, 2)] that(3) by (intro ld64_st64_other) (simp_all add: algebra_simps)
  have rax: "F_RAX = 8 * of_nat 14" and fl: "F_RFLAGS = 8 * of_nat 19"
    by (simp_all add: F_RAX_def F_RFLAGS_def)
  show ?thesis
    unfolding child_frame_def Let_def rax fl using assms(2)
    by (cases "j = 19"; cases "j = 14") (simp_all add: other ld64_st64_same copy del: of_nat_numeral)
qed

lemma child_frame_outside:
  assumes "\<not> in_block cf (unat FRAME_SIZE) x"
  shows "child_frame r cf frame x = r x"
proof -
  have st: "st64 q (cf + off) v x = q x" if "unat off + 8 \<le> unat FRAME_SIZE" for q v off
  proof -
    have "\<not> x - (cf + off) < 8"
    proof
      assume "x - (cf + off) < 8"
      then have "unat (x - cf - off) < 8"
        by (simp add: word_less_nat_alt diff_diff_eq)
      moreover have "unat (x - cf) = unat (x - cf - off) + unat off" if "unat (x - cf - off) + unat off < 2 ^ 64"
        using unat_plus_if' [of "x - cf - off" off] that by simp
      ultimately have "unat (x - cf) < unat FRAME_SIZE"
        using that by (simp add: FRAME_SIZE_def)
      then show False
        using assms by (simp add: in_block_def)
    qed
    then show ?thesis by (simp add: st64_def)
  qed
  show ?thesis
    using st assms by (simp add: child_frame_def Let_def kmemcpy_outside F_RAX_def F_RFLAGS_def FRAME_SIZE_def)
qed

definition kstack_bytes :: nat where
  "kstack_bytes = unat KERNEL_STACK_PAGES * PAGE_SIZE"

lemma top_of_stack_in_block:
  assumes "in_block (ks + KERNEL_STACK_PAGES * of_nat PAGE_SIZE - FRAME_SIZE) (unat FRAME_SIZE) x"
  shows "in_block ks kstack_bytes x"
proof -
  define d where "d = x - (ks + KERNEL_STACK_PAGES * of_nat PAGE_SIZE - FRAME_SIZE)"
  have d: "unat d < 176"
    using assms by (simp add: in_block_def FRAME_SIZE_def d_def)
  have "x - ks = d + 16208"
    by (simp add: FRAME_SIZE_def KERNEL_STACK_PAGES_def PAGE_SIZE_def d_def)
  then have "unat (x - ks) = unat d + 16208"
    using d unat_plus_if' [of d 16208] by simp
  then show ?thesis
    using d by (simp add: in_block_def kstack_bytes_def KERNEL_STACK_PAGES_def PAGE_SIZE_def)
qed

text \<open>The memory after the copies, seen from the blocks that were in use before the fork.\<close>

lemma fork_memory:
  assumes "mm_ok m" and "alloc_pages m KERNEL_STACK_PAGES = Some (m1, ks)" and "ks \<noteq> 0"
    and "alloc_pages m1 USER_STACK_PAGES = Some (m2, us)" and "us \<noteq> 0"
    and "held m frame (unat FRAME_SIZE)" and "held m sp (unat stack_bytes)"
    and "cf = ks + KERNEL_STACK_PAGES * of_nat PAGE_SIZE - FRAME_SIZE"
    and "r = child_frame (kmemcpy (ram m2) us sp (unat stack_bytes)) cf frame"
  shows "j < 22 \<Longrightarrow> ld64 r (cf + 8 * of_nat j) =
      (if j = 14 then 0 else if j = 19 then ld64 (ram m) (frame + F_RFLAGS) OR 0x202 else ld64 (ram m) (frame + 8 * of_nat j))"
    and "l < unat stack_bytes \<Longrightarrow> r (us + of_nat l) = ram m (sp + of_nat l)"
    and "held m a n \<Longrightarrow> in_block a n x \<Longrightarrow> r x = ram m x"
proof -
  have ub: "unat USER_STACK_PAGES * PAGE_SIZE = unat stack_bytes" "unat stack_bytes = 65536"
    by (simp_all add: stack_bytes_def USER_STACK_PAGES_def PAGE_SIZE_def)
  have pos: "0 < KERNEL_STACK_PAGES" "unat KERNEL_STACK_PAGES \<le> MAX_PAGES" "0 < USER_STACK_PAGES" "unat USER_STACK_PAGES \<le> MAX_PAGES"
    by (simp_all add: KERNEL_STACK_PAGES_def USER_STACK_PAGES_def MAX_PAGES_def)
  note A = alloc_held [OF assms(1) pos(1, 2) assms(2, 3), folded kstack_bytes_def]
  note B = alloc_held [OF A(1) pos(3, 4) assms(4, 5), unfolded ub(1)]
  have old: "\<not> in_block ks kstack_bytes x \<and> \<not> in_block us (unat stack_bytes) x \<and> ram m2 x = ram m x"
    if "held m a n" "in_block a n x" for a n x
    using A(3) [OF that] B(3) [OF A(4) [OF that(1)] that(2)] by simp
  have in_cf: "in_block ks kstack_bytes x" if "in_block cf (unat FRAME_SIZE) x" for x
    using top_of_stack_in_block that assms(8) by simp
  have r1: "kmemcpy (ram m2) us sp (unat stack_bytes) x = ram m x" if "held m a n" "in_block a n x" for a n x
    using old [OF that] by (simp add: kmemcpy_outside ub(2))
  have out: "r x = kmemcpy (ram m2) us sp (unat stack_bytes) x" if "\<not> in_block ks kstack_bytes x" for x
    using in_cf that unfolding assms(9) by (blast intro: child_frame_outside)
  show "r x = ram m x" if "held m a n" "in_block a n x"
    using old [OF that] r1 [OF that] out by simp
  have word: "ld64 (kmemcpy (ram m2) us sp (unat stack_bytes)) (frame + 8 * of_nat j) = ld64 (ram m) (frame + 8 * of_nat j)" if "j < 22" for j
  proof (rule ld64_cong)
    fix i :: u64 assume "i < 8"
    then have "unat i < 8" by (simp add: word_less_nat_alt)
    moreover have "unat (8 * of_nat j + i) = 8 * j + unat i"
      using that \<open>unat i < 8\<close> by (simp add: unat_word_ariths unat_of_nat)
    ultimately have "in_block frame (unat FRAME_SIZE) (frame + 8 * of_nat j + i)"
      using that by (simp add: in_block_def FRAME_SIZE_def add.assoc)
    then show "kmemcpy (ram m2) us sp (unat stack_bytes) (frame + 8 * of_nat j + i) = ram m (frame + 8 * of_nat j + i)"
      by (rule r1 [OF assms(6)])
  qed
  have dis: "disjoint_blocks cf frame (unat FRAME_SIZE)"
    using old [OF assms(6)] in_cf by (auto simp: disjoint_blocks_def)
  have fl: "frame + F_RFLAGS = frame + 8 * of_nat 19"
    by (simp add: F_RFLAGS_def)
  show "ld64 r (cf + 8 * of_nat j) =
      (if j = 14 then 0 else if j = 19 then ld64 (ram m) (frame + F_RFLAGS) OR 0x202 else ld64 (ram m) (frame + 8 * of_nat j))" if "j < 22"
    unfolding assms(9) child_frame_words [OF dis that] fl using word [of 19] word [OF that] by simp
  have dis2: "disjoint_blocks us sp (unat stack_bytes)"
    using old [OF assms(7)] by (auto simp: disjoint_blocks_def)
  show "r (us + of_nat l) = ram m (sp + of_nat l)" if "l < unat stack_bytes"
  proof -
    have us: "in_block us (unat stack_bytes) (us + of_nat l)" and sp: "in_block sp (unat stack_bytes) (sp + of_nat l)"
      using that by (simp_all add: in_block_def unat_of_nat ub(2))
    have "\<not> in_block ks kstack_bytes (us + of_nat l)"
      using B(3) [OF A(2)] us by blast
    then have "r (us + of_nat l) = kmemcpy (ram m2) us sp (unat stack_bytes) (us + of_nat l)"
      by (rule out)
    also have "\<dots> = ram m2 (sp + of_nat l)"
      using that by (intro kmemcpy_inside [OF _ dis2]) (simp add: ub(2))
    finally show ?thesis
      using old [OF assms(7) sp] by simp
  qed
qed


lemma held_low:
  assumes "unat a + n \<le> 0x2000000"
  shows "held m a n"
  unfolding held_def
proof (intro allI impI, elim conjE)
  fix x i assume x: "in_block a n x" and i: "i < MAX_PAGES" "in_block (frame_addr i) PAGE_SIZE x"
  have "unat x = unat (x - a) + unat a" if "unat (x - a) + unat a < 2 ^ 64"
    using unat_plus_if' [of "x - a" a] that by simp
  then have "unat x < 0x2000000"
    using x assms by (simp add: in_block_def)
  then have "unat x div 4096 < 8192"
    by (simp add: less_mult_imp_div_less)
  moreover have "8192 \<le> unat x div 4096"
    using i by (simp add: in_block_page frame_addr_aligned unat_frame_addr)
  ultimately show "i \<in> used_frames m"
    by simp
qed

lemma alloc_room:
  assumes "mm_ok m" and "0 < c" and "x + unat c \<le> MAX_PAGES" and "{x..<x + unat c} \<inter> used_frames m = {}"
  obtains m' p where "alloc_pages m c = Some (m', p)" "p \<noteq> 0"
proof -
  have "run_free (page_bitmap m) (unat c) x"
    unfolding run_free_def
  proof (intro allI impI notI)
    fix j assume "j < unat c" "frame_used (page_bitmap m) (x + j)"
    then have "x + j \<in> {x..<x + unat c} \<inter> used_frames m"
      using assms(3) by (simp add: used_frames_def)
    then show False
      using assms(4) by blast
  qed
  then obtain i where i: "first_fit (page_bitmap m) (unat c) = Some i"
    using first_fit_None_iff [of "unat c" "page_bitmap m"] assms(3) by (cases "first_fit (page_bitmap m) (unat c)") auto
  moreover have "i < MAX_PAGES"
    using first_fit_SomeD(1) [OF i] assms(2, 3) by (simp add: word_less_nat_alt)
  then have "frame_addr i \<noteq> 0"
    by (rule frame_addr_neq_0)
  ultimately show thesis
    using that alloc_pages_eq [OF assms(1, 2)] assms(3) by simp
qed


end
