(* ===== verification/NetCore.thy ===== *)
theory NetCore
  imports KString
begin

text \<open>
  \<^verbatim>\<open>kernel/net/net.h\<close> and the pure part of \<^verbatim>\<open>kernel/net/net.c\<close>: byte order, the Internet
  checksum and the textual form of IPv4 addresses.  Addresses are kept as the kernel
  keeps them, with the first octet in the low byte.
\<close>

section \<open>Byte order\<close>

definition htons :: "u16 \<Rightarrow> u16" where
  "htons val = push_bit 8 val OR drop_bit 8 val"

definition ntohs :: "u16 \<Rightarrow> u16" where
  "ntohs val = htons val"

definition htonl :: "u32 \<Rightarrow> u32" where
  "htonl val =
     (push_bit 24 val AND 0xFF000000) OR (push_bit 8 val AND 0x00FF0000) OR
     (drop_bit 8 val AND 0x0000FF00) OR (drop_bit 24 val AND 0x000000FF)"

definition ntohl :: "u32 \<Rightarrow> u32" where
  "ntohl val = htonl val"

definition IP_ADDR :: "u32 \<Rightarrow> u32 \<Rightarrow> u32 \<Rightarrow> u32 \<Rightarrow> u32" where
  "IP_ADDR a b c d =
     (a AND 0xFF) OR push_bit 8 (b AND 0xFF) OR push_bit 16 (c AND 0xFF) OR push_bit 24 (d AND 0xFF)"

section \<open>The Internet checksum\<close>

text \<open>The summing loop of \<open>net_checksum\<close>: 16-bit little-endian words, then an odd last byte.\<close>

fun csum_words :: "bytes \<Rightarrow> u32 \<Rightarrow> u32" where
  "csum_words (a # b # data) acc =
     csum_words data (acc + ucast ((ucast a :: u16) OR push_bit 8 (ucast b)))"
| "csum_words [a] acc = acc + ucast a"
| "csum_words [] acc = acc"

text \<open>The folding loop \<^verbatim>\<open>while (sum >> 16)\<close>.\<close>

function csum_fold :: "u32 \<Rightarrow> u32" where
  "csum_fold acc =
     (if drop_bit 16 acc \<noteq> 0 then csum_fold ((acc AND 0xFFFF) + drop_bit 16 acc) else acc)"
  by pat_completeness auto

lemma unat_low16: "unat (s AND 0xFFFF :: u32) = unat s mod 65536"
proof -
  have "s AND 0xFFFF = take_bit 16 s"
    by (simp add: take_bit_eq_mask mask_eq_exp_minus_1)
  then show ?thesis
    by (simp add: take_bit_eq_mod unat_mod_distrib)
qed

lemma unat_high16: "unat (drop_bit 16 s :: u32) = unat s div 65536"
  by (simp add: drop_bit_eq_div unat_div_distrib)

lemma csum_fold_step:
  "unat ((s AND 0xFFFF) + drop_bit 16 s :: u32) = unat s mod 65536 + unat s div 65536"
proof -
  have "unat s < 2 ^ 32"
    using unsigned_less [of s] by simp
  then have "unat s div 65536 < 65536"
    by (simp add: less_mult_imp_div_less)
  moreover have "unat s mod 65536 < 65536"
    by simp
  ultimately have "unat s mod 65536 + unat s div 65536 < 2 ^ 32"
    by simp
  then show ?thesis
    by (simp add: unat_word_ariths unat_low16 unat_high16)
qed

lemma drop16_zero_iff: "drop_bit 16 s = 0 \<longleftrightarrow> unat (s :: u32) < 65536"
  by (metis div_eq_0_iff unat_high16 unsigned_0 unsigned_word_eqI zero_neq_numeral)

termination csum_fold
proof (relation "measure unat")
  fix s :: u32
  assume "drop_bit 16 s \<noteq> 0"
  then have "65536 \<le> unat s"
    by (simp add: drop16_zero_iff)
  then have "unat s mod 65536 + unat s div 65536 < unat s"
    using div_mult_mod_eq [of "unat s" 65536] div_greater_zero_iff [of "unat s" 65536] by linarith
  then show "((s AND 0xFFFF) + drop_bit 16 s, s) \<in> measure unat"
    by (simp add: csum_fold_step)
qed simp

declare csum_fold.simps [simp del]

definition net_checksum :: "bytes \<Rightarrow> u16" where
  "net_checksum data = ucast (NOT (csum_fold (csum_words data 0)))"

section \<open>Textual addresses\<close>

text \<open>The digits one octet contributes in the loop of \<open>ip_to_str\<close>.\<close>

definition octet_str :: "u8 \<Rightarrow> bytes" where
  "octet_str val =
     (if 100 \<le> val then
        let val' = val mod 100 in [48 + val div 100, 48 + val' div 10, 48 + val' mod 10]
      else if 10 \<le> val then [48 + val div 10, 48 + val mod 10]
      else [48 + val])"

text \<open>
  \<open>ip_to_str\<close> on a destination buffer: nothing is written to a null buffer or one
  declared shorter than 16 bytes; otherwise the text replaces a prefix of the buffer.
\<close>

definition ip_text :: "u32 \<Rightarrow> bytes" where
  "ip_text ip =
     octet_str (ucast ip) @ [46] @ octet_str (ucast (drop_bit 8 ip)) @ [46] @
     octet_str (ucast (drop_bit 16 ip)) @ [46] @ octet_str (ucast (drop_bit 24 ip)) @ [0]"

fun ip_to_str :: "u32 \<Rightarrow> cptr \<Rightarrow> nat \<Rightarrow> cptr option" where
  "ip_to_str ip None buf_sz = Some None"
| "ip_to_str ip (Some buf) buf_sz =
     (if buf_sz < 16 then Some (Some buf)
      else if length buf < length (ip_text ip) then None
      else Some (Some (ip_text ip @ drop (length (ip_text ip)) buf)))"

fun str_to_ip_loop :: "bytes \<Rightarrow> nat \<Rightarrow> u32 list \<Rightarrow> u32 list option" where
  "str_to_ip_loop [] octet_idx octets = None"
| "str_to_ip_loop (c # str) octet_idx octets =
     (if c \<noteq> 0 \<and> octet_idx < 4 then
        if 48 \<le> c \<and> c \<le> 57 then
          str_to_ip_loop str octet_idx
            (octets[octet_idx := octets ! octet_idx * 10 + ucast (c - 48)])
        else if c = 46 then str_to_ip_loop str (octet_idx + 1) octets
        else Some octets
      else Some octets)"

fun str_to_ip :: "cptr \<Rightarrow> u32 option" where
  "str_to_ip None = Some 0"
| "str_to_ip (Some str) =
     map_option (\<lambda>octets. IP_ADDR (octets ! 0) (octets ! 1) (octets ! 2) (octets ! 3))
       (str_to_ip_loop str 0 [0, 0, 0, 0])"

section \<open>Lemmas\<close>

subsection \<open>Byte order\<close>

lemma htons_bytes: "put16 (htons v) = [ucast (drop_bit 8 v), ucast v]"
  by (auto simp: put16_def htons_def bit_simps intro!: bit_word_eqI)

lemma htons_htons [simp]: "htons (htons v) = v"
  by (rule bit_word_eqI) (auto simp: htons_def bit_simps)

lemma byte_masks:
  "(0x000000FF :: u32) = mask 8" "(0x0000FF00 :: u32) = push_bit 8 (mask 8)"
  "(0x00FF0000 :: u32) = push_bit 16 (mask 8)" "(0xFF000000 :: u32) = push_bit 24 (mask 8)"
  by (simp_all add: mask_eq_exp_minus_1)

lemma bit_htonl:
  "bit (htonl v) n \<longleftrightarrow>
     (if n < 8 then bit v (n + 24) else if n < 16 then bit v (n + 8)
      else if n < 24 then bit v (n - 8) else n < 32 \<and> bit v (n - 24))"
  unfolding htonl_def byte_masks by (auto simp: bit_simps add.commute)

lemma htonl_bytes:
  "put32 (htonl v) =
     [ucast (drop_bit 24 v), ucast (drop_bit 16 v), ucast (drop_bit 8 v), ucast v]"
  by (auto simp: put32_def bit_simps bit_htonl add.commute intro!: bit_word_eqI)

lemma htonl_htonl [simp]: "htonl (htonl v) = v"
  by (rule bit_word_eqI) (auto simp: bit_htonl)

subsection \<open>The checksum as arithmetic modulo 65535\<close>

text \<open>The sum of the 16-bit little-endian words of a buffer, without overflow.\<close>

fun words_sum :: "bytes \<Rightarrow> nat" where
  "words_sum (a # b # data) = unat a + 256 * unat b + words_sum data"
| "words_sum [a] = unat a"
| "words_sum [] = 0"

lemma unat_byte_pair:
  "unat (ucast ((ucast (a :: u8) :: u16) OR push_bit 8 (ucast (b :: u8))) :: u32) =
     unat a + 256 * unat b"
proof -
  have "(ucast a :: u16) OR push_bit 8 (ucast b) = ucast a + push_bit 8 (ucast b)"
    by (subst disjunctive_add) (auto simp: bit_simps dest: bit_imp_le_length)
  moreover have "unat a < 256" "unat b < 256"
    by (rule unat_u8_less)+
  ultimately show ?thesis
    by (simp add: unat_word_ariths push_bit_eq_mult unsigned_ucast_eq take_bit_eq_mod)
qed

lemma csum_words_spec:
  "unat acc + words_sum data < 2 ^ 32 \<Longrightarrow> unat (csum_words data acc) = unat acc + words_sum data"
proof (induction data acc rule: csum_words.induct)
  case (1 a b data acc)
  let ?w = "ucast ((ucast a :: u16) OR push_bit 8 (ucast b)) :: u32"
  have "unat (acc + ?w) = unat acc + unat ?w"
    using 1(2) unat_byte_pair [of a b] by (simp add: unat_word_ariths)
  then show ?case
    using 1 by (simp add: unat_byte_pair)
next
  case (2 a acc)
  then show ?case by (simp add: unat_word_ariths unat_ucast_widen)
qed simp

lemma words_sum_bound: "words_sum data \<le> 65535 * ((length data + 1) div 2)"
proof (induction data rule: words_sum.induct)
  case (1 a b data)
  then show ?case
    using unat_u8_less [of a] unat_u8_less [of b] by simp
next
  case (2 a)
  then show ?case
    using unat_u8_less [of a] by simp
qed simp

lemma words_sum_append: "even (length xs) \<Longrightarrow> words_sum (xs @ ys) = words_sum xs + words_sum ys"
  by (induction xs rule: words_sum.induct) auto

lemma csum_fold_spec:
  "unat (csum_fold s) < 65536 \<and> unat (csum_fold s) mod 65535 = unat s mod 65535 \<and>
   (unat (csum_fold s) = 0 \<longleftrightarrow> unat s = 0)"
proof (induction s rule: csum_fold.induct)
  case (1 s)
  show ?case
  proof (cases "drop_bit 16 s = 0")
    case True
    then show ?thesis
      by (simp add: csum_fold.simps [of s] drop16_zero_iff)
  next
    case False
    define t where "t = (s AND 0xFFFF) + drop_bit 16 s"
    have fold: "csum_fold s = csum_fold t"
      using False by (simp add: csum_fold.simps [of s] t_def)
    have t: "unat t = unat s mod 65536 + unat s div 65536"
      by (simp add: t_def csum_fold_step)
    have s: "unat s = unat t + 65535 * (unat s div 65536)"
      using div_mult_mod_eq [of "unat s" 65536] t by linarith
    then have "unat s mod 65535 = unat t mod 65535"
      by (metis mod_mult_self2)
    moreover have "unat t \<noteq> 0" "unat s \<noteq> 0"
      using False t s drop16_zero_iff [of s] div_greater_zero_iff [of "unat s" 65536] by simp_all
    ultimately show ?thesis
      using 1 [OF False] by (simp add: fold t_def)
  qed
qed

lemma unat_net_checksum:
  assumes "words_sum data < 2 ^ 32"
  obtains f where "unat (net_checksum data) = 65535 - f" "f < 65536"
    "f mod 65535 = words_sum data mod 65535" "f = 0 \<longleftrightarrow> words_sum data = 0"
proof
  let ?s = "csum_words data 0"
  have s: "unat ?s = words_sum data"
    using csum_words_spec [of 0 data] assms by simp
  let ?f = "unat (csum_fold ?s)"
  show "?f < 65536" "?f mod 65535 = words_sum data mod 65535" "?f = 0 \<longleftrightarrow> words_sum data = 0"
    using csum_fold_spec [of ?s] by (simp_all add: s)
  have "ucast (NOT (csum_fold ?s)) = (NOT (ucast (csum_fold ?s)) :: u16)"
    by (rule bit_word_eqI) (simp add: bit_simps)
  moreover have "unat (ucast (csum_fold ?s) :: u16) = ?f"
    using csum_fold_spec [of ?s] by (simp add: unsigned_ucast_eq take_bit_eq_mod)
  ultimately show "unat (net_checksum data) = 65535 - ?f"
    by (simp add: net_checksum_def unat_not_word)
qed

lemma net_checksum_zero_iff:
  assumes "words_sum data < 2 ^ 32"
  shows "net_checksum data = 0 \<longleftrightarrow> words_sum data \<noteq> 0 \<and> words_sum data mod 65535 = 0"
proof -
  obtain f where f: "unat (net_checksum data) = 65535 - f" "f < 65536"
    "f mod 65535 = words_sum data mod 65535" "f = 0 \<longleftrightarrow> words_sum data = 0"
    using unat_net_checksum [OF assms] .
  have "net_checksum data = 0 \<longleftrightarrow> f = 65535"
    using f(1, 2) by (auto simp flip: unat_eq_0)
  also have "\<dots> \<longleftrightarrow> f \<noteq> 0 \<and> f mod 65535 = 0"
    using f(2) by (auto simp: mod_eq_0_iff_dvd)
  finally show ?thesis
    using f by simp
qed

lemma words_sum_put16: "words_sum (put16 v) = unat v"
proof -
  have "unat (drop_bit 8 v) = unat v div 256"
    by (simp add: drop_bit_eq_div unat_div_distrib)
  moreover have "unat v div 256 < 256"
    using unat_u16_less [of v] by (simp add: less_mult_imp_div_less)
  ultimately show ?thesis
    by (simp add: put16_def unsigned_ucast_eq take_bit_eq_mod)
qed

lemma words_sum_field:
  assumes "even (length pre)"
  shows "words_sum (pre @ put16 v @ post) = words_sum pre + unat v + words_sum post"
  using assms words_sum_append [of "put16 v" post] by (simp add: words_sum_append words_sum_put16)

lemma words_sum_field_bound:
  assumes "even (length pre)" "length pre + length post \<le> 131068"
  shows "words_sum (pre @ put16 v @ post) < 2 ^ 32"
proof -
  have "words_sum (pre @ put16 v @ post) \<le> 65535 * ((131070 + 1) div 2)"
    by (rule order_trans [OF words_sum_bound])
      (intro mult_left_mono div_le_mono, use assms(2) in simp_all)
  then show ?thesis by simp
qed

subsection \<open>Decimal octets\<close>

lemma digit_byte:
  assumes "unat (d :: u8) < 10"
  shows "48 \<le> 48 + d" "48 + d \<le> 57" "48 + d \<noteq> 0"
proof -
  have "unat (48 + d) = 48 + unat d"
    using assms by (simp add: unat_word_ariths)
  then show "48 \<le> 48 + d" "48 + d \<le> 57" "48 + d \<noteq> 0"
    using assms by (auto simp: word_le_nat_alt simp flip: unat_eq_0)
qed

lemma str_to_ip_digit:
  assumes "unat (d :: u8) < 10" "idx < 4"
  shows "str_to_ip_loop ((48 + d) # rest) idx octets =
    str_to_ip_loop rest idx (octets[idx := octets ! idx * 10 + ucast d])"
  using assms digit_byte [OF assms(1)] by simp

lemma three_digits: "(n div 100 * 10 + n mod 100 div 10) * 10 + n mod 100 mod 10 = n" for n :: nat
proof -
  have "(a * 10 + b) * 10 + c = a * 100 + (b * 10 + c)" for a b c :: nat
    by simp
  then show ?thesis
    by (simp only: div_mult_mod_eq)
qed

lemma str_to_ip_octet:
  assumes "idx < 4" "length octets = 4" "octets ! idx = 0"
  shows "str_to_ip_loop (octet_str v @ rest) idx octets =
    str_to_ip_loop rest idx (octets[idx := ucast v])"
proof -
  have small: "unat (v div 100) < 10" "unat (v mod 100 div 10) < 10" "unat (v mod 100 mod 10) < 10"
      "unat (v mod 10) < 10"
    using unat_u8_less [of v]
    by (simp_all add: unat_div_distrib unat_mod_distrib less_mult_imp_div_less)
  have three: "(ucast (v div 100) * 10 + ucast (v mod 100 div 10)) * 10 + ucast (v mod 100 mod 10) =
      (ucast v :: u32)"
    using unat_u8_less [of v] three_digits [of "unat v"]
    by (simp add: word_unat_eq_iff unat_word_ariths unat_ucast_widen unat_div_distrib unat_mod_distrib)
  have two: "ucast (v div 10) * 10 + ucast (v mod 10) = (ucast v :: u32)"
    using unat_u8_less [of v]
    by (simp add: word_unat_eq_iff unat_word_ariths unat_ucast_widen unat_div_distrib unat_mod_distrib)
  have tens: "unat (v div 10) < 10" if "\<not> 100 \<le> v"
    using that by (simp add: word_le_nat_alt unat_div_distrib less_mult_imp_div_less)
  have ones: "unat v < 10" if "\<not> 10 \<le> v"
    using that by (simp add: word_le_nat_alt)
  consider "100 \<le> v" | "\<not> 100 \<le> v" "10 \<le> v" | "\<not> 100 \<le> v" "\<not> 10 \<le> v"
    by blast
  then show ?thesis
  proof cases
    case 1
    then show ?thesis
      using assms small three by (simp add: octet_str_def Let_def str_to_ip_digit del: str_to_ip_loop.simps)
  next
    case 2
    then show ?thesis
      using assms small tens by (simp add: octet_str_def str_to_ip_digit two del: str_to_ip_loop.simps)
  next
    case 3
    then show ?thesis
      using assms ones by (simp add: octet_str_def str_to_ip_digit del: str_to_ip_loop.simps)
  qed
qed

lemma str_to_ip_dot:
  "idx < 4 \<Longrightarrow> str_to_ip_loop (46 # rest) idx octets = str_to_ip_loop rest (idx + 1) octets"
  by simp

lemma str_to_ip_nul: "str_to_ip_loop (0 # rest) idx octets = Some octets"
  by simp

lemma length_octet_str: "length (octet_str v) \<le> 3"
  by (simp add: octet_str_def Let_def)

lemma length_ip_text: "length (ip_text ip) \<le> 16"
  using length_octet_str [of "ucast ip"] length_octet_str [of "ucast (drop_bit 8 ip)"]
    length_octet_str [of "ucast (drop_bit 16 ip)"] length_octet_str [of "ucast (drop_bit 24 ip)"]
  unfolding ip_text_def length_append list.size by linarith

lemma IP_ADDR_octets:
  "IP_ADDR (ucast (ucast ip :: u8)) (ucast (ucast (drop_bit 8 ip) :: u8))
     (ucast (ucast (drop_bit 16 ip) :: u8)) (ucast (ucast (drop_bit 24 ip) :: u8)) = ip"
proof (rule bit_word_eqI)
  fix n assume "n < LENGTH(32)"
  then have "n < 8 \<or> 8 \<le> n \<and> n < 16 \<or> 16 \<le> n \<and> n < 24 \<or> 24 \<le> n \<and> n < 32"
    by auto
  then show "bit (IP_ADDR (ucast (ucast ip :: u8)) (ucast (ucast (drop_bit 8 ip) :: u8))
     (ucast (ucast (drop_bit 16 ip) :: u8)) (ucast (ucast (drop_bit 24 ip) :: u8))) n = bit ip n"
    unfolding IP_ADDR_def byte_masks
    by (elim disjE) (simp_all add: bit_simps less_diff_conv2)
qed

text \<open>A field filled with the checksum makes the buffer verify.\<close>

lemma checksum_field_verifies:
  assumes "even (length pre)" "length pre + length post \<le> 131068"
  shows "net_checksum (pre @ put16 (net_checksum (pre @ put16 0 @ post)) @ post) = 0"
proof -
  let ?S = "words_sum pre + words_sum post"
  have S: "words_sum (pre @ put16 0 @ post) = ?S"
    using words_sum_field [OF assms(1)] by simp
  obtain f where f: "unat (net_checksum (pre @ put16 0 @ post)) = 65535 - f" "f < 65536"
    "f mod 65535 = ?S mod 65535" "f = 0 \<longleftrightarrow> ?S = 0"
    using unat_net_checksum [OF words_sum_field_bound [OF assms]] S by metis
  have "f \<le> ?S"
  proof (cases "f = 65535")
    case True
    then have "65535 dvd ?S" "0 < ?S"
      using f(3, 4) by (simp_all add: mod_eq_0_iff_dvd)
    then show ?thesis
      using True by (simp add: dvd_imp_le)
  next
    case False
    then have "f = ?S mod 65535"
      using f(2, 3) by simp
    then show ?thesis by simp
  qed
  have "(?S + (65535 - f)) mod 65535 = (?S - f + 65535) mod 65535"
    using \<open>f \<le> ?S\<close> f(2) by simp
  also have "\<dots> = 0"
    using f(3) mod_eq_dvd_iff_nat [OF \<open>f \<le> ?S\<close>, of 65535] by (simp add: mod_eq_0_iff_dvd)
  finally have "(?S + (65535 - f)) mod 65535 = 0" .
  moreover have "?S + (65535 - f) \<noteq> 0"
    using f(4) by (cases "f = 0") linarith+
  ultimately show ?thesis
    unfolding net_checksum_zero_iff [OF words_sum_field_bound [OF assms]]
      words_sum_field [OF assms(1)] f(1)
    by (simp add: ac_simps)
qed

section \<open>Properties\<close>

text \<open>
  C29: a 16-bit checksum field computed by \<open>net_checksum\<close> over a buffer whose field is zero
  makes the whole buffer verify: the receiver's \<open>net_checksum\<close> over the filled buffer is 0.
  The field sits at an even offset and the buffer is short enough that the 32-bit
  accumulator does not wrap (131070 bytes; an Ethernet frame has at most 1514).
\<close>

theorem net_checksum_verifies:
  assumes "even (length pre)" "length pre + length post \<le> 131068"
  shows "net_checksum (pre @ put16 (net_checksum (pre @ put16 0 @ post)) @ post) = 0"
  using assms by (rule checksum_field_verifies)

theorem net_checksum_verifies_witness:
  "net_checksum ([0x45, 0, 0, 0x1c] @ put16 (net_checksum ([0x45, 0, 0, 0x1c] @ put16 0 @ [10, 0, 2])) @
     [10, 0, 2]) = 0"
  using net_checksum_verifies [of "[0x45, 0, 0, 0x1c]" "[10, 0, 2]"] by simp

text \<open>
  The checksum detects every corruption of one aligned 16-bit word, except the exchange
  of the two representations 0x0000 and 0xFFFF of zero: two buffers that differ in that word
  and both verify can only differ in that way.
\<close>

theorem net_checksum_detects:
  assumes "even (length pre)" "length pre + length post \<le> 131068"
    and "net_checksum (pre @ put16 v @ post) = 0" "net_checksum (pre @ put16 v' @ post) = 0"
  shows "v = v' \<or> {v, v'} = {0, 0xFFFF}"
proof -
  let ?S = "words_sum pre + words_sum post"
  have verified: "(?S + unat w) mod 65535 = 0" if "net_checksum (pre @ put16 w @ post) = 0" for w
    using that unfolding net_checksum_zero_iff [OF words_sum_field_bound [OF assms(1, 2)]]
      words_sum_field [OF assms(1)] by (simp only: ac_simps)
  have "unat v mod 65535 = unat v' mod 65535"
    by (rule mod_add_cancel_nat [of ?S]) (simp only: verified assms)
  moreover have "unat w mod 65535 = (if w = 0xFFFF then 0 else unat w)" for w :: u16
  proof (cases "w = 0xFFFF")
    case False
    then have "unat w \<noteq> 65535"
      by (simp add: word_unat_eq_iff)
    then show ?thesis
      using unat_u16_less [of w] False by simp
  qed simp
  ultimately show ?thesis
    by (auto split: if_splits simp: unat_eq_0 dest: unsigned_word_eqI)
qed

text \<open>
  Printing an address and parsing the text gives the address back; the text with its
  terminator fits in the 16 bytes the guard of \<open>ip_to_str\<close> asks for, and the rest of the
  buffer is left alone.
\<close>

theorem ip_to_str_roundtrip:
  assumes "16 \<le> buf_sz" "buf_sz \<le> length buf"
  shows "\<exists>out. ip_to_str ip (Some buf) buf_sz = Some (Some out) \<and> length out = length buf \<and>
    drop 16 out = drop 16 buf \<and> str_to_ip (Some out) = Some ip"
proof -
  let ?out = "ip_text ip @ drop (length (ip_text ip)) buf"
  have len: "length (ip_text ip) \<le> 16"
    by (rule length_ip_text)
  have "str_to_ip_loop ?out 0 [0, 0, 0, 0] =
    Some [ucast (ucast ip :: u8), ucast (ucast (drop_bit 8 ip) :: u8),
      ucast (ucast (drop_bit 16 ip) :: u8), ucast (ucast (drop_bit 24 ip) :: u8)]"
    by (simp add: ip_text_def str_to_ip_octet str_to_ip_dot str_to_ip_nul numeral_3_eq_3
      numeral_2_eq_2 del: str_to_ip_loop.simps)
  then have "str_to_ip (Some ?out) = Some ip"
    by (simp add: numeral_3_eq_3 numeral_2_eq_2 IP_ADDR_octets del: str_to_ip_loop.simps)
  moreover have "ip_to_str ip (Some buf) buf_sz = Some (Some ?out)"
    using assms len by simp
  moreover have "length ?out = length buf" "drop 16 ?out = drop 16 buf"
    using assms len by simp_all
  ultimately show ?thesis by blast
qed

end
