(* ===== verification/NetState.thy ===== *)
theory NetState
  imports NetCore Tarfs "HOL-Library.Sublist"
begin

text \<open>
  The state of the network stack and its lowest layer: the configuration
  (\<^verbatim>\<open>kernel/net/net.c\<close>), the statics of the protocol modules, and Ethernet framing
  (\<^verbatim>\<open>kernel/net/ethernet.c\<close>).

  The network card is seen through what the driver returns: \<open>arrivals\<close> are the outcomes of the
  coming calls of \<open>virtio_net_poll_packet\<close> (an empty one is a call that finds nothing) and
  \<open>sent\<close> are the frames handed to \<open>virtio_net_send_packet\<close>; \<^verbatim>\<open>Virtio\<close> models the driver itself.
  The time stamp counter is a parameter that gives the value of the n-th read.

  Of the static transmit buffers only \<open>ipv4_tx_buffer\<close> is part of the state: between filling
  and sending it the code polls the card, which can send another packet.  The other buffers are
  filled and handed on in one go, and packets being received are only read before anything
  is sent, so these are values here.
\<close>

record net_config =
  local_ip :: u32
  gateway_ip :: u32
  netmask :: u32
  dns_ip :: u32
  cfg_mac :: bytes

record arp_entry =
  ae_ip :: u32
  ae_mac :: bytes
  ae_valid :: bool

record udp_binding =
  ub_port :: u16
  ub_callback :: "string option"
  ub_in_use :: bool

datatype tcp_state = TCP_CLOSED | TCP_LISTEN | TCP_SYN_SENT | TCP_SYN_RECEIVED | TCP_ESTABLISHED | TCP_FIN_WAIT_1 |
  TCP_FIN_WAIT_2 | TCP_CLOSE_WAIT | TCP_CLOSING | TCP_LAST_ACK | TCP_TIME_WAIT

record tcp_socket =
  ts_id :: int
  ts_in_use :: bool
  ts_state :: tcp_state
  ts_local_ip :: u32
  ts_local_port :: u16
  ts_remote_ip :: u32
  ts_remote_port :: u16
  ts_seq :: u32
  ts_ack :: u32
  ts_remote_window :: u16
  rx_buf :: bytes
  rx_head :: nat
  rx_tail :: nat
  rx_len :: nat
  ts_last_activity :: u64

record net = tarfs +
  cfg :: net_config
  arp_cache :: "arp_entry list"
  ip_id_counter :: u16
  ipv4_tx_buffer :: bytes
  ping_reply_received :: bool
  ping_expected_id :: u16
  ping_expected_seq :: u16
  ping_seq_counter :: u16
  udp_bindings :: "udp_binding list"
  dns_resolved :: bool
  dns_result_ip :: u32
  dns_query_id :: u16
  tcp_sockets :: "tcp_socket list"
  ephemeral_port_counter :: u16
  net_present :: bool
  net_mac :: bytes
  arrivals :: "bytes list"
  sent :: "bytes list"
  tsc_reads :: nat

section \<open>The card\<close>

definition VIRTIO_NET_MAX_PKT_SIZE :: nat where "VIRTIO_NET_MAX_PKT_SIZE = 1536"

definition card_send :: "'a net_scheme \<Rightarrow> bytes \<Rightarrow> 'a net_scheme \<times> int" where
  "card_send w data =
     (if \<not> net_present w \<or> data = [] \<or> VIRTIO_NET_MAX_PKT_SIZE < length data then (w, - 1)
      else (w\<lparr>sent := sent w @ [data]\<rparr>, int (length data)))"

definition card_poll :: "'a net_scheme \<Rightarrow> nat \<Rightarrow> 'a net_scheme \<times> bytes" where
  "card_poll w max_len =
     (case arrivals w of
        [] \<Rightarrow> (w, [])
      | p # ps \<Rightarrow> if \<not> net_present w \<or> max_len = 0 then (w, []) else (w\<lparr>arrivals := ps\<rparr>, take max_len p))"

definition rdtsc_now :: "(nat \<Rightarrow> u64) \<Rightarrow> 'a net_scheme \<Rightarrow> 'a net_scheme \<times> u64" where
  "rdtsc_now tsc w = (w\<lparr>tsc_reads := tsc_reads w + 1\<rparr>, tsc (tsc_reads w))"

section \<open>Ethernet\<close>

definition ETHERTYPE_IPV4 :: u16 where "ETHERTYPE_IPV4 = 0x0800"
definition ETHERTYPE_ARP :: u16 where "ETHERTYPE_ARP = 0x0806"
definition ETH_HLEN :: nat where "ETH_HLEN = 14"

definition eth_frame :: "bytes \<Rightarrow> bytes \<Rightarrow> u16 \<Rightarrow> bytes \<Rightarrow> bytes" where
  "eth_frame dst src ethertype payload =
     (let f = dst @ src @ put16 (htons ethertype) @ payload in f @ replicate (60 - length f) 0)"

definition ethernet_send :: "'a net_scheme \<Rightarrow> bytes \<Rightarrow> u16 \<Rightarrow> bytes \<Rightarrow> 'a net_scheme \<times> int" where
  "ethernet_send w dst_mac ethertype payload =
     (if payload = [] \<or> 2048 < ETH_HLEN + length payload then (w, - 1)
      else card_send w (eth_frame (take 6 dst_mac) (take 6 (cfg_mac (cfg w))) ethertype payload))"

section \<open>Waiting\<close>

text \<open>
  The loops that poll the card until a condition holds or the counter has moved too far:
  \<open>within\<close> is the test on the elapsed cycles.  \<open>None\<close> is running out of the given number of
  rounds; with a counter that moves on this does not happen, see below.
\<close>

fun poll_while :: "('a net_scheme \<Rightarrow> 'a net_scheme option) \<Rightarrow> (nat \<Rightarrow> u64) \<Rightarrow> u64 \<Rightarrow> (u64 \<Rightarrow> bool) \<Rightarrow> ('a net_scheme \<Rightarrow> bool) \<Rightarrow>
    nat \<Rightarrow> 'a net_scheme \<Rightarrow> ('a net_scheme \<times> bool) option" where
  "poll_while poll tsc start within fin 0 w = None"
| "poll_while poll tsc start within fin (Suc n) w =
     (case rdtsc_now tsc w of (w, now) \<Rightarrow>
        if within (now - start) then
          (case poll w of
             None \<Rightarrow> None
           | Some w \<Rightarrow> if fin w then Some (w, True) else poll_while poll tsc start within fin n w)
        else Some (w, False))"

definition TSC_PER_MS :: u64 where "TSC_PER_MS = 500000"

text \<open>Rounds that are enough for the longest wait, see the termination lemmas.\<close>

definition timeout_cycles :: "u32 \<Rightarrow> u64" where
  "timeout_cycles timeout_ms =
     (let c = ucast timeout_ms * TSC_PER_MS in if c = 0 then TSC_PER_MS else c)"

section \<open>A state for examples\<close>

definition blank_net :: net where
  "blank_net = \<lparr>mounts = [], mount_count = 0, vnodes = (\<lambda>_. vfs_node_zero), tar_archive_base = None, tar_archive_size = 0,
     tarfs_file_count = 0, cfg = \<lparr>local_ip = 0, gateway_ip = 0, netmask = 0, dns_ip = 0, cfg_mac = replicate 6 0\<rparr>,
     arp_cache = [], ip_id_counter = 1, ipv4_tx_buffer = replicate 2048 0, ping_reply_received = False, ping_expected_id = 0,
     ping_expected_seq = 0, ping_seq_counter = 1, udp_bindings = replicate 16 \<lparr>ub_port = 0, ub_callback = None, ub_in_use = False\<rparr>,
     dns_resolved = False, dns_result_ip = 0, dns_query_id = 0x5432, tcp_sockets = [], ephemeral_port_counter = 49152,
     net_present = True, net_mac = [0x52, 0x54, 0x00, 0x12, 0x34, 0x56], arrivals = [], sent = [], tsc_reads = 0\<rparr>"

end
