(* ===== verification/Arp.thy ===== *)
theory Arp
  imports NetState
begin

text \<open>
  The address resolution protocol, \<^verbatim>\<open>kernel/net/arp.c\<close>: the cache of sixteen addresses, requests,
  replies, and resolution with its polling loop.  \<open>poll\<close> stands for \<open>net_poll\<close>, which is defined
  on top of this layer.
\<close>

section \<open>The cache\<close>

definition ARP_CACHE_SIZE :: nat where "ARP_CACHE_SIZE = 16"

definition arp_entry_zero :: arp_entry where
  "arp_entry_zero = \<lparr>ae_ip = 0, ae_mac = replicate 6 0, ae_valid = False\<rparr>"

definition arp_hit :: "u32 \<Rightarrow> arp_entry \<Rightarrow> bool" where
  "arp_hit ip e \<longleftrightarrow> ae_valid e \<and> ae_ip e = ip"

definition arp_insert_cache :: "'a net_scheme \<Rightarrow> u32 \<Rightarrow> bytes \<Rightarrow> 'a net_scheme" where
  "arp_insert_cache w ip mac =
     (let c = arp_cache w in
      case scan (arp_hit ip) c of
        Some i \<Rightarrow> w\<lparr>arp_cache := c[i := (c ! i)\<lparr>ae_mac := take 6 mac\<rparr>]\<rparr>
      | None \<Rightarrow>
          (case scan (\<lambda>e. \<not> ae_valid e) c of
             Some i \<Rightarrow> w\<lparr>arp_cache := c[i := \<lparr>ae_ip = ip, ae_mac = take 6 mac, ae_valid = True\<rparr>]\<rparr>
           | None \<Rightarrow> w\<lparr>arp_cache := c[0 := \<lparr>ae_ip = ip, ae_mac = take 6 mac, ae_valid = True\<rparr>]\<rparr>))"

definition arp_find :: "'a net_scheme \<Rightarrow> u32 \<Rightarrow> bytes option" where
  "arp_find w ip = map_option (\<lambda>i. ae_mac (arp_cache w ! i)) (scan (arp_hit ip) (arp_cache w))"

definition DEFAULT_LOCAL_IP :: u32 where "DEFAULT_LOCAL_IP = IP_ADDR 10 0 2 15"
definition DEFAULT_GATEWAY_IP :: u32 where "DEFAULT_GATEWAY_IP = IP_ADDR 10 0 2 2"
definition DEFAULT_NETMASK :: u32 where "DEFAULT_NETMASK = IP_ADDR 255 255 255 0"
definition DEFAULT_DNS_IP :: u32 where "DEFAULT_DNS_IP = IP_ADDR 10 0 2 3"

definition qemu_gw_mac :: bytes where "qemu_gw_mac = [0x52, 0x55, 0x0A, 0x00, 0x02, 0x02]"
definition broadcast_mac :: bytes where "broadcast_mac = replicate 6 0xFF"

definition arp_init :: "'a net_scheme \<Rightarrow> 'a net_scheme" where
  "arp_init w = arp_insert_cache (w\<lparr>arp_cache := replicate ARP_CACHE_SIZE arp_entry_zero\<rparr>) DEFAULT_GATEWAY_IP qemu_gw_mac"

section \<open>Packets\<close>

definition ARP_OP_REQUEST :: u16 where "ARP_OP_REQUEST = 1"
definition ARP_OP_REPLY :: u16 where "ARP_OP_REPLY = 2"
definition ARP_HTYPE_ETHERNET :: u16 where "ARP_HTYPE_ETHERNET = 1"
definition ARP_PTYPE_IPV4 :: u16 where "ARP_PTYPE_IPV4 = 0x0800"

definition arp_packet :: "u16 \<Rightarrow> bytes \<Rightarrow> u32 \<Rightarrow> bytes \<Rightarrow> u32 \<Rightarrow> bytes" where
  "arp_packet op src_mac src_ip dst_mac dst_ip =
     put16 (htons ARP_HTYPE_ETHERNET) @ put16 (htons ARP_PTYPE_IPV4) @ [6, 4] @ put16 (htons op) @
     src_mac @ put32 src_ip @ dst_mac @ put32 dst_ip"

definition arp_request :: "'a net_scheme \<Rightarrow> u32 \<Rightarrow> 'a net_scheme" where
  "arp_request w target_ip =
     fst (ethernet_send w broadcast_mac ETHERTYPE_ARP
       (arp_packet ARP_OP_REQUEST (take 6 (cfg_mac (cfg w))) (local_ip (cfg w)) (replicate 6 0) target_ip))"

definition arp_handle_packet :: "'a net_scheme \<Rightarrow> bytes \<Rightarrow> 'a net_scheme option" where
  "arp_handle_packet w p =
     (if length p < 28 then Some w
      else do {
        htype \<leftarrow> rd16 p 0;
        ptype \<leftarrow> rd16 p 2;
        if ntohs htype \<noteq> ARP_HTYPE_ETHERNET \<or> ntohs ptype \<noteq> ARP_PTYPE_IPV4 then Some w
        else do {
          src_mac \<leftarrow> slice p 8 6;
          src_ip \<leftarrow> rd32 p 14;
          opcode \<leftarrow> rd16 p 6;
          dst_ip \<leftarrow> rd32 p 24;
          let w = arp_insert_cache w src_ip src_mac in
          if ntohs opcode = ARP_OP_REQUEST \<and> dst_ip = local_ip (cfg w) then
            Some (fst (ethernet_send w src_mac ETHERTYPE_ARP
              (arp_packet ARP_OP_REPLY (take 6 (cfg_mac (cfg w))) (local_ip (cfg w)) src_mac src_ip)))
          else Some w
        }
      })"

section \<open>Resolution\<close>

fun arp_poll_loop :: "('a net_scheme \<Rightarrow> 'a net_scheme option) \<Rightarrow> u32 \<Rightarrow> nat \<Rightarrow> 'a net_scheme \<Rightarrow>
    ('a net_scheme \<times> bytes option) option" where
  "arp_poll_loop poll ip 0 w = Some (w, None)"
| "arp_poll_loop poll ip (Suc n) w =
     (case poll w of
        None \<Rightarrow> None
      | Some w \<Rightarrow> (case arp_find w ip of Some mac \<Rightarrow> Some (w, Some mac) | None \<Rightarrow> arp_poll_loop poll ip n w))"

text \<open>The address on success, \<open>None\<close> inside for the result -1.\<close>

definition arp_resolve :: "('a net_scheme \<Rightarrow> 'a net_scheme option) \<Rightarrow> 'a net_scheme \<Rightarrow> u32 \<Rightarrow>
    ('a net_scheme \<times> bytes option) option" where
  "arp_resolve poll w target_ip =
     (if target_ip = 0xFFFFFFFF then Some (w, Some broadcast_mac)
      else (case arp_find w target_ip of
          Some mac \<Rightarrow> Some (w, Some mac)
        | None \<Rightarrow> do {
            (w, r) \<leftarrow> arp_poll_loop poll target_ip 1000 (arp_request w target_ip);
            (case r of
               Some mac \<Rightarrow> Some (w, Some mac)
             | None \<Rightarrow> Some (w, if target_ip = gateway_ip (cfg w) then Some qemu_gw_mac else None))
          }))"

section \<open>The cache is a map\<close>

definition cache_ok :: "arp_entry list \<Rightarrow> bool" where
  "cache_ok c \<longleftrightarrow> length c = ARP_CACHE_SIZE \<and> (\<forall>e \<in> set c. length (ae_mac e) = 6) \<and>
     (\<forall>i < length c. \<forall>j < length c. ae_valid (c ! i) \<and> ae_valid (c ! j) \<and> ae_ip (c ! i) = ae_ip (c ! j) \<longrightarrow> i = j)"

lemma arp_find_eq:
  assumes "cache_ok (arp_cache w)" and "i < length (arp_cache w)" and "arp_hit ip (arp_cache w ! i)"
  shows "arp_find w ip = Some (ae_mac (arp_cache w ! i))"
proof -
  obtain j where j: "scan (arp_hit ip) (arp_cache w) = Some j"
    using scan_ex [OF assms(2), of "arp_hit ip"] assms(3) by blast
  then have "j < length (arp_cache w)" "arp_hit ip (arp_cache w ! j)"
    by (simp_all add: scan_Some_iff)
  then have "j = i"
    using assms unfolding cache_ok_def arp_hit_def by metis
  then show ?thesis
    using j by (simp add: arp_find_def)
qed

lemma arp_find_None: "arp_find w ip = None \<longleftrightarrow> (\<forall>i < length (arp_cache w). \<not> arp_hit ip (arp_cache w ! i))"
  by (auto simp: arp_find_def scan_None_iff all_set_conv_all_nth)

text \<open>Replacing entry \<open>i\<close> by one for \<open>ip\<close> when no other entry is for \<open>ip\<close>.\<close>

lemma cache_put:
  assumes ok: "cache_ok (arp_cache w)" and i: "i < length (arp_cache w)"
    and fresh: "\<forall>j < length (arp_cache w). j \<noteq> i \<longrightarrow> \<not> arp_hit ip (arp_cache w ! j)"
    and e: "ae_valid e" "ae_ip e = ip" "length (ae_mac e) = 6"
    and w': "arp_cache w' = (arp_cache w)[i := e]"
  shows "cache_ok (arp_cache w')" "arp_find w' ip = Some (ae_mac e)"
    "ip' \<noteq> ip \<Longrightarrow> \<not> arp_hit ip' (arp_cache w ! i) \<Longrightarrow> arp_find w' ip' = arp_find w ip'"
proof -
  let ?c = "arp_cache w" and ?c' = "arp_cache w'"
  have nth: "?c' ! j = (if j = i then e else ?c ! j)" if "j < length ?c" for j
    using w' that by simp
  have len: "length ?c' = length ?c"
    using w' by simp
  have "\<forall>x \<in> set ?c'. length (ae_mac x) = 6"
    using ok e(3) set_update_subset_insert [of ?c i e] w' by (auto simp: cache_ok_def)
  moreover have "a = b" if ab: "a < length ?c'" "b < length ?c'" "ae_valid (?c' ! a) \<and> ae_valid (?c' ! b) \<and> ae_ip (?c' ! a) = ae_ip (?c' ! b)" for a b
  proof (cases "a = i \<or> b = i")
    case True
    then show ?thesis
      using ab fresh nth len e by (auto simp: arp_hit_def split: if_splits)
  next
    case False
    then show ?thesis
      using ab ok nth len by (simp add: cache_ok_def)
  qed
  ultimately show ok': "cache_ok ?c'"
    using ok len by (auto simp: cache_ok_def)
  show "arp_find w' ip = Some (ae_mac e)"
    using arp_find_eq [OF ok', of i ip] i e nth [OF i] len by (simp add: arp_hit_def)
  show "arp_find w' ip' = arp_find w ip'" if "ip' \<noteq> ip" "\<not> arp_hit ip' (?c ! i)"
  proof -
    have same: "arp_hit ip' (?c' ! j) \<longleftrightarrow> j \<noteq> i \<and> arp_hit ip' (?c ! j)" if "j < length ?c" for j
      using nth [OF that] \<open>ip' \<noteq> ip\<close> e(2) by (auto simp: arp_hit_def)
    show ?thesis
    proof (cases "\<exists>j < length ?c. arp_hit ip' (?c ! j)")
      case True
      then obtain j where j: "j < length ?c" "arp_hit ip' (?c ! j)" by blast
      then have "j \<noteq> i" using that(2) by blast
      then show ?thesis
        using arp_find_eq [OF ok j] arp_find_eq [OF ok', of j ip'] j same nth len by simp
    next
      case False
      then have "arp_find w ip' = None" "arp_find w' ip' = None"
        using same len by (auto simp: arp_find_None)
      then show ?thesis by simp
    qed
  qed
qed

definition cache_full :: "arp_entry list \<Rightarrow> bool" where
  "cache_full c \<longleftrightarrow> (\<forall>e \<in> set c. ae_valid e)"

lemma arp_insert_map:
  assumes "cache_ok (arp_cache w)" and "length mac = 6"
  shows "cache_ok (arp_cache (arp_insert_cache w ip mac)) \<and> arp_find (arp_insert_cache w ip mac) ip = Some mac \<and>
    (\<forall>ip'. ip' \<noteq> ip \<and> \<not> (cache_full (arp_cache w) \<and> arp_find w ip = None \<and> arp_hit ip' (arp_cache w ! 0)) \<longrightarrow>
      arp_find (arp_insert_cache w ip mac) ip' = arp_find w ip')"
proof (cases "scan (arp_hit ip) (arp_cache w)")
  case (Some i)
  then have i: "i < length (arp_cache w)" "arp_hit ip (arp_cache w ! i)"
    by (simp_all add: scan_Some_iff)
  then have "\<forall>j < length (arp_cache w). j \<noteq> i \<longrightarrow> \<not> arp_hit ip (arp_cache w ! j)"
    using assms(1) unfolding cache_ok_def arp_hit_def by metis
  moreover have "arp_cache (arp_insert_cache w ip mac) = (arp_cache w)[i := (arp_cache w ! i)\<lparr>ae_mac := mac\<rparr>]"
    using Some assms(2) by (simp add: arp_insert_cache_def Let_def)
  ultimately show ?thesis
    using cache_put [OF assms(1) i(1), of ip "(arp_cache w ! i)\<lparr>ae_mac := mac\<rparr>" "arp_insert_cache w ip mac"] i(2) assms(2) by (auto simp: arp_hit_def)
next
  case None
  then have fresh: "\<forall>j < length (arp_cache w). \<not> arp_hit ip (arp_cache w ! j)"
    by (simp add: scan_None_iff all_set_conv_all_nth)
  show ?thesis
  proof (cases "scan (\<lambda>e. \<not> ae_valid e) (arp_cache w)")
    case (Some i)
    then have i: "i < length (arp_cache w)" "\<not> ae_valid (arp_cache w ! i)"
      by (simp_all add: scan_Some_iff)
    have "arp_cache (arp_insert_cache w ip mac) = (arp_cache w)[i := \<lparr>ae_ip = ip, ae_mac = mac, ae_valid = True\<rparr>]"
      using None Some assms(2) by (simp add: arp_insert_cache_def Let_def)
    then show ?thesis
      using cache_put [OF assms(1) i(1), of ip "\<lparr>ae_ip = ip, ae_mac = mac, ae_valid = True\<rparr>" "arp_insert_cache w ip mac"] i(2) fresh assms(2)
      by (auto simp: arp_hit_def)
  next
    case full: None
    have len: "0 < length (arp_cache w)"
      using assms(1) by (simp add: cache_ok_def ARP_CACHE_SIZE_def)
    have "arp_cache (arp_insert_cache w ip mac) = (arp_cache w)[0 := \<lparr>ae_ip = ip, ae_mac = mac, ae_valid = True\<rparr>]"
      using None full assms(2) by (simp add: arp_insert_cache_def Let_def)
    moreover have "cache_full (arp_cache w)" "arp_find w ip = None"
      using full fresh by (auto simp: cache_full_def scan_None_iff arp_find_None)
    ultimately show ?thesis
      using cache_put [OF assms(1) len, of ip "\<lparr>ae_ip = ip, ae_mac = mac, ae_valid = True\<rparr>" "arp_insert_cache w ip mac"] fresh assms(2) by auto
  qed
qed

text \<open>
  The ARP cache is a map with one entry per address.  After inserting an address the cache
  is well formed and resolving the address gives the inserted hardware address without
  touching the network; every other address keeps its entry, except the one in slot 0 when the
  cache was full and the address was new.
\<close>

theorem arp_insert_lookup:
  assumes "cache_ok (arp_cache w)" and "length mac = 6"
  shows "cache_ok (arp_cache (arp_insert_cache w ip mac)) \<and>
    (ip \<noteq> 0xFFFFFFFF \<longrightarrow> arp_resolve poll (arp_insert_cache w ip mac) ip = Some (arp_insert_cache w ip mac, Some mac)) \<and>
    (\<forall>ip'. ip' \<noteq> ip \<and> \<not> (cache_full (arp_cache w) \<and> arp_find w ip = None \<and> arp_hit ip' (arp_cache w ! 0)) \<longrightarrow>
      arp_find (arp_insert_cache w ip mac) ip' = arp_find w ip')"
  using arp_insert_map [OF assms] by (simp add: arp_resolve_def)

lemma arp_init_ok: "cache_ok (arp_cache (arp_init w))"
proof -
  have "cache_ok (arp_cache (w\<lparr>arp_cache := replicate ARP_CACHE_SIZE arp_entry_zero\<rparr>))"
    by (simp add: cache_ok_def arp_entry_zero_def)
  from arp_insert_map [OF this, of qemu_gw_mac] show ?thesis
    by (simp add: arp_init_def qemu_gw_mac_def)
qed

end
