(* ===== verification/Ipv4.thy ===== *)
theory Ipv4
  imports Arp
begin

text \<open>
  IPv4 output (\<^verbatim>\<open>kernel/net/ipv4.c\<close>) and the protocols on top of it that keep little state:
  ICMP echo (\<^verbatim>\<open>kernel/net/icmp.c\<close>) and UDP (\<^verbatim>\<open>kernel/net/udp.c\<close>) with the resolver's callback
  (\<^verbatim>\<open>kernel/net/dns.c\<close>).
\<close>

section \<open>IPv4 output\<close>

definition IP_PROTO_ICMP :: u8 where "IP_PROTO_ICMP = 1"
definition IP_PROTO_TCP :: u8 where "IP_PROTO_TCP = 6"
definition IP_PROTO_UDP :: u8 where "IP_PROTO_UDP = 17"

definition ipv4_hdr :: "u16 \<Rightarrow> u16 \<Rightarrow> u8 \<Rightarrow> u16 \<Rightarrow> u32 \<Rightarrow> u32 \<Rightarrow> bytes" where
  "ipv4_hdr total_length ident protocol checksum src_ip dst_ip =
     [0x45, 0] @ put16 (htons total_length) @ put16 (htons ident) @ put16 (htons 0x4000) @ [64, protocol] @
     put16 checksum @ put32 src_ip @ put32 dst_ip"

definition ipv4_hdr_sum :: "u16 \<Rightarrow> u16 \<Rightarrow> u8 \<Rightarrow> u32 \<Rightarrow> u32 \<Rightarrow> bytes" where
  "ipv4_hdr_sum total_length ident protocol src_ip dst_ip =
     ipv4_hdr total_length ident protocol (net_checksum (ipv4_hdr total_length ident protocol 0 src_ip dst_ip)) src_ip dst_ip"

definition next_hop :: "net_config \<Rightarrow> u32 \<Rightarrow> u32" where
  "next_hop c dst_ip = (if dst_ip AND netmask c = local_ip c AND netmask c then dst_ip else gateway_ip c)"

definition ipv4_packet :: "'a net_scheme \<Rightarrow> u32 \<Rightarrow> u8 \<Rightarrow> bytes \<Rightarrow> bytes" where
  "ipv4_packet w dst_ip protocol payload =
     ipv4_hdr_sum (of_nat (20 + length payload)) (ip_id_counter w) protocol (local_ip (cfg w)) dst_ip @ payload"

text \<open>Header and payload are stored at the start of the transmit buffer.\<close>

definition ipv4_fill :: "'a net_scheme \<Rightarrow> bytes \<Rightarrow> 'a net_scheme" where
  "ipv4_fill w pkt =
     w\<lparr>ip_id_counter := ip_id_counter w + 1, ipv4_tx_buffer := pkt @ drop (length pkt) (ipv4_tx_buffer w)\<rparr>"

definition ipv4_send :: "('a net_scheme \<Rightarrow> 'a net_scheme option) \<Rightarrow> 'a net_scheme \<Rightarrow> u32 \<Rightarrow> u8 \<Rightarrow> bytes \<Rightarrow>
    ('a net_scheme \<times> int) option" where
  "ipv4_send poll w dst_ip protocol payload =
     (if payload = [] \<or> 2048 < 20 + length payload then Some (w, - 1)
      else do {
        (w, mac) \<leftarrow> arp_resolve poll (ipv4_fill w (ipv4_packet w dst_ip protocol payload)) (next_hop (cfg w) dst_ip);
        (case mac of
           None \<Rightarrow> Some (w, - 1)
         | Some m \<Rightarrow> Some (ethernet_send w m ETHERTYPE_IPV4 (take (20 + length payload) (ipv4_tx_buffer w))))
      })"

section \<open>ICMP\<close>

definition ICMP_TYPE_ECHO_REPLY :: u8 where "ICMP_TYPE_ECHO_REPLY = 0"
definition ICMP_TYPE_ECHO_REQUEST :: u8 where "ICMP_TYPE_ECHO_REQUEST = 8"

text \<open>The reply in \<open>reply_buf\<close>: type, code and checksum are overwritten.\<close>

definition echo_reply :: "bytes \<Rightarrow> bytes" where
  "echo_reply p =
     (let q = ICMP_TYPE_ECHO_REPLY # 0 # put16 0 @ drop 4 p
      in ICMP_TYPE_ECHO_REPLY # 0 # put16 (net_checksum q) @ drop 4 p)"

definition icmp_receive :: "('a net_scheme \<Rightarrow> 'a net_scheme option) \<Rightarrow> 'a net_scheme \<Rightarrow> u32 \<Rightarrow> bytes \<Rightarrow> 'a net_scheme option" where
  "icmp_receive poll w src_ip p =
     (if length p < 8 then Some w
      else do {
        ty \<leftarrow> at_idx p 0;
        if ty = ICMP_TYPE_ECHO_REQUEST then
          map_option fst (ipv4_send poll w src_ip IP_PROTO_ICMP (echo_reply (take 128 p)))
        else if ty = ICMP_TYPE_ECHO_REPLY then do {
          ident \<leftarrow> rd16 p 4;
          sq \<leftarrow> rd16 p 6;
          Some (if ntohs ident = ping_expected_id w \<and> ntohs sq = ping_expected_seq w then w\<lparr>ping_reply_received := True\<rparr> else w)
        }
        else Some w
      })"

definition ping_buf :: "u16 \<Rightarrow> u16 \<Rightarrow> bytes" where
  "ping_buf ident sq =
     (let pat = map (\<lambda>i. of_nat (65 + i mod 26)) [0..<32];
          q = ICMP_TYPE_ECHO_REQUEST # 0 # put16 0 @ put16 (htons ident) @ put16 (htons sq) @ pat
      in ICMP_TYPE_ECHO_REQUEST # 0 # put16 (net_checksum q) @ put16 (htons ident) @ put16 (htons sq) @ pat)"

text \<open>The result and the round trip time stored through \<open>out_rtt_ms\<close>.\<close>

definition icmp_ping :: "('a net_scheme \<Rightarrow> 'a net_scheme option) \<Rightarrow> (nat \<Rightarrow> u64) \<Rightarrow> nat \<Rightarrow> 'a net_scheme \<Rightarrow> u32 \<Rightarrow> u32 \<Rightarrow>
    ('a net_scheme \<times> int \<times> u32 option) option" where
  "icmp_ping poll tsc rounds w dst_ip timeout_ms =
     (let sq = ping_seq_counter w;
          w = w\<lparr>ping_seq_counter := sq + 1, ping_expected_id := 0x4242, ping_expected_seq := sq, ping_reply_received := False\<rparr>
      in do {
        (w, r) \<leftarrow> ipv4_send poll w dst_ip IP_PROTO_ICMP (ping_buf 0x4242 sq);
        if r < 0 then Some (w, - 1, None)
        else
          let (w, start) = rdtsc_now tsc w in do {
            (w, got) \<leftarrow> poll_while poll tsc start (\<lambda>t. t \<le> timeout_cycles timeout_ms) ping_reply_received rounds w;
            if got then
              let (w, now) = rdtsc_now tsc w; rtt = ucast ((now - start) div TSC_PER_MS)
              in Some (w, 0, Some (if rtt = 0 then 1 else rtt))
            else Some (w, - 1, None)
          }
      })"

section \<open>UDP\<close>

definition MAX_UDP_PORTS :: nat where "MAX_UDP_PORTS = 16"

definition udp_binding_zero :: udp_binding where
  "udp_binding_zero = \<lparr>ub_port = 0, ub_callback = None, ub_in_use = False\<rparr>"

definition udp_register_port :: "'a net_scheme \<Rightarrow> u16 \<Rightarrow> string option \<Rightarrow> 'a net_scheme \<times> int" where
  "udp_register_port w port callback =
     (if callback = None then (w, - 1)
      else (case scan (\<lambda>b. \<not> ub_in_use b) (udp_bindings w) of
          Some i \<Rightarrow> (w\<lparr>udp_bindings := (udp_bindings w)[i := \<lparr>ub_port = port, ub_callback = callback, ub_in_use = True\<rparr>]\<rparr>, 0)
        | None \<Rightarrow> (w, - 1)))"

definition bound_to :: "u16 \<Rightarrow> udp_binding \<Rightarrow> bool" where
  "bound_to port b \<longleftrightarrow> ub_in_use b \<and> ub_port b = port"

definition udp_unregister_port :: "'a net_scheme \<Rightarrow> u16 \<Rightarrow> 'a net_scheme" where
  "udp_unregister_port w port =
     (case scan (bound_to port) (udp_bindings w) of
        Some i \<Rightarrow> w\<lparr>udp_bindings := (udp_bindings w)[i := (udp_bindings w ! i)\<lparr>ub_in_use := False, ub_callback := None\<rparr>]\<rparr>
      | None \<Rightarrow> w)"

definition udp_send :: "('a net_scheme \<Rightarrow> 'a net_scheme option) \<Rightarrow> 'a net_scheme \<Rightarrow> u32 \<Rightarrow> u16 \<Rightarrow> u16 \<Rightarrow> bytes \<Rightarrow>
    ('a net_scheme \<times> int) option" where
  "udp_send poll w dst_ip src_port dst_port payload =
     (if 2048 < 8 + length payload then Some (w, - 1)
      else ipv4_send poll w dst_ip IP_PROTO_UDP
        (put16 (htons src_port) @ put16 (htons dst_port) @ put16 (htons (of_nat (8 + length payload))) @ put16 0 @ payload))"

text \<open>\<open>callback\<close> runs the registered function of that name.\<close>

definition udp_receive :: "(string \<Rightarrow> 'a net_scheme \<Rightarrow> u32 \<Rightarrow> u16 \<Rightarrow> bytes \<Rightarrow> 'a net_scheme option) \<Rightarrow> 'a net_scheme \<Rightarrow> u32 \<Rightarrow> bytes \<Rightarrow>
    'a net_scheme option" where
  "udp_receive callback w src_ip p =
     (if length p < 8 then Some w
      else do {
        sp \<leftarrow> rd16 p 0;
        dp \<leftarrow> rd16 p 2;
        ul \<leftarrow> rd16 p 4;
        let udp_len = unat (ntohs ul) in
        if length p < udp_len \<or> udp_len < 8 then Some w
        else do {
          data \<leftarrow> slice p 8 (udp_len - 8);
          (case scan (bound_to (ntohs dp)) (udp_bindings w) of
             None \<Rightarrow> Some w
           | Some i \<Rightarrow>
               (case ub_callback (udp_bindings w ! i) of
                  None \<Rightarrow> Some w
                | Some f \<Rightarrow> callback f w src_ip (ntohs sp) data))
        }
      })"

end
