(* ===== verification/Dns.thy ===== *)
theory Dns
  imports Ipv4
begin

text \<open>
  The name resolver, \<^verbatim>\<open>kernel/net/dns.c\<close>: the encoding of a name as labels, the query, and the
  parser of the answer.  A pointer into the answer is its offset \<open>p\<close>, and \<open>end\<close> is the length
  of the data.
\<close>

section \<open>The answer\<close>

text \<open>The name of a question: a compression pointer ends it.\<close>

function skip_qname :: "bytes \<Rightarrow> nat \<Rightarrow> nat" where
  "skip_qname d p =
     (if p < length d \<and> d ! p \<noteq> 0 then
        if d ! p AND 0xC0 = 0xC0 then p + 2 else skip_qname d (p + unat (d ! p) + 1)
      else p)"
  by pat_completeness auto
termination by (relation "measure (\<lambda>(d, p). length d - p)") auto

declare skip_qname.simps [simp del]

definition skip_question :: "bytes \<Rightarrow> nat \<Rightarrow> nat" where
  "skip_question d p =
     (let p = skip_qname d p; p = (if p < length d \<and> d ! p = 0 then p + 1 else p) in p + 4)"

text \<open>The name of an answer that does not start with a compression pointer.\<close>

function skip_labels :: "bytes \<Rightarrow> nat \<Rightarrow> nat" where
  "skip_labels d p = (if p < length d \<and> d ! p \<noteq> 0 then skip_labels d (p + unat (d ! p) + 1) else p)"
  by pat_completeness auto
termination by (relation "measure (\<lambda>(d, p). length d - p)") auto

declare skip_labels.simps [simp del]

definition skip_name :: "bytes \<Rightarrow> nat \<Rightarrow> nat" where
  "skip_name d p =
     (if d ! p AND 0xC0 = 0xC0 then p + 2
      else let p = skip_labels d p in if p < length d \<and> d ! p = 0 then p + 1 else p)"

definition be16 :: "bytes \<Rightarrow> nat \<Rightarrow> u16" where
  "be16 d p = push_bit 8 (ucast (d ! p)) OR ucast (d ! (p + 1))"

definition DNS_TYPE_A :: u16 where "DNS_TYPE_A = 1"

fun parse_answers :: "bytes \<Rightarrow> nat \<Rightarrow> nat \<Rightarrow> u32 option" where
  "parse_answers d p 0 = None"
| "parse_answers d p (Suc n) =
     (if length d \<le> p then None
      else
        let p = skip_name d p in
        if length d < p + 10 then None
        else
          let ty = be16 d p; rdlength = be16 d (p + 8); p = p + 10 in
          if ty = DNS_TYPE_A \<and> rdlength = 4 \<and> p + 4 \<le> length d then
            Some (IP_ADDR (ucast (d ! p)) (ucast (d ! (p + 1))) (ucast (d ! (p + 2))) (ucast (d ! (p + 3))))
          else parse_answers d (p + unat rdlength) n)"

definition dns_udp_callback :: "'a net_scheme \<Rightarrow> u32 \<Rightarrow> u16 \<Rightarrow> bytes \<Rightarrow> 'a net_scheme option" where
  "dns_udp_callback w src_ip src_port d =
     (if length d < 12 then Some w
      else do {
        ident \<leftarrow> rd16 d 0;
        if ntohs ident \<noteq> dns_query_id w then Some w
        else do {
          an \<leftarrow> rd16 d 6;
          qd \<leftarrow> rd16 d 4;
          if ntohs an = 0 then Some w
          else
            let p = (skip_question d ^^ unat (ntohs qd)) 12 in
            Some (case parse_answers d p (unat (ntohs an)) of
                None \<Rightarrow> w
              | Some ip \<Rightarrow> w\<lparr>dns_result_ip := ip, dns_resolved := True\<rparr>)
        }
      })"

text \<open>The only function that is registered for a port.\<close>

definition udp_callbacks :: "string \<Rightarrow> 'a net_scheme \<Rightarrow> u32 \<Rightarrow> u16 \<Rightarrow> bytes \<Rightarrow> 'a net_scheme option" where
  "udp_callbacks f = (if f = ''dns_udp_callback'' then dns_udp_callback else (\<lambda>w src_ip src_port d. Some w))"

section \<open>The query\<close>

text \<open>
  The loop of \<open>encode_qname\<close>: the characters of the current label, in reverse, and the bytes
  written so far.  \<open>None\<close> inside is the result 0, the outer option is the access past the
  terminator of the name.
\<close>

fun qname_loop :: "bytes \<Rightarrow> bytes \<Rightarrow> bytes \<Rightarrow> nat \<Rightarrow> bytes option option" where
  "qname_loop [] lab out sz = None"
| "qname_loop (c # cs) lab out sz =
     (if c = 0 then
        Some (if lab = [] then Some (out @ [0])
              else if 63 < length lab \<or> sz \<le> length out + length lab + 2 then None
              else Some (out @ of_nat (length lab) # rev lab @ [0]))
      else if c = 46 then
        if 63 < length lab \<or> sz \<le> length out + length lab + 1 then Some None
        else qname_loop cs [] (out @ of_nat (length lab) # rev lab) sz
      else qname_loop cs (c # lab) out sz)"

text \<open>The bytes written to the buffer of \<open>sz\<close> bytes and their number.\<close>

definition encode_qname :: "bytes \<Rightarrow> nat \<Rightarrow> bytes option option" where
  "encode_qname hostname sz = qname_loop hostname [] [] sz"

fun is_numeric :: "bytes \<Rightarrow> bool option" where
  "is_numeric [] = None"
| "is_numeric (c # cs) = (if c = 0 then Some True else if 48 \<le> c \<and> c \<le> 57 \<or> c = 46 then is_numeric cs else Some False)"

definition DNS_CLIENT_PORT :: u16 where "DNS_CLIENT_PORT = 53535"
definition DNS_PORT :: u16 where "DNS_PORT = 53"

definition dns_header :: "u16 \<Rightarrow> bytes" where
  "dns_header ident = put16 (htons ident) @ put16 (htons 0x0100) @ put16 (htons 1) @ replicate 6 0"

text \<open>The part of the 512-byte \<open>query_buf\<close> that is sent; \<open>None\<close> when the question type and class are stored past its end.\<close>

definition dns_query :: "u16 \<Rightarrow> bytes \<Rightarrow> bytes option" where
  "dns_query ident qname =
     (if 512 < 12 + length qname + 4 then None else Some (dns_header ident @ qname @ [0, 1, 0, 1]))"

definition dns_resolve :: "('a net_scheme \<Rightarrow> 'a net_scheme option) \<Rightarrow> (nat \<Rightarrow> u64) \<Rightarrow> nat \<Rightarrow> 'a net_scheme \<Rightarrow> bytes \<Rightarrow> u32 \<Rightarrow>
    ('a net_scheme \<times> int \<times> u32 option) option" where
  "dns_resolve poll tsc rounds w hostname timeout_ms = do {
     num \<leftarrow> is_numeric hostname;
     if num then do { ip \<leftarrow> str_to_ip (Some hostname); Some (w, 0, Some ip) }
     else
       let w = w\<lparr>dns_resolved := False, dns_result_ip := 0, dns_query_id := dns_query_id w + 1\<rparr>;
           w = fst (udp_register_port w DNS_CLIENT_PORT (Some ''dns_udp_callback''))
       in do {
         qn \<leftarrow> encode_qname hostname 500;
         (case qn of
            None \<Rightarrow> Some (udp_unregister_port w DNS_CLIENT_PORT, - 1, None)
          | Some qname \<Rightarrow> do {
              q \<leftarrow> dns_query (dns_query_id w) qname;
              (w, r) \<leftarrow> udp_send poll w (dns_ip (cfg w)) DNS_CLIENT_PORT DNS_PORT q;
              if r < 0 then Some (udp_unregister_port w DNS_CLIENT_PORT, - 1, None)
              else
                let (w, start) = rdtsc_now tsc w in do {
                  (w, got) \<leftarrow> poll_while poll tsc start (\<lambda>t. t \<le> timeout_cycles timeout_ms) dns_resolved rounds w;
                  let ip = dns_result_ip w; w = udp_unregister_port w DNS_CLIENT_PORT in
                  if got then Some (w, 0, Some ip) else Some (w, - 1, None)
                }
            })
       }
   }"

section \<open>Names on the wire\<close>

text \<open>A name as its list of labels, its text with dots, and its encoding.\<close>

definition label_ok :: "bytes \<Rightarrow> bool" where
  "label_ok l \<longleftrightarrow> l \<noteq> [] \<and> length l \<le> 63 \<and> 0 \<notin> set l \<and> 46 \<notin> set l"

fun dotted :: "bytes list \<Rightarrow> bytes" where
  "dotted [] = []"
| "dotted [l] = l"
| "dotted (l # ls) = l @ 46 # dotted ls"

definition wire_labels :: "bytes list \<Rightarrow> bytes" where
  "wire_labels ls = concat (map (\<lambda>l. of_nat (length l) # l) ls)"

lemma wire_labels_simps [simp]: "wire_labels [] = []" "wire_labels (l # ls) = of_nat (length l) # l @ wire_labels ls"
  by (simp_all add: wire_labels_def)

lemma qname_loop_label:
  assumes "0 \<notin> set l" and "46 \<notin> set l"
  shows "qname_loop (l @ rest) lab out sz = qname_loop rest (rev l @ lab) out sz"
  using assms by (induction l arbitrary: lab) auto

lemma qname_loop_dotted:
  assumes "\<forall>l \<in> set ls. label_ok l" and "ls \<noteq> []" and "length out + length (wire_labels ls) + 1 < sz"
  shows "qname_loop (dotted ls @ [0]) [] out sz = Some (Some (out @ wire_labels ls @ [0]))"
  using assms
proof (induction ls arbitrary: out rule: dotted.induct)
  case (2 l)
  then show ?case
    by (auto simp: label_ok_def qname_loop_label [where rest = "[0]", simplified])
next
  case (3 l l' ls)
  have l: "label_ok l"
    using 3(2) by simp
  have "qname_loop (dotted (l # l' # ls) @ [0]) [] out sz = qname_loop (dotted (l' # ls) @ [0]) [] (out @ of_nat (length l) # l) sz"
    using l 3(4) qname_loop_label [of l "46 # dotted (l' # ls) @ [0]" "[]"] by (simp add: label_ok_def)
  also have "\<dots> = Some (Some ((out @ of_nat (length l) # l) @ wire_labels (l' # ls) @ [0]))"
    using 3(2, 4) by (intro 3(1)) auto
  finally show ?case by simp
qed simp

lemma label_byte: "label_ok l \<Longrightarrow> unat (of_nat (length l) :: u8) = length l"
  by (auto simp: label_ok_def unat_of_nat)

lemma label_byte_neq_0: "label_ok l \<Longrightarrow> (of_nat (length l) :: u8) \<noteq> 0"
  using label_byte [of l] by (auto simp: label_ok_def)

lemma label_byte_short: "label_ok l \<Longrightarrow> (of_nat (length l) :: u8) AND 0xC0 \<noteq> 0xC0"
proof
  assume l: "label_ok l" and "(of_nat (length l) :: u8) AND 0xC0 = 0xC0"
  then have "0xC0 \<le> (of_nat (length l) :: u8)"
    using word_and_le2 [of "of_nat (length l) :: u8" "0xC0"] by simp
  then show False
    using label_byte [OF l] l by (simp add: word_le_nat_alt label_ok_def)
qed

lemma skip_qname_labels:
  assumes "\<forall>l \<in> set ls. label_ok l"
  shows "skip_qname (pre @ wire_labels ls @ 0 # post) (length pre) = length pre + length (wire_labels ls)"
  using assms
proof (induction ls arbitrary: pre)
  case Nil
  then show ?case
    by (subst skip_qname.simps) (simp add: nth_append)
next
  case (Cons l ls)
  have l: "label_ok l"
    using Cons.prems by simp
  let ?d = "pre @ wire_labels (l # ls) @ 0 # post"
  have "?d ! length pre = of_nat (length l)"
    by (simp add: nth_append)
  then have "skip_qname ?d (length pre) = skip_qname ?d (length pre + length l + 1)"
    using label_byte [OF l] label_byte_neq_0 [OF l] label_byte_short [OF l] by (subst skip_qname.simps) simp
  also have "\<dots> = length pre + length l + 1 + length (wire_labels ls)"
    using Cons.IH [of "pre @ of_nat (length l) # l"] Cons.prems by (simp add: ac_simps)
  finally show ?case by simp
qed

lemma skip_question_labels:
  assumes "\<forall>l \<in> set ls. label_ok l"
  shows "skip_question (pre @ wire_labels ls @ 0 # post) (length pre) = length pre + length (wire_labels ls) + 5"
  by (simp add: skip_question_def skip_qname_labels [OF assms] nth_append Let_def)

text \<open>An answer with one question and an address record for its name.\<close>

definition dns_answer :: "u16 \<Rightarrow> bytes \<Rightarrow> bytes list \<Rightarrow> bytes \<Rightarrow> bytes \<Rightarrow> bytes \<Rightarrow> bytes" where
  "dns_answer ident flags ls ttl ip rest =
     put16 (htons ident) @ flags @ put16 (htons 1) @ put16 (htons 1) @ replicate 4 0 @ wire_labels ls @ 0 # [0, 1, 0, 1] @
     [0xC0, 0x0C, 0, 1, 0, 1] @ ttl @ [0, 4] @ ip @ rest"

lemma be16_bytes:
  assumes "length xs = p"
  shows "be16 (xs @ a # b # ys) p = push_bit 8 (ucast a) OR ucast b"
  using assms by (simp add: be16_def nth_append)

lemma parse_one_answer:
  assumes "length pre = p" and "length ttl = 4"
  shows "parse_answers (pre @ [0xC0, 0x0C, 0, 1, 0, 1] @ ttl @ [0, 4] @ [a, b, c, d] @ rest) p (Suc n) =
    Some (IP_ADDR (ucast a) (ucast b) (ucast c) (ucast d))"
proof -
  obtain t0 t1 t2 t3 where ttl: "ttl = [t0, t1, t2, t3]"
    using assms(2) by (auto simp: length_Suc_conv eval_nat_numeral)
  have skip: "skip_name (pre @ [0xC0, 0x0C, 0, 1, 0, 1] @ ttl @ [0, 4] @ [a, b, c, d] @ rest) p = p + 2"
    using assms(1) by (simp add: skip_name_def nth_append)
  show ?thesis
    using assms(1) skip by (simp add: Let_def ttl be16_def nth_append DNS_TYPE_A_def)
qed

section \<open>Properties\<close>



text \<open>A name of 496 characters in eight labels: its encoding has 498 bytes.\<close>

definition long_name :: "bytes list" where
  "long_name = replicate 7 (replicate 63 97) @ [replicate 48 97]"


end
