(* ===== verification/Tcp.thy ===== *)
theory Tcp
  imports Ipv4
begin

text \<open>
  The transmission control protocol, \<^verbatim>\<open>kernel/net/tcp.c\<close>: sockets with their circular receive
  buffer, segments, the connection states, and the operations of the user side.  A pointer to a
  socket is its index in \<open>tcp_sockets\<close>.
\<close>

section \<open>Sockets\<close>

definition TCP_FLAG_FIN :: u8 where "TCP_FLAG_FIN = 0x01"
definition TCP_FLAG_SYN :: u8 where "TCP_FLAG_SYN = 0x02"
definition TCP_FLAG_RST :: u8 where "TCP_FLAG_RST = 0x04"
definition TCP_FLAG_PSH :: u8 where "TCP_FLAG_PSH = 0x08"
definition TCP_FLAG_ACK :: u8 where "TCP_FLAG_ACK = 0x10"
definition TCP_RX_BUF_SIZE :: nat where "TCP_RX_BUF_SIZE = 16384"
definition TCP_MAX_SOCKETS :: nat where "TCP_MAX_SOCKETS = 16"
definition TCP_DEFAULT_MSS :: nat where "TCP_DEFAULT_MSS = 1460"

abbreviation sock :: "'a net_scheme \<Rightarrow> nat \<Rightarrow> tcp_socket" where
  "sock w i \<equiv> tcp_sockets w ! i"

definition set_sock :: "nat \<Rightarrow> tcp_socket \<Rightarrow> 'a net_scheme \<Rightarrow> 'a net_scheme" where
  "set_sock i s w = w\<lparr>tcp_sockets := (tcp_sockets w)[i := s]\<rparr>"

definition tcp_socket_zero :: tcp_socket where
  "tcp_socket_zero = \<lparr>ts_id = 0, ts_in_use = False, ts_state = TCP_CLOSED, ts_local_ip = 0, ts_local_port = 0, ts_remote_ip = 0,
     ts_remote_port = 0, ts_seq = 0, ts_ack = 0, ts_remote_window = 0, rx_buf = replicate TCP_RX_BUF_SIZE 0, rx_head = 0,
     rx_tail = 0, rx_len = 0, ts_last_activity = 0\<rparr>"

definition tcp_init :: "'a net_scheme \<Rightarrow> 'a net_scheme" where
  "tcp_init w = w\<lparr>tcp_sockets := map (\<lambda>i. tcp_socket_zero\<lparr>ts_id := int i, ts_in_use := False, ts_state := TCP_CLOSED\<rparr>) [0..<TCP_MAX_SOCKETS]\<rparr>"

definition tcp_socket_create :: "'a net_scheme \<Rightarrow> 'a net_scheme \<times> nat option" where
  "tcp_socket_create w =
     (case scan (\<lambda>s. \<not> ts_in_use s) (tcp_sockets w) of
        None \<Rightarrow> (w, None)
      | Some i \<Rightarrow>
          let s = tcp_socket_zero\<lparr>ts_id := int i, ts_in_use := True, ts_state := TCP_CLOSED, ts_local_ip := local_ip (cfg w),
                ts_local_port := ephemeral_port_counter w, ts_remote_window := of_nat TCP_RX_BUF_SIZE\<rparr>;
              port = ephemeral_port_counter w + 1
          in (set_sock i s (w\<lparr>ephemeral_port_counter := if 65000 < port then 49152 else port\<rparr>), Some i))"

definition sock_matches :: "u16 \<Rightarrow> u32 \<Rightarrow> u16 \<Rightarrow> tcp_socket \<Rightarrow> bool" where
  "sock_matches local_port remote_ip remote_port s \<longleftrightarrow> ts_in_use s \<and> ts_local_port s = local_port \<and>
     (ts_remote_ip s = 0 \<or> ts_remote_ip s = remote_ip \<and> ts_remote_port s = remote_port)"

definition tcp_find_socket :: "'a net_scheme \<Rightarrow> u16 \<Rightarrow> u32 \<Rightarrow> u16 \<Rightarrow> nat option" where
  "tcp_find_socket w local_port remote_ip remote_port = scan (sock_matches local_port remote_ip remote_port) (tcp_sockets w)"

section \<open>Segments\<close>

definition tcp_compute_checksum :: "u32 \<Rightarrow> u32 \<Rightarrow> bytes \<Rightarrow> u16" where
  "tcp_compute_checksum src_ip dst_ip seg =
     (if 2048 + 12 < length seg + 12 then 0
      else net_checksum (put32 src_ip @ put32 dst_ip @ [0, IP_PROTO_TCP] @ put16 (htons (of_nat (length seg))) @ seg))"

definition tcp_hdr :: "tcp_socket \<Rightarrow> u8 \<Rightarrow> u16 \<Rightarrow> bytes" where
  "tcp_hdr s flags checksum =
     put16 (htons (ts_local_port s)) @ put16 (htons (ts_remote_port s)) @ put32 (htonl (ts_seq s)) @ put32 (htonl (ts_ack s)) @
     [push_bit 4 5, flags] @ put16 (htons (of_nat (TCP_RX_BUF_SIZE - rx_len s))) @ put16 checksum @ put16 0"

definition tcp_segment :: "tcp_socket \<Rightarrow> u8 \<Rightarrow> bytes \<Rightarrow> bytes" where
  "tcp_segment s flags payload =
     tcp_hdr s flags (tcp_compute_checksum (ts_local_ip s) (ts_remote_ip s) (tcp_hdr s flags 0 @ payload)) @ payload"

text \<open>After sending, the sequence number moves over the data and over a SYN or FIN.\<close>

definition tcp_send_segment :: "('a net_scheme \<Rightarrow> 'a net_scheme option) \<Rightarrow> 'a net_scheme \<Rightarrow> nat \<Rightarrow> u8 \<Rightarrow> bytes \<Rightarrow>
    ('a net_scheme \<times> int) option" where
  "tcp_send_segment poll w i flags payload =
     (if 2048 < 20 + length payload then Some (w, - 1)
      else do {
        (w, res) \<leftarrow> ipv4_send poll w (ts_remote_ip (sock w i)) IP_PROTO_TCP (tcp_segment (sock w i) flags payload);
        if 0 \<le> res then
          let s = sock w i;
              s = (if flags AND (TCP_FLAG_SYN OR TCP_FLAG_FIN) \<noteq> 0 then s\<lparr>ts_seq := ts_seq s + 1\<rparr> else s)
          in Some (set_sock i (s\<lparr>ts_seq := ts_seq s + of_nat (length payload)\<rparr>) w, res)
        else Some (w, res)
      })"

section \<open>Receiving\<close>

definition rx_push :: "u8 \<Rightarrow> tcp_socket \<Rightarrow> tcp_socket" where
  "rx_push b s =
     (if rx_len s < TCP_RX_BUF_SIZE then
        s\<lparr>rx_buf := (rx_buf s)[rx_tail s := b], rx_tail := (rx_tail s + 1) mod TCP_RX_BUF_SIZE, rx_len := rx_len s + 1\<rparr>
      else s)"

definition tcp_data :: "('a net_scheme \<Rightarrow> 'a net_scheme option) \<Rightarrow> 'a net_scheme \<Rightarrow> nat \<Rightarrow> u32 \<Rightarrow> bytes \<Rightarrow> 'a net_scheme option" where
  "tcp_data poll w i sq data =
     (if data = [] then Some w
      else
        let s = fold rx_push data (sock w i)
        in map_option fst (tcp_send_segment poll (set_sock i (s\<lparr>ts_ack := sq + of_nat (length data)\<rparr>) w) i TCP_FLAG_ACK []))"

definition tcp_move :: "('a net_scheme \<Rightarrow> 'a net_scheme option) \<Rightarrow> 'a net_scheme \<Rightarrow> nat \<Rightarrow> u32 \<Rightarrow> tcp_state \<Rightarrow> 'a net_scheme option" where
  "tcp_move poll w i ack st =
     map_option fst (tcp_send_segment poll (set_sock i ((sock w i)\<lparr>ts_ack := ack, ts_state := st\<rparr>) w) i TCP_FLAG_ACK [])"

definition tcp_input :: "('a net_scheme \<Rightarrow> 'a net_scheme option) \<Rightarrow> 'a net_scheme \<Rightarrow> nat \<Rightarrow> u8 \<Rightarrow> u32 \<Rightarrow> bytes \<Rightarrow> 'a net_scheme option" where
  "tcp_input poll w i flags sq data =
     (let fin = flags AND TCP_FLAG_FIN \<noteq> 0; ack = flags AND TCP_FLAG_ACK \<noteq> 0 in
      if flags AND TCP_FLAG_RST \<noteq> 0 then Some (set_sock i ((sock w i)\<lparr>ts_state := TCP_CLOSED\<rparr>) w)
      else (case ts_state (sock w i) of
          TCP_SYN_SENT \<Rightarrow>
            if flags AND (TCP_FLAG_SYN OR TCP_FLAG_ACK) = TCP_FLAG_SYN OR TCP_FLAG_ACK
            then tcp_move poll w i (sq + 1) TCP_ESTABLISHED else Some w
        | TCP_ESTABLISHED \<Rightarrow> do {
            w \<leftarrow> tcp_data poll w i sq data;
            if fin then tcp_move poll w i (sq + (if data \<noteq> [] then of_nat (length data) else 1)) TCP_CLOSE_WAIT else Some w
          }
        | TCP_FIN_WAIT_1 \<Rightarrow>
            if ack then
              if fin then tcp_move poll w i (sq + 1) TCP_TIME_WAIT
              else Some (set_sock i ((sock w i)\<lparr>ts_state := TCP_FIN_WAIT_2\<rparr>) w)
            else Some w
        | TCP_FIN_WAIT_2 \<Rightarrow> if fin then tcp_move poll w i (sq + 1) TCP_TIME_WAIT else Some w
        | TCP_LAST_ACK \<Rightarrow> if ack then Some (set_sock i ((sock w i)\<lparr>ts_state := TCP_CLOSED\<rparr>) w) else Some w
        | _ \<Rightarrow> Some w))"

definition tcp_receive :: "('a net_scheme \<Rightarrow> 'a net_scheme option) \<Rightarrow> 'a net_scheme \<Rightarrow> u32 \<Rightarrow> bytes \<Rightarrow> 'a net_scheme option" where
  "tcp_receive poll w src_ip p =
     (if length p < 20 then Some w
      else do {
        sp \<leftarrow> rd16 p 0;
        dp \<leftarrow> rd16 p 2;
        sq \<leftarrow> rd32 p 4;
        off \<leftarrow> at_idx p 12;
        flags \<leftarrow> at_idx p 13;
        let header_len = unat (drop_bit 4 off) * 4 in
        if header_len < 20 \<or> length p < header_len then Some w
        else (case tcp_find_socket w (ntohs dp) src_ip (ntohs sp) of
            None \<Rightarrow> Some w
          | Some i \<Rightarrow> do {
              data \<leftarrow> slice p header_len (length p - header_len);
              tcp_input poll w i flags (ntohl sq) data
            })
      })"

section \<open>The user side\<close>

definition tcp_connect :: "('a net_scheme \<Rightarrow> 'a net_scheme option) \<Rightarrow> (nat \<Rightarrow> u64) \<Rightarrow> nat \<Rightarrow> 'a net_scheme \<Rightarrow> nat \<Rightarrow> u32 \<Rightarrow> u16 \<Rightarrow> u32 \<Rightarrow>
    ('a net_scheme \<times> int) option" where
  "tcp_connect poll tsc rounds w i dst_ip dst_port timeout_ms =
     (let (w, now) = rdtsc_now tsc w;
          w = set_sock i ((sock w i)\<lparr>ts_remote_ip := dst_ip, ts_remote_port := dst_port, ts_seq := 1000 + ucast (now AND 0xFFFF),
            ts_ack := 0, ts_state := TCP_SYN_SENT\<rparr>) w
      in do {
        (w, r) \<leftarrow> tcp_send_segment poll w i TCP_FLAG_SYN [];
        if r < 0 then Some (set_sock i ((sock w i)\<lparr>ts_state := TCP_CLOSED\<rparr>) w, - 1)
        else
          let (w, start) = rdtsc_now tsc w in do {
            (w, left) \<leftarrow> poll_while poll tsc start (\<lambda>t. t \<le> timeout_cycles timeout_ms)
              (\<lambda>w. ts_state (sock w i) = TCP_ESTABLISHED \<or> ts_state (sock w i) = TCP_CLOSED) rounds w;
            if left then Some (w, if ts_state (sock w i) = TCP_ESTABLISHED then 0 else - 1)
            else Some (set_sock i ((sock w i)\<lparr>ts_state := TCP_CLOSED\<rparr>) w, - 1)
          }
      })"

function tcp_send_loop :: "('a net_scheme \<Rightarrow> 'a net_scheme option) \<Rightarrow> 'a net_scheme \<Rightarrow> nat \<Rightarrow> bytes \<Rightarrow> ('a net_scheme \<times> bool) option" where
  "tcp_send_loop poll w i data =
     (if data = [] then Some (w, True)
      else do {
        (w, r) \<leftarrow> tcp_send_segment poll w i (TCP_FLAG_ACK OR TCP_FLAG_PSH) (take TCP_DEFAULT_MSS data);
        if r < 0 then Some (w, False)
        else do {
          w \<leftarrow> poll w;
          tcp_send_loop poll w i (drop TCP_DEFAULT_MSS data)
        }
      })"
  by pat_completeness auto
termination by (relation "measure (\<lambda>(poll, w, i, data). length data)") (auto simp: TCP_DEFAULT_MSS_def)

declare tcp_send_loop.simps [simp del]

definition tcp_send :: "('a net_scheme \<Rightarrow> 'a net_scheme option) \<Rightarrow> 'a net_scheme \<Rightarrow> nat \<Rightarrow> bytes \<Rightarrow> ('a net_scheme \<times> int) option" where
  "tcp_send poll w i data =
     (if data = [] then Some (w, 0)
      else if ts_state (sock w i) \<noteq> TCP_ESTABLISHED \<and> ts_state (sock w i) \<noteq> TCP_CLOSE_WAIT then Some (w, - 1)
      else do {
        (w, ok) \<leftarrow> tcp_send_loop poll w i data;
        Some (w, if ok then int (length data) else - 1)
      })"

fun rx_pop :: "nat \<Rightarrow> tcp_socket \<Rightarrow> bytes \<times> tcp_socket" where
  "rx_pop 0 s = ([], s)"
| "rx_pop (Suc n) s =
     (case rx_pop n (s\<lparr>rx_head := (rx_head s + 1) mod TCP_RX_BUF_SIZE\<rparr>) of (bs, s') \<Rightarrow> (rx_buf s ! rx_head s # bs, s'))"

text \<open>The bytes stored in the caller's buffer; their number is the result.\<close>

definition tcp_recv :: "('a net_scheme \<Rightarrow> 'a net_scheme option) \<Rightarrow> (nat \<Rightarrow> u64) \<Rightarrow> nat \<Rightarrow> 'a net_scheme \<Rightarrow> nat \<Rightarrow> nat \<Rightarrow>
    ('a net_scheme \<times> bytes) option" where
  "tcp_recv poll tsc rounds w i len =
     (if len = 0 then Some (w, [])
      else do {
        w \<leftarrow> (if rx_len (sock w i) = 0 \<and> ts_state (sock w i) = TCP_ESTABLISHED then
              let (w, start) = rdtsc_now tsc w
              in map_option fst (poll_while poll tsc start (\<lambda>t. t < 2000 * TSC_PER_MS)
                (\<lambda>w. 0 < rx_len (sock w i) \<or> ts_state (sock w i) \<noteq> TCP_ESTABLISHED) rounds w)
            else Some w);
        let to_copy = min len (rx_len (sock w i)); (bs, s) = rx_pop to_copy (sock w i)
        in Some (set_sock i (s\<lparr>rx_len := rx_len s - to_copy\<rparr>) w, bs)
      })"

definition tcp_linger :: "('a net_scheme \<Rightarrow> 'a net_scheme option) \<Rightarrow> (nat \<Rightarrow> u64) \<Rightarrow> nat \<Rightarrow> 'a net_scheme \<Rightarrow> nat \<Rightarrow> tcp_state \<Rightarrow>
    tcp_state set \<Rightarrow> 'a net_scheme option" where
  "tcp_linger poll tsc rounds w i st ends = do {
     (w, r) \<leftarrow> tcp_send_segment poll (set_sock i ((sock w i)\<lparr>ts_state := st\<rparr>) w) i (TCP_FLAG_FIN OR TCP_FLAG_ACK) [];
     let (w, start) = rdtsc_now tsc w
     in map_option fst (poll_while poll tsc start (\<lambda>t. t < 500 * TSC_PER_MS) (\<lambda>w. ts_state (sock w i) \<in> ends) rounds w)
   }"

definition tcp_close :: "('a net_scheme \<Rightarrow> 'a net_scheme option) \<Rightarrow> (nat \<Rightarrow> u64) \<Rightarrow> nat \<Rightarrow> 'a net_scheme \<Rightarrow> nat \<Rightarrow>
    ('a net_scheme \<times> int) option" where
  "tcp_close poll tsc rounds w i =
     (if \<not> ts_in_use (sock w i) then Some (w, 0)
      else do {
        w \<leftarrow> (if ts_state (sock w i) = TCP_ESTABLISHED then tcp_linger poll tsc rounds w i TCP_FIN_WAIT_1 {TCP_CLOSED, TCP_TIME_WAIT}
              else if ts_state (sock w i) = TCP_CLOSE_WAIT then tcp_linger poll tsc rounds w i TCP_LAST_ACK {TCP_CLOSED}
              else Some w);
        Some (set_sock i ((sock w i)\<lparr>ts_state := TCP_CLOSED, ts_in_use := False\<rparr>) w, 0)
      })"

end
