(* ===== verification/NetStack.thy ===== *)
theory NetStack
  imports Dns Tcp
begin

text \<open>
  Input of the network stack: IPv4 (\<^verbatim>\<open>kernel/net/ipv4.c\<close>) and Ethernet
  (\<^verbatim>\<open>kernel/net/ethernet.c\<close>) dispatch, initialisation and \<open>net_poll\<close> (\<^verbatim>\<open>kernel/net/net.c\<close>), which closes the
  recursion between sending (resolution polls the card) and receiving (packets are answered).

  The argument of \<open>net_poll\<close> bounds how deep these calls nest.  Every nested call has taken a
  packet from the card, so one more than the number of arrivals is always enough.
\<close>

section \<open>Input\<close>

definition ip_dispatch :: "('a net_scheme \<Rightarrow> 'a net_scheme option) \<Rightarrow> 'a net_scheme \<Rightarrow> u8 \<Rightarrow> u32 \<Rightarrow> bytes \<Rightarrow> 'a net_scheme option" where
  "ip_dispatch poll w protocol src_ip data =
     (if protocol = IP_PROTO_ICMP then icmp_receive poll w src_ip data
      else if protocol = IP_PROTO_UDP then udp_receive udp_callbacks w src_ip data
      else if protocol = IP_PROTO_TCP then tcp_receive poll w src_ip data
      else Some w)"

definition ipv4_receive :: "('a net_scheme \<Rightarrow> 'a net_scheme option) \<Rightarrow> 'a net_scheme \<Rightarrow> bytes \<Rightarrow> 'a net_scheme option" where
  "ipv4_receive poll w p =
     (if length p < 20 then Some w
      else do {
        vi \<leftarrow> at_idx p 0;
        let ihl = unat (vi AND 0x0F) * 4 in
        if drop_bit 4 vi \<noteq> 4 then Some w
        else if ihl < 20 \<or> length p < ihl then Some w
        else do {
          hdr \<leftarrow> slice p 0 ihl;
          if net_checksum hdr \<noteq> 0 then Some w
          else do {
            dst \<leftarrow> rd32 p 16;
            if dst \<noteq> local_ip (cfg w) \<and> dst \<noteq> 0xFFFFFFFF then Some w
            else do {
              protocol \<leftarrow> at_idx p 9;
              src \<leftarrow> rd32 p 12;
              data \<leftarrow> slice p ihl (length p - ihl);
              ip_dispatch poll w protocol src data
            }
          }
        }
      })"

definition ethernet_receive :: "('a net_scheme \<Rightarrow> 'a net_scheme option) \<Rightarrow> 'a net_scheme \<Rightarrow> bytes \<Rightarrow> 'a net_scheme option" where
  "ethernet_receive poll w packet =
     (if length packet < ETH_HLEN then Some w
      else do {
        ty \<leftarrow> rd16 packet 12;
        payload \<leftarrow> slice packet ETH_HLEN (length packet - ETH_HLEN);
        if ntohs ty = ETHERTYPE_ARP then arp_handle_packet w payload
        else if ntohs ty = ETHERTYPE_IPV4 then ipv4_receive poll w payload
        else Some w
      })"

fun net_poll :: "nat \<Rightarrow> 'a net_scheme \<Rightarrow> 'a net_scheme option" where
  "net_poll 0 w = None"
| "net_poll (Suc n) w =
     (if \<not> net_present w then Some w
      else
        case card_poll w 2048 of
          (w, p) \<Rightarrow> if p = [] then Some w else ethernet_receive (net_poll n) w p)"

definition net_init :: "'a net_scheme \<Rightarrow> 'a net_scheme" where
  "net_init w =
     (let mac = (if net_present w then net_mac w else [0x52, 0x54, 0x00, 0x12, 0x34, 0x56]);
          w = w\<lparr>cfg := \<lparr>local_ip = DEFAULT_LOCAL_IP, gateway_ip = DEFAULT_GATEWAY_IP, netmask = DEFAULT_NETMASK,
            dns_ip = DEFAULT_DNS_IP, cfg_mac = mac\<rparr>\<rparr>
      in tcp_init (arp_init w))"

section \<open>Well-formed states\<close>

definition sock_ok :: "tcp_socket \<Rightarrow> bool" where
  "sock_ok s \<longleftrightarrow> length (rx_buf s) = TCP_RX_BUF_SIZE \<and> rx_head s < TCP_RX_BUF_SIZE \<and> rx_len s \<le> TCP_RX_BUF_SIZE \<and>
     rx_tail s = (rx_head s + rx_len s) mod TCP_RX_BUF_SIZE"

definition net_ok :: "'a net_scheme \<Rightarrow> bool" where
  "net_ok w \<longleftrightarrow> length (cfg_mac (cfg w)) = 6 \<and>
     length (arp_cache w) = ARP_CACHE_SIZE \<and> (\<forall>e \<in> set (arp_cache w). length (ae_mac e) = 6) \<and>
     length (ipv4_tx_buffer w) = 2048 \<and> length (udp_bindings w) = MAX_UDP_PORTS \<and>
     length (tcp_sockets w) = TCP_MAX_SOCKETS \<and> (\<forall>s \<in> set (tcp_sockets w). sock_ok s)"

text \<open>The bytes that wait in the receive buffer, oldest first.\<close>

definition stream :: "tcp_socket \<Rightarrow> bytes" where
  "stream s = map (\<lambda>j. rx_buf s ! ((rx_head s + j) mod TCP_RX_BUF_SIZE)) [0..<rx_len s]"

text \<open>The moves a received segment may cause.\<close>

inductive tcp_edge :: "tcp_state \<Rightarrow> tcp_state \<Rightarrow> bool" where
  edge_reset: "tcp_edge st TCP_CLOSED"
| edge_connected: "tcp_edge TCP_SYN_SENT TCP_ESTABLISHED"
| edge_closed: "tcp_edge TCP_ESTABLISHED TCP_CLOSE_WAIT"
| edge_acked: "tcp_edge TCP_FIN_WAIT_1 TCP_FIN_WAIT_2"
| edge_both: "tcp_edge TCP_FIN_WAIT_1 TCP_TIME_WAIT"
| edge_fin: "tcp_edge TCP_FIN_WAIT_2 TCP_TIME_WAIT"

inductive_cases tcp_edgeE: "tcp_edge st st'"

text \<open>What input may do to a socket: keep what identifies it, move along the diagram, append to the stream.\<close>

definition sock_grows :: "tcp_socket \<Rightarrow> tcp_socket \<Rightarrow> bool" where
  "sock_grows s s' \<longleftrightarrow> ts_in_use s' = ts_in_use s \<and> ts_local_port s' = ts_local_port s \<and> ts_remote_ip s' = ts_remote_ip s \<and>
     ts_remote_port s' = ts_remote_port s \<and> tcp_edge\<^sup>*\<^sup>* (ts_state s) (ts_state s') \<and>
     (sock_ok s \<longrightarrow> sock_ok s' \<and> prefix (stream s) (stream s'))"

definition evolves :: "'a net_scheme \<Rightarrow> 'a net_scheme \<Rightarrow> bool" where
  "evolves w w' \<longleftrightarrow> cfg w' = cfg w \<and> net_present w' = net_present w \<and> length (arrivals w') \<le> length (arrivals w) \<and>
     prefix (sent w) (sent w') \<and> list_all2 sock_grows (tcp_sockets w) (tcp_sockets w') \<and> (net_ok w \<longrightarrow> net_ok w')"

lemma sock_grows_refl [simp]: "sock_grows s s"
  by (simp add: sock_grows_def)

lemma sock_grows_trans: "sock_grows s s1 \<Longrightarrow> sock_grows s1 s2 \<Longrightarrow> sock_grows s s2"
  unfolding sock_grows_def by (metis prefix_order.order_trans rtranclp_trans)

lemma evolves_refl [simp]: "evolves w w"
  by (simp add: evolves_def list.rel_refl)

lemma evolves_trans [trans]: "evolves w w1 \<Longrightarrow> evolves w1 w2 \<Longrightarrow> evolves w w2"
  unfolding evolves_def
  using list_all2_trans [of sock_grows sock_grows sock_grows, OF sock_grows_trans] by (fastforce intro: prefix_order.order_trans)

section \<open>The receive buffer is a queue\<close>

lemma mod_add_inj:
  fixes h i j n :: nat
  assumes "i < n" and "j < n" and "(h + i) mod n = (h + j) mod n"
  shows "i = j"
proof -
  have "n dvd (h + j) - (h + i)" if "i \<le> j"
    using assms(3) that by (subst mod_eq_dvd_iff_nat [symmetric]) simp_all
  moreover have "n dvd (h + i) - (h + j)" if "j \<le> i"
    using assms(3) that by (subst mod_eq_dvd_iff_nat [symmetric]) simp_all
  ultimately show ?thesis
    using assms(1, 2) dvd_imp_le [of n "j - i"] dvd_imp_le [of n "i - j"] by (cases i j rule: linorder_cases) auto
qed

lemma stream_push:
  assumes "sock_ok s"
  shows "sock_ok (rx_push b s)" "stream (rx_push b s) = (if rx_len s < TCP_RX_BUF_SIZE then stream s @ [b] else stream s)"
proof -
  have pos: "0 < TCP_RX_BUF_SIZE" by (simp add: TCP_RX_BUF_SIZE_def)
  show "sock_ok (rx_push b s)"
    using assms pos by (auto simp: sock_ok_def rx_push_def mod_Suc_eq)
  show "stream (rx_push b s) = (if rx_len s < TCP_RX_BUF_SIZE then stream s @ [b] else stream s)"
  proof (cases "rx_len s < TCP_RX_BUF_SIZE")
    case True
    have "rx_tail s \<noteq> (rx_head s + j) mod TCP_RX_BUF_SIZE" if "j < rx_len s" for j
      using assms True that mod_add_inj [of "rx_len s" TCP_RX_BUF_SIZE j "rx_head s"] by (auto simp: sock_ok_def)
    then show ?thesis
      using True assms pos by (simp add: stream_def rx_push_def sock_ok_def)
  qed (simp add: rx_push_def)
qed

lemma push_fields [simp]:
  "ts_in_use (rx_push b s) = ts_in_use s" "ts_local_port (rx_push b s) = ts_local_port s" "ts_remote_ip (rx_push b s) = ts_remote_ip s"
  "ts_remote_port (rx_push b s) = ts_remote_port s" "ts_state (rx_push b s) = ts_state s" "ts_seq (rx_push b s) = ts_seq s"
  "ts_local_ip (rx_push b s) = ts_local_ip s"
  by (simp_all add: rx_push_def)

lemma stream_length [simp]: "length (stream s) = rx_len s"
  by (simp add: stream_def)

text \<open>The loop over the data appends what fits.\<close>

lemma fold_push:
  assumes "sock_ok s"
  shows "sock_ok (fold rx_push bs s) \<and> stream (fold rx_push bs s) = stream s @ take (TCP_RX_BUF_SIZE - rx_len s) bs"
  using assms
proof (induction bs arbitrary: s)
  case (Cons b bs)
  have len: "rx_len (rx_push b s) = (if rx_len s < TCP_RX_BUF_SIZE then rx_len s + 1 else rx_len s)"
    by (simp add: rx_push_def)
  note IH = Cons.IH [OF stream_push(1) [OF Cons.prems, of b]]
  show ?case
  proof (cases "rx_len s < TCP_RX_BUF_SIZE")
    case True
    then have "TCP_RX_BUF_SIZE - rx_len s = Suc (TCP_RX_BUF_SIZE - Suc (rx_len s))"
      by simp
    then show ?thesis
      using IH stream_push(2) [OF Cons.prems, of b] len True by simp
  qed (use IH len stream_push(2) [OF Cons.prems, of b] in simp)
qed simp

lemma fold_push_fields [simp]:
  "ts_in_use (fold rx_push bs s) = ts_in_use s" "ts_local_port (fold rx_push bs s) = ts_local_port s"
  "ts_remote_ip (fold rx_push bs s) = ts_remote_ip s" "ts_remote_port (fold rx_push bs s) = ts_remote_port s"
  "ts_state (fold rx_push bs s) = ts_state s" "ts_seq (fold rx_push bs s) = ts_seq s" "ts_local_ip (fold rx_push bs s) = ts_local_ip s"
  by (induction bs arbitrary: s) simp_all

text \<open>The loop that reads takes the oldest bytes.\<close>

lemma rx_pop_eq:
  "rx_pop n s = (map (\<lambda>j. rx_buf s ! ((rx_head s + j) mod TCP_RX_BUF_SIZE)) [0..<n],
     s\<lparr>rx_head := (rx_head s + n) mod TCP_RX_BUF_SIZE\<rparr>)" if "rx_head s < TCP_RX_BUF_SIZE"
  using that
proof (induction n arbitrary: s)
  case (Suc n)
  let ?s = "s\<lparr>rx_head := (rx_head s + 1) mod TCP_RX_BUF_SIZE\<rparr>"
  have "rx_head ?s < TCP_RX_BUF_SIZE"
    using Suc.prems by simp
  from Suc.IH [OF this] show ?case
    using Suc.prems by (simp add: mod_simps map_upt_Suc del: upt_Suc)
qed simp

lemma rx_pop_stream:
  assumes "sock_ok s" and "n \<le> rx_len s"
  shows "fst (rx_pop n s) = take n (stream s)"
    "sock_ok ((snd (rx_pop n s))\<lparr>rx_len := rx_len s - n\<rparr>)"
    "stream ((snd (rx_pop n s))\<lparr>rx_len := rx_len s - n\<rparr>) = drop n (stream s)"
proof -
  have h: "rx_head s < TCP_RX_BUF_SIZE"
    using assms(1) by (simp add: sock_ok_def)
  show "fst (rx_pop n s) = take n (stream s)"
    using assms(2) by (simp add: rx_pop_eq [OF h] stream_def take_map)
  show "sock_ok ((snd (rx_pop n s))\<lparr>rx_len := rx_len s - n\<rparr>)"
  proof -
    obtain m where "rx_len s = n + m"
      using assms(2) le_Suc_ex by blast
    then show ?thesis
      using assms(1) by (simp add: rx_pop_eq [OF h] sock_ok_def mod_simps add.assoc)
  qed
  show "stream ((snd (rx_pop n s))\<lparr>rx_len := rx_len s - n\<rparr>) = drop n (stream s)"
    using assms(2) by (intro nth_equalityI) (simp_all add: rx_pop_eq [OF h] stream_def mod_simps add.assoc less_diff_conv)
qed

section \<open>Steps that keep the state well formed\<close>

named_theorems evolve_intros \<open>updates along which the state evolves\<close>

lemma card_send_evolves [evolve_intros]: "evolves w (fst (card_send w data))"
  by (auto simp: card_send_def evolves_def net_ok_def list.rel_refl)

lemma ethernet_send_evolves [evolve_intros]: "evolves w (fst (ethernet_send w mac ty payload))"
  by (simp add: ethernet_send_def card_send_evolves)

lemma arp_request_evolves [evolve_intros]: "evolves w (arp_request w ip)"
  by (simp add: arp_request_def ethernet_send_evolves)

lemma net_ok_cache:
  assumes "net_ok w" and "set c \<subseteq> insert e (set (arp_cache w))" and "length (ae_mac e) = 6" and "length c = length (arp_cache w)"
  shows "net_ok (w\<lparr>arp_cache := c\<rparr>)"
  using assms by (auto simp: net_ok_def)

lemma arp_insert_evolves [evolve_intros]:
  assumes "length mac = 6"
  shows "evolves w (arp_insert_cache w ip mac)"
proof -
  have cache: "evolves w (w\<lparr>arp_cache := (arp_cache w)[i := e]\<rparr>)" if "length (ae_mac e) = 6" for i e
    using that net_ok_cache [of w "(arp_cache w)[i := e]" e, OF _ set_update_subset_insert]
    by (auto simp: evolves_def list.rel_refl)
  show ?thesis
    using assms by (auto simp: arp_insert_cache_def Let_def intro: cache split: option.split)
qed

lemma length_ipv4_packet [simp]: "length (ipv4_packet w dst proto payload) = 20 + length payload"
  by (simp add: ipv4_packet_def ipv4_hdr_sum_def ipv4_hdr_def)

lemma ipv4_fill_evolves [evolve_intros]: "length pkt \<le> 2048 \<Longrightarrow> evolves w (ipv4_fill w pkt)"
  by (auto simp: ipv4_fill_def evolves_def net_ok_def list.rel_refl)

text \<open>An update of one socket after the state has evolved, judged from the start.\<close>

lemma sock_update_grows:
  assumes "sock_grows s s1" and "ts_in_use s' = ts_in_use s1" and "ts_local_port s' = ts_local_port s1" and "ts_remote_ip s' = ts_remote_ip s1"
    and "ts_remote_port s' = ts_remote_port s1" and "tcp_edge\<^sup>*\<^sup>* (ts_state s) (ts_state s')"
    and "sock_ok s1 \<Longrightarrow> sock_ok s' \<and> prefix (stream s1) (stream s')"
  shows "sock_grows s s'"
  using assms unfolding sock_grows_def by (metis prefix_order.order_trans)

lemma set_sock_evolves:
  assumes "evolves w w1" and "net_ok w" and "sock_grows (sock w i) s'" and "i < length (tcp_sockets w)"
  shows "evolves w (set_sock i s' w1)"
proof -
  have ok: "net_ok w1" and len: "length (tcp_sockets w1) = length (tcp_sockets w)"
    using assms(1, 2) by (auto simp: evolves_def dest: list_all2_lengthD)
  have "sock_ok s'"
    using assms(2-4) by (simp add: sock_grows_def net_ok_def)
  then have "net_ok (set_sock i s' w1)"
    using ok set_update_subset_insert [of "tcp_sockets w1" i s'] by (auto simp: net_ok_def set_sock_def)
  moreover have "list_all2 sock_grows (tcp_sockets w) ((tcp_sockets w1)[i := s'])"
    using assms(1, 3) list_all2_update_cong [of sock_grows "tcp_sockets w" "tcp_sockets w1" "sock w i" s' i]
    by (simp add: evolves_def)
  ultimately show ?thesis
    using assms(1) by (simp add: evolves_def set_sock_def net_ok_def)
qed

lemma stream_cong [simp]:
  "stream (s\<lparr>ts_state := st\<rparr>) = stream s" "stream (s\<lparr>ts_ack := a\<rparr>) = stream s" "stream (s\<lparr>ts_seq := q\<rparr>) = stream s"
  "sock_ok (s\<lparr>ts_state := st\<rparr>) = sock_ok s" "sock_ok (s\<lparr>ts_ack := a\<rparr>) = sock_ok s" "sock_ok (s\<lparr>ts_seq := q\<rparr>) = sock_ok s"
  by (simp_all add: stream_def sock_ok_def)

definition runs :: "'a net_scheme option \<Rightarrow> 'a net_scheme \<Rightarrow> bool" where
  "runs r w \<longleftrightarrow> (\<exists>w'. r = Some w' \<and> evolves w w')"

lemma runs_Some [simp]: "runs (Some w') w \<longleftrightarrow> evolves w w'"
  by (simp add: runs_def)

lemma runs_pair: "runs (map_option fst r) w \<longleftrightarrow> (\<exists>w' x. r = Some (w', x) \<and> evolves w w')"
  by (auto simp: runs_def)

lemma runs_trans: "runs r w1 \<Longrightarrow> evolves w w1 \<Longrightarrow> runs r w"
  unfolding runs_def using evolves_trans by blast

section \<open>The contract of polling\<close>

text \<open>
  What a layer needs of \<open>net_poll\<close>: on a well-formed state with fewer than \<open>n\<close> packets to come
  it returns, and the state has evolved.
\<close>

locale polling =
  fixes poll :: "'a net_scheme \<Rightarrow> 'a net_scheme option" and n :: nat
  assumes poll_law: "net_ok w \<Longrightarrow> length (arrivals w) < n \<Longrightarrow> runs (poll w) w"
begin

definition ready :: "'a net_scheme \<Rightarrow> bool" where
  "ready w \<longleftrightarrow> net_ok w \<and> length (arrivals w) < n"

lemma ready_evolves: "ready w \<Longrightarrow> evolves w w' \<Longrightarrow> ready w'"
  by (auto simp: ready_def evolves_def)

lemma poll_runs: "ready w \<Longrightarrow> runs (poll w) w"
  by (simp add: ready_def poll_law)

lemma arp_poll_loop_runs: "ready w \<Longrightarrow> runs (map_option fst (arp_poll_loop poll ip k w)) w"
proof (induction k arbitrary: w)
  case (Suc k)
  obtain w1 where w1: "poll w = Some w1" "evolves w w1"
    using poll_runs [OF Suc.prems] by (auto simp: runs_def)
  then have "runs (map_option fst (arp_poll_loop poll ip k w1)) w"
    using Suc.IH [OF ready_evolves [OF Suc.prems w1(2)]] runs_trans by blast
  then show ?case
    using w1 by (auto split: option.split)
qed simp

lemma arp_resolve_runs:
  assumes "ready w"
  shows "runs (map_option fst (arp_resolve poll w ip)) w"
proof -
  have req: "evolves w (arp_request w ip)"
    by (rule arp_request_evolves)
  have "runs (map_option fst (arp_poll_loop poll ip 1000 (arp_request w ip))) w"
    using arp_poll_loop_runs [OF ready_evolves [OF assms req]] req runs_trans by blast
  then show ?thesis
    by (auto simp: arp_resolve_def runs_pair split: option.split)
qed

lemma ipv4_send_runs:
  assumes "ready w"
  shows "runs (map_option fst (ipv4_send poll w dst proto payload)) w"
proof (cases "payload = [] \<or> 2048 < 20 + length payload")
  case False
  define w1 where "w1 = ipv4_fill w (ipv4_packet w dst proto payload)"
  have ev: "evolves w w1"
    unfolding w1_def by (rule ipv4_fill_evolves) (use False in simp)
  obtain w2 mac where w2: "arp_resolve poll w1 (next_hop (cfg w) dst) = Some (w2, mac)" "evolves w1 w2"
    using arp_resolve_runs [OF ready_evolves [OF assms ev], of "next_hop (cfg w) dst"] by (auto simp: runs_pair)
  have ev2: "evolves w w2"
    using ev w2(2) by (rule evolves_trans)
  then have "evolves w (fst (ethernet_send w2 m ty p))" for m ty p
    using ethernet_send_evolves evolves_trans by blast
  then show ?thesis
    using False w2(1) ev2 by (auto simp: ipv4_send_def w1_def split: option.split)
qed (simp add: ipv4_send_def)

end

section \<open>Every packet is handled\<close>

lemma ping_flag_evolves [evolve_intros]: "evolves w (w\<lparr>ping_reply_received := b\<rparr>)"
  by (simp add: evolves_def net_ok_def list.rel_refl)

lemma dns_result_evolves [evolve_intros]: "evolves w (w\<lparr>dns_result_ip := ip, dns_resolved := b\<rparr>)"
  by (simp add: evolves_def net_ok_def list.rel_refl)

lemma rd_total [simp]:
  "i + 2 \<le> length p \<Longrightarrow> rd16 p i = Some (get16 p i)" "i + 4 \<le> length p \<Longrightarrow> rd32 p i = Some (get32 p i)"
  "i + k \<le> length p \<Longrightarrow> slice p i k = Some (take k (drop i p))"
  by (simp_all add: rd16_def rd32_def slice_def)

lemma arp_handle_runs: "runs (arp_handle_packet w p) w"
proof (cases "length p < 28")
  case False
  have ins: "evolves w (arp_insert_cache w ip (take 6 (drop 8 p)))" for ip
    using False by (intro arp_insert_evolves) simp
  then have "evolves w (fst (ethernet_send (arp_insert_cache w ip (take 6 (drop 8 p))) m ty q))" for ip m ty q
    using evolves_trans ethernet_send_evolves by blast
  with ins show ?thesis
    using False by (simp add: arp_handle_packet_def Let_def)
qed (simp add: arp_handle_packet_def)

lemma dns_callback_runs: "runs (udp_callbacks f w ip port d) w"
  by (auto simp: udp_callbacks_def dns_udp_callback_def Let_def dns_result_evolves split: option.split)

lemma udp_receive_runs: "runs (udp_receive udp_callbacks w ip p) w"
  by (auto simp: udp_receive_def Let_def dns_callback_runs split: option.split)

lemma at_idx_0 [simp]: "p \<noteq> [] \<Longrightarrow> at_idx p 0 = Some (p ! 0)"
  by (simp add: at_idx_def)

lemma scan_index: "scan P xs = Some i \<Longrightarrow> i < length xs"
  by (simp add: scan_Some_iff)

context polling
begin

lemma icmp_receive_runs: "ready w \<Longrightarrow> runs (icmp_receive poll w ip p) w"
  using ipv4_send_runs [of w ip IP_PROTO_ICMP "echo_reply (take 128 p)"]
  by (cases "p = []") (auto simp: icmp_receive_def ping_flag_evolves)

lemma tcp_send_segment_runs:
  assumes "ready w" and "i < length (tcp_sockets w)"
  shows "runs (map_option fst (tcp_send_segment poll w i flags payload)) w"
proof (cases "2048 < 20 + length payload")
  case False
  obtain w1 r where w1: "ipv4_send poll w (ts_remote_ip (sock w i)) IP_PROTO_TCP (tcp_segment (sock w i) flags payload) = Some (w1, r)"
      "evolves w w1"
    using ipv4_send_runs [OF assms(1)] by (fastforce simp: runs_pair)
  have "sock_grows (sock w i) (sock w1 i)"
    using w1(2) assms(2) by (auto simp: evolves_def dest: list_all2_nthD)
  then have "evolves w (set_sock i ((sock w1 i)\<lparr>ts_seq := q\<rparr>) w1)" for q
    using assms w1(2) by (intro set_sock_evolves) (auto simp: ready_def sock_grows_def)
  then show ?thesis
    using False w1 by (simp add: tcp_send_segment_def Let_def)
qed (simp add: tcp_send_segment_def)

text \<open>A step of the state machine: set state and acknowledgement, then acknowledge.\<close>

lemma tcp_move_runs:
  assumes "ready w" and "evolves w w1" and "i < length (tcp_sockets w)" and "tcp_edge\<^sup>*\<^sup>* (ts_state (sock w i)) st"
  shows "runs (tcp_move poll w1 i ack st) w"
proof -
  have "sock_grows (sock w i) (sock w1 i)"
    using assms(2, 3) by (auto simp: evolves_def dest: list_all2_nthD)
  then have "sock_grows (sock w i) ((sock w1 i)\<lparr>ts_ack := ack, ts_state := st\<rparr>)"
    by (rule sock_update_grows) (use assms(4) in simp_all)
  then have ev: "evolves w (set_sock i ((sock w1 i)\<lparr>ts_ack := ack, ts_state := st\<rparr>) w1)"
    using assms(1-3) by (intro set_sock_evolves) (simp_all add: ready_def)
  then have "i < length (tcp_sockets (set_sock i ((sock w1 i)\<lparr>ts_ack := ack, ts_state := st\<rparr>) w1))"
    using assms(3) by (auto simp: evolves_def dest: list_all2_lengthD)
  from tcp_send_segment_runs [OF ready_evolves [OF assms(1) ev] this] ev show ?thesis
    unfolding tcp_move_def by (rule runs_trans)
qed

lemma tcp_data_runs:
  assumes "ready w" and "i < length (tcp_sockets w)"
  shows "runs (tcp_data poll w i sq data) w"
proof -
  define s where "s = (fold rx_push data (sock w i))\<lparr>ts_ack := sq + of_nat (length data)\<rparr>"
  have "sock_grows (sock w i) s"
    by (rule sock_update_grows [OF sock_grows_refl]) (use fold_push in \<open>auto simp: s_def\<close>)
  then have ev: "evolves w (set_sock i s w)"
    using assms by (intro set_sock_evolves) (simp_all add: ready_def)
  have "i < length (tcp_sockets (set_sock i s w))"
    using assms(2) by (simp add: set_sock_def)
  from tcp_send_segment_runs [OF ready_evolves [OF assms(1) ev] this] ev
  have "runs (map_option fst (tcp_send_segment poll (set_sock i s w) i TCP_FLAG_ACK [])) w"
    by (rule runs_trans)
  then show ?thesis
    by (simp add: tcp_data_def s_def Let_def)
qed

lemma tcp_input_runs:
  assumes "ready w" and i: "i < length (tcp_sockets w)"
  shows "runs (tcp_input poll w i flags sq data) w"
proof -
  have state: "evolves w (set_sock i ((sock w i)\<lparr>ts_state := st\<rparr>) w)" if "tcp_edge (ts_state (sock w i)) st" for st
    using assms that by (intro set_sock_evolves) (auto simp: ready_def intro: sock_update_grows [OF sock_grows_refl])
  have move: "runs (tcp_move poll w i ack st) w" if "tcp_edge (ts_state (sock w i)) st" for ack st
    using that by (intro tcp_move_runs [OF assms(1) evolves_refl i]) auto
  obtain w1 where w1: "tcp_data poll w i sq data = Some w1" "evolves w w1"
    using tcp_data_runs [OF assms] by (auto simp: runs_def)
  have fin: "runs (tcp_move poll w1 i ack TCP_CLOSE_WAIT) w" if "ts_state (sock w i) = TCP_ESTABLISHED" for ack
    using tcp_move_runs [OF assms(1) w1(2) i, of TCP_CLOSE_WAIT ack] that edge_closed by auto
  show ?thesis
    using w1 by (cases "ts_state (sock w i)") (simp_all add: tcp_input_def Let_def state move fin tcp_edge.intros)
qed

lemma tcp_receive_runs:
  assumes "ready w"
  shows "runs (tcp_receive poll w ip p) w"
  using tcp_input_runs [OF assms]
  by (auto simp: tcp_receive_def Let_def at_idx_less tcp_find_socket_def dest: scan_index split: option.split)

lemma ip_dispatch_runs: "ready w \<Longrightarrow> runs (ip_dispatch poll w proto ip data) w"
  by (simp add: ip_dispatch_def icmp_receive_runs udp_receive_runs tcp_receive_runs)

lemma ipv4_receive_runs: "ready w \<Longrightarrow> runs (ipv4_receive poll w p) w"
  by (cases "p = []") (simp_all add: ipv4_receive_def Let_def at_idx_less ip_dispatch_runs)

lemma ethernet_receive_runs: "ready w \<Longrightarrow> runs (ethernet_receive poll w p) w"
  by (simp add: ethernet_receive_def ETH_HLEN_def ipv4_receive_runs arp_handle_runs)

end

section \<open>Polling terminates\<close>

lemma polling_net_poll: "polling (net_poll n) n"
proof (induction n)
  case 0
  show ?case by unfold_locales simp
next
  case (Suc n)
  show ?case
  proof unfold_locales
    fix w :: "'a net_scheme" assume w: "net_ok w" "length (arrivals w) < Suc n"
    show "runs (net_poll (Suc n) w) w"
    proof (cases "net_present w \<and> arrivals w \<noteq> []")
      case True
      then obtain p ps where a: "arrivals w = p # ps"
        by (cases "arrivals w") auto
      have ev: "evolves w (w\<lparr>arrivals := ps\<rparr>)"
        using a by (simp add: evolves_def net_ok_def list.rel_refl)
      have "polling.ready n (w\<lparr>arrivals := ps\<rparr>)"
        using w a by (simp add: polling.ready_def [OF Suc.IH] net_ok_def)
      from runs_trans [OF polling.ethernet_receive_runs [OF Suc.IH this] ev] show ?thesis
        using True a ev by (simp add: card_poll_def)
    qed (auto simp: card_poll_def)
  qed
qed

interpretation np: polling "net_poll n" n for n
  by (rule polling_net_poll)

end
