(* ===== verification/NetWire.thy ===== *)
theory NetWire
  imports NetStack
begin

text \<open>
  What the stack puts on the wire and what a receiving stack makes of it: the layers of
  \<^verbatim>\<open>kernel/net/ipv4.c\<close>, \<^verbatim>\<open>kernel/net/ethernet.c\<close> and \<^verbatim>\<open>kernel/net/tcp.c\<close> composed from the sender to the receiver.
\<close>

section \<open>Frames\<close>

lemma ipv4_hdr_sum_verifies: "net_checksum (ipv4_hdr_sum len ident proto src dst) = 0"
  using checksum_field_verifies [of "[0x45, 0] @ put16 (htons len) @ put16 (htons ident) @ put16 (htons 0x4000) @ [64, proto]"
      "put32 src @ put32 dst"]
  by (simp add: ipv4_hdr_sum_def ipv4_hdr_def)

lemma length_ipv4_hdr_sum [simp]: "length (ipv4_hdr_sum len ident proto src dst) = 20"
  by (simp add: ipv4_hdr_sum_def ipv4_hdr_def)

lemma ipv4_hdr_fields:
  assumes "p = ipv4_hdr_sum len ident proto src dst @ data"
  shows "p ! 0 = 0x45" "p ! 9 = proto" "get32 p 12 = src" "get32 p 16 = dst" "take 20 p = ipv4_hdr_sum len ident proto src dst" "drop 20 p = data"
proof -
  define c where "c = net_checksum (ipv4_hdr len ident proto 0 src dst)"
  define pre where "pre = [0x45, 0] @ put16 (htons len) @ put16 (htons ident) @ put16 (htons 0x4000) @ [64, proto] @ put16 c"
  have p: "p = pre @ put32 src @ put32 dst @ data"
    by (simp add: assms ipv4_hdr_sum_def ipv4_hdr_def c_def pre_def)
  have l: "length pre = 12"
    by (simp add: pre_def)
  show "p ! 0 = 0x45" "p ! 9 = proto"
    by (simp_all add: p pre_def put16_def)
  show "get32 p 12 = src"
    using get32_put32 [OF l, of src "put32 dst @ data"] by (simp add: p)
  show "get32 p 16 = dst"
    using get32_put32 [of "pre @ put32 src" 16 dst data] l by (simp add: p)
  show "take 20 p = ipv4_hdr_sum len ident proto src dst" "drop 20 p = data"
    by (simp_all add: assms)
qed

text \<open>The payload as a receiver sees it: short frames are padded to sixty bytes.\<close>

definition padded :: "bytes \<Rightarrow> bytes" where
  "padded payload = payload @ replicate (26 - length payload) 0"

lemma ipv4_receive_packet:
  assumes "dst = local_ip (cfg w) \<or> dst = 0xFFFFFFFF"
  shows "ipv4_receive poll w (ipv4_hdr_sum len ident proto src dst @ data) = ip_dispatch poll w proto src data"
proof -
  define p where "p = ipv4_hdr_sum len ident proto src dst @ data"
  note f = ipv4_hdr_fields [OF p_def]
  have "20 \<le> length p" "p \<noteq> []" "length p - 20 = length data"
    by (auto simp: p_def ipv4_hdr_sum_def ipv4_hdr_def)
  then show ?thesis
    using assms f ipv4_hdr_sum_verifies [of len ident proto src dst]
    by (auto simp add: ipv4_receive_def p_def [symmetric] Let_def at_idx_less)
qed

lemma ethernet_receive_frame:
  assumes "length dm = 6" and "length sm = 6"
  shows "ethernet_receive poll w (eth_frame dm sm ETHERTYPE_IPV4 pkt) =
    ipv4_receive poll w (pkt @ replicate (46 - length pkt) 0)"
proof -
  define rest where "rest = pkt @ replicate (46 - length pkt) 0"
  have fr: "eth_frame dm sm ETHERTYPE_IPV4 pkt = (dm @ sm) @ put16 (htons ETHERTYPE_IPV4) @ rest"
    using assms by (simp add: eth_frame_def Let_def rest_def)
  have "get16 (eth_frame dm sm ETHERTYPE_IPV4 pkt) 12 = htons ETHERTYPE_IPV4"
    unfolding fr by (rule get16_put16) (use assms in simp)
  moreover have "drop 14 (eth_frame dm sm ETHERTYPE_IPV4 pkt) = rest" "length (eth_frame dm sm ETHERTYPE_IPV4 pkt) = 14 + length rest"
    unfolding fr using assms by simp_all
  moreover have "ETHERTYPE_IPV4 \<noteq> ETHERTYPE_ARP"
    by (simp add: ETHERTYPE_IPV4_def ETHERTYPE_ARP_def)
  ultimately show ?thesis
    by (simp add: ethernet_receive_def ETH_HLEN_def ntohs_def rest_def)
qed

text \<open>Sending when the hardware address of the next hop is known.\<close>

lemma ipv4_send_resolved:
  assumes "net_ok w" and "net_present w" and "next_hop (cfg w) dst \<noteq> 0xFFFFFFFF" and "arp_find w (next_hop (cfg w) dst) = Some mac"
    and "payload \<noteq> []" and "length payload \<le> 1502"
  obtains frame where "frame = eth_frame mac (cfg_mac (cfg w)) ETHERTYPE_IPV4 (ipv4_packet w dst proto payload)"
    "ipv4_send poll w dst proto payload =
       Some ((ipv4_fill w (ipv4_packet w dst proto payload))\<lparr>sent := sent w @ [frame]\<rparr>, int (length frame))"
    "length mac = 6"
proof -
  define w1 where "w1 = ipv4_fill w (ipv4_packet w dst proto payload)"
  define frame where "frame = eth_frame mac (cfg_mac (cfg w)) ETHERTYPE_IPV4 (ipv4_packet w dst proto payload)"
  obtain i where "i < length (arp_cache w)" "mac = ae_mac (arp_cache w ! i)"
    using assms(4) by (auto simp: arp_find_def dest: scan_index)
  then have mac: "length mac = 6" "length (cfg_mac (cfg w)) = 6"
    using assms(1) by (auto simp: net_ok_def)
  have w1: "arp_find w1 ip = arp_find w ip" "cfg w1 = cfg w" "net_present w1" "sent w1 = sent w" for ip
    using assms(2) by (simp_all add: w1_def ipv4_fill_def arp_find_def)
  have buf: "take (20 + length payload) (ipv4_tx_buffer w1) = ipv4_packet w dst proto payload"
    by (simp add: w1_def ipv4_fill_def)
  have pkt: "ipv4_packet w dst proto payload \<noteq> []"
    by (simp add: ipv4_packet_def ipv4_hdr_sum_def ipv4_hdr_def)
  have len: "length frame \<le> 1536" "frame \<noteq> []"
    using mac assms(6) by (auto simp: frame_def eth_frame_def Let_def)
  have "ethernet_send w1 mac ETHERTYPE_IPV4 (ipv4_packet w dst proto payload) = (w1\<lparr>sent := sent w @ [frame]\<rparr>, int (length frame))"
    using mac w1 len assms(6) pkt by (auto simp: ethernet_send_def card_send_def frame_def ETH_HLEN_def VIRTIO_NET_MAX_PKT_SIZE_def)
  then have "ipv4_send poll w dst proto payload = Some (w1\<lparr>sent := sent w @ [frame]\<rparr>, int (length frame))"
    using assms(3-6) w1 buf by (simp add: ipv4_send_def arp_resolve_def w1_def)
  then show thesis
    using that [of frame] mac(1) by (simp add: frame_def w1_def)
qed

text \<open>The same frame at the receiver.\<close>

lemma frame_dispatch:
  assumes "net_ok w" and "length mac = 6" and "local_ip (cfg w2) = dst"
  shows "ethernet_receive poll w2 (eth_frame mac (cfg_mac (cfg w)) ETHERTYPE_IPV4 (ipv4_packet w dst proto payload)) =
    ip_dispatch poll w2 proto (local_ip (cfg w)) (padded payload)"
proof -
  have "length (cfg_mac (cfg w)) = 6"
    using assms(1) by (simp add: net_ok_def)
  then show ?thesis
    using assms(2, 3) ipv4_receive_packet [of dst w2 poll "of_nat (20 + length payload)" "ip_id_counter w" proto "local_ip (cfg w)" "padded payload"]
    by (simp add: ethernet_receive_frame ipv4_packet_def padded_def)
qed

section \<open>Segments\<close>

lemma tcp_hdr_fields:
  assumes "p = tcp_segment s flags payload @ z"
  shows "get16 p 0 = htons (ts_local_port s)" "get16 p 2 = htons (ts_remote_port s)" "get32 p 4 = htonl (ts_seq s)"
    "p ! 12 = 0x50" "p ! 13 = flags" "drop 20 p = payload @ z" "length p = 20 + length (payload @ z)"
proof -
  define a b q where "a = put16 (htons (ts_local_port s))" and "b = put16 (htons (ts_remote_port s))" and "q = put32 (htonl (ts_seq s))"
  define tl where "tl = put32 (htonl (ts_ack s)) @ [push_bit 4 5, flags] @ put16 (htons (of_nat (TCP_RX_BUF_SIZE - rx_len s))) @
    put16 (tcp_compute_checksum (ts_local_ip s) (ts_remote_ip s) (tcp_hdr s flags 0 @ payload)) @ put16 0"
  have p: "p = a @ b @ q @ tl @ payload @ z"
    by (simp add: assms tcp_segment_def tcp_hdr_def a_def b_def q_def tl_def)
  have l: "length a = 2" "length b = 2" "length q = 4" "length tl = 12"
    by (simp_all add: a_def b_def q_def tl_def)
  show "get16 p 0 = htons (ts_local_port s)"
    using get16_put16 [of "[]" 0 "htons (ts_local_port s)" "b @ q @ tl @ payload @ z"] by (simp add: p a_def)
  show "get16 p 2 = htons (ts_remote_port s)"
    using get16_put16 [OF l(1), of "htons (ts_remote_port s)" "q @ tl @ payload @ z"] by (simp add: p b_def)
  show "get32 p 4 = htonl (ts_seq s)"
    using get32_put32 [of "a @ b" 4 "htonl (ts_seq s)" "tl @ payload @ z"] l by (simp add: p q_def)
  have "tl ! 4 = 0x50" "tl ! 5 = flags"
    by (simp_all add: tl_def put32_def put16_def)
  then show "p ! 12 = 0x50" "p ! 13 = flags"
    using l by (simp_all add: p nth_append)
  show "drop 20 p = payload @ z" "length p = 20 + length (payload @ z)"
    using l by (simp_all add: p)
qed

lemma tcp_receive_segment:
  assumes "tcp_find_socket w (ts_remote_port s) src (ts_local_port s) = Some j"
  shows "tcp_receive poll w src (tcp_segment s flags payload @ z) = tcp_input poll w j flags (ts_seq s) (payload @ z)"
proof -
  define p where "p = tcp_segment s flags payload @ z"
  note f = tcp_hdr_fields [OF p_def]
  have off: "unat (drop_bit 4 (80 :: u8)) * 4 = 20"
    by code_simp
  show ?thesis
    using assms f by (simp add: tcp_receive_def p_def [symmetric] Let_def at_idx_less off ntohs_def ntohl_def slice_def)
qed

text \<open>An established socket takes the data of a segment, up to the room it has.\<close>

context polling
begin

lemma ack_after:
  assumes "ready w" and "evolves w w1" and "i < length (tcp_sockets w)" and "sock_grows (sock w i) s"
  obtains w2 where "map_option fst (tcp_send_segment poll (set_sock i s w1) i f []) = Some w2" "evolves w w2"
    "prefix (stream s) (stream (sock w2 i))"
proof -
  have ev: "evolves w (set_sock i s w1)"
    using assms by (intro set_sock_evolves) (simp_all add: ready_def)
  have i: "i < length (tcp_sockets (set_sock i s w1))" "sock (set_sock i s w1) i = s"
    using assms(2, 3) by (auto simp: evolves_def set_sock_def dest: list_all2_lengthD)
  obtain w2 r where w2: "tcp_send_segment poll (set_sock i s w1) i f [] = Some (w2, r)" "evolves (set_sock i s w1) w2"
    using tcp_send_segment_runs [OF ready_evolves [OF assms(1) ev] i(1), of f "[]"] by (auto simp: runs_pair)
  have "sock_grows s (sock w2 i)"
    using w2(2) i list_all2_nthD [of sock_grows "tcp_sockets (set_sock i s w1)" "tcp_sockets w2" i] by (simp add: evolves_def)
  moreover have "sock_ok s"
    using assms(1, 3, 4) by (auto simp: ready_def net_ok_def sock_grows_def)
  ultimately show thesis
    using that [of w2] w2 evolves_trans [OF ev w2(2)] by (simp add: sock_grows_def)
qed

lemma tcp_data_stream:
  assumes "ready w" and "i < length (tcp_sockets w)"
  obtains w1 where "tcp_data poll w i sq data = Some w1" "evolves w w1"
    "prefix (stream (sock w i) @ take (TCP_RX_BUF_SIZE - rx_len (sock w i)) data) (stream (sock w1 i))"
proof (cases "data = []")
  case True
  then show thesis
    using that [of w] by (simp add: tcp_data_def)
next
  case False
  define s where "s = (fold rx_push data (sock w i))\<lparr>ts_ack := sq + of_nat (length data)\<rparr>"
  have "sock_ok (sock w i)"
    using assms by (auto simp: ready_def net_ok_def)
  from fold_push [OF this]
  have s: "sock_ok s" "stream s = stream (sock w i) @ take (TCP_RX_BUF_SIZE - rx_len (sock w i)) data"
    by (simp_all add: s_def)
  have "sock_grows (sock w i) s"
    by (rule sock_update_grows [OF sock_grows_refl]) (use s in \<open>auto simp: s_def\<close>)
  from ack_after [OF assms(1) evolves_refl assms(2) this, of TCP_FLAG_ACK]
  obtain w2 where "map_option fst (tcp_send_segment poll (set_sock i s w) i TCP_FLAG_ACK []) = Some w2" "evolves w w2"
      "prefix (stream s) (stream (sock w2 i))"
    by blast
  then show thesis
    using that [of w2] s(2) False by (simp add: tcp_data_def s_def Let_def)
qed

lemma tcp_input_established:
  assumes "ready w" and "i < length (tcp_sockets w)" and "ts_state (sock w i) = TCP_ESTABLISHED" and "flags AND TCP_FLAG_RST = 0"
  shows "\<exists>w'. tcp_input poll w i flags sq data = Some w' \<and> evolves w w' \<and>
    prefix (stream (sock w i) @ take (TCP_RX_BUF_SIZE - rx_len (sock w i)) data) (stream (sock w' i))"
proof -
  obtain w1 where w1: "tcp_data poll w i sq data = Some w1" "evolves w w1"
      "prefix (stream (sock w i) @ take (TCP_RX_BUF_SIZE - rx_len (sock w i)) data) (stream (sock w1 i))"
    by (rule tcp_data_stream [OF assms(1, 2)])
  define ack where "ack = sq + (if data \<noteq> [] then of_nat (length data) else 1)"
  have "sock_grows (sock w i) (sock w1 i)"
    using w1(2) assms(2) by (auto simp: evolves_def dest: list_all2_nthD)
  then have "sock_grows (sock w i) ((sock w1 i)\<lparr>ts_ack := ack, ts_state := TCP_CLOSE_WAIT\<rparr>)"
    by (rule sock_update_grows) (use edge_closed assms(3) in auto)
  from ack_after [OF assms(1) w1(2) assms(2) this, of TCP_FLAG_ACK]
  obtain w2 where w2: "tcp_move poll w1 i ack TCP_CLOSE_WAIT = Some w2" "evolves w w2" "prefix (stream (sock w1 i)) (stream (sock w2 i))"
    by (auto simp: tcp_move_def)
  show ?thesis
    using assms(3, 4) w1 w2 prefix_order.order_trans [OF w1(3) w2(3)]
    by (cases "flags AND TCP_FLAG_FIN = 0") (simp_all add: tcp_input_def ack_def)
qed

end

section \<open>Properties\<close>

text \<open>
  C18: what is sent arrives.  When the next hop is known, \<open>ipv4_send\<close> hands exactly one frame to the card,
  addressed to that hop, and a stack that owns the destination address and gets the frame
  passes the payload to the protocol it was sent for, with the sender's address; only zero
  bytes are added, to payloads of less than 26 bytes.
\<close>

theorem ipv4_send_delivers:
  assumes "net_ok w" and "net_present w" and "next_hop (cfg w) dst \<noteq> 0xFFFFFFFF" and "arp_find w (next_hop (cfg w) dst) = Some mac"
    and "payload \<noteq> []" and "length payload \<le> 1502" and "local_ip (cfg w2) = dst"
  shows "\<exists>w' frame. ipv4_send poll w dst proto payload = Some (w', int (length frame)) \<and> sent w' = sent w @ [frame] \<and>
    take 6 frame = mac \<and>
    ethernet_receive poll2 w2 frame = ip_dispatch poll2 w2 proto (local_ip (cfg w)) (padded payload)"
proof -
  obtain frame where fr: "frame = eth_frame mac (cfg_mac (cfg w)) ETHERTYPE_IPV4 (ipv4_packet w dst proto payload)"
    "ipv4_send poll w dst proto payload =
       Some ((ipv4_fill w (ipv4_packet w dst proto payload))\<lparr>sent := sent w @ [frame]\<rparr>, int (length frame))" "length mac = 6"
    by (rule ipv4_send_resolved [OF assms(1-6)])
  then show ?thesis
    using frame_dispatch [OF assms(1) fr(3) assms(7)] by (auto simp: eth_frame_def Let_def)
qed


text \<open>
  C38: bytes that do not fit are acknowledged and gone.  When data arrives on an established socket whose buffer
  is full, nothing is stored, the acknowledgement number still moves over all of the data, and a
  segment that says so is sent: the peer will not send the bytes again.
\<close>

theorem tcp_full_buffer_acks_lost:
  assumes "net_ok w" and "net_present w" and "next_hop (cfg w) dst \<noteq> 0xFFFFFFFF" and "arp_find w (next_hop (cfg w) dst) = Some mac"
    and "dst = ts_remote_ip (sock w i)" and "i < length (tcp_sockets w)" and "ts_state (sock w i) = TCP_ESTABLISHED"
    and "rx_len (sock w i) = TCP_RX_BUF_SIZE" and "data \<noteq> []" and "flags AND TCP_FLAG_RST = 0" and "flags AND TCP_FLAG_FIN = 0"
  shows "\<exists>w' s frame. tcp_input poll w i flags sq data = Some w' \<and> stream (sock w' i) = stream (sock w i) \<and>
    ts_ack s = sq + of_nat (length data) \<and> sent w' = sent w @ [frame] \<and>
    frame = eth_frame mac (cfg_mac (cfg w)) ETHERTYPE_IPV4 (ipv4_packet w dst IP_PROTO_TCP (tcp_segment s TCP_FLAG_ACK []))"
proof -
  define s where "s = (sock w i)\<lparr>ts_ack := sq + of_nat (length data)\<rparr>"
  define w1 where "w1 = set_sock i s w"
  define seg where "seg = tcp_segment s TCP_FLAG_ACK []"
  have full: "fold rx_push data (sock w i) = sock w i"
    using assms(8) by (induction data) (simp_all add: rx_push_def)
  have "sock_ok (sock w i)"
    using assms(1, 6) by (auto simp: net_ok_def)
  then have ok: "net_ok w1"
    using assms(1) set_update_subset_insert [of "tcp_sockets w" i s] by (auto simp: net_ok_def w1_def set_sock_def s_def)
  have w1: "cfg w1 = cfg w" "net_present w1" "arp_find w1 ip = arp_find w ip" "sent w1 = sent w" "sock w1 i = s"
    "ipv4_packet w1 = ipv4_packet w" for ip
    using assms(2, 6) by (auto simp: w1_def set_sock_def arp_find_def ipv4_packet_def fun_eq_iff)
  have seg: "seg \<noteq> []" "length seg = 20"
    by (simp_all add: seg_def tcp_segment_def tcp_hdr_def)
  obtain frame where fr: "frame = eth_frame mac (cfg_mac (cfg w1)) ETHERTYPE_IPV4 (ipv4_packet w1 dst IP_PROTO_TCP seg)"
    "ipv4_send poll w1 dst IP_PROTO_TCP seg =
       Some ((ipv4_fill w1 (ipv4_packet w1 dst IP_PROTO_TCP seg))\<lparr>sent := sent w1 @ [frame]\<rparr>, int (length frame))"
    by (rule ipv4_send_resolved [OF ok, of dst mac seg]) (use w1 assms(3, 4) seg in auto)
  define w2 where "w2 = (ipv4_fill w1 (ipv4_packet w1 dst IP_PROTO_TCP seg))\<lparr>sent := sent w1 @ [frame]\<rparr>"
  have ack: "TCP_FLAG_ACK AND (TCP_FLAG_SYN OR TCP_FLAG_FIN) = 0"
    by (simp add: TCP_FLAG_ACK_def TCP_FLAG_SYN_def TCP_FLAG_FIN_def)
  have i2: "sock w2 i = s" "i < length (tcp_sockets w2)"
    using w1(5) assms(6) by (simp_all add: w2_def ipv4_fill_def w1_def set_sock_def)
  have rip: "ts_remote_ip s = dst"
    using assms(5) by (simp add: s_def)
  have "tcp_send_segment poll w1 i TCP_FLAG_ACK [] = Some (set_sock i s w2, int (length frame))"
    using fr(2) [folded w2_def] i2(1) ack rip w1(5) by (simp add: tcp_send_segment_def seg_def Let_def)
  then have "tcp_input poll w i flags sq data = Some (set_sock i s w2)"
    using assms(7-11) full by (simp add: tcp_input_def tcp_data_def s_def [symmetric] w1_def [symmetric])
  then show ?thesis
    using i2(2) w1 fr(1) by (intro exI [of _ "set_sock i s w2"] exI [of _ s] exI [of _ frame]) (simp add: set_sock_def s_def seg_def w2_def)
qed

text \<open>
  C16: polling is total.  With one level of nesting more than there are packets to come, \<open>net_poll\<close> returns
  on every well-formed state, whatever the packets hold: no access leaves a packet or a table.
  The state stays well formed, and every socket keeps its identity, moves along the
  connection diagram and only appends to its stream.
\<close>

theorem net_poll_total:
  assumes "net_ok w"
  shows "\<exists>w'. net_poll (Suc (length (arrivals w))) w = Some w' \<and> evolves w w'"
  using np.poll_law [OF assms, of "Suc (length (arrivals w))"] by (simp add: runs_def)

section \<open>Two hosts\<close>

definition demo_sock :: "u16 \<Rightarrow> u32 \<Rightarrow> u16 \<Rightarrow> tcp_socket" where
  "demo_sock port peer peer_port = tcp_socket_zero\<lparr>ts_in_use := True, ts_state := TCP_ESTABLISHED, ts_local_port := port, ts_remote_ip := peer,
     ts_remote_port := peer_port\<rparr>"

definition demo_host :: "u32 \<Rightarrow> u32 \<Rightarrow> tcp_socket \<Rightarrow> net" where
  "demo_host ip peer s = blank_net\<lparr>cfg := \<lparr>local_ip = ip, gateway_ip = 0, netmask = 0xFF, dns_ip = 0, cfg_mac = replicate 6 1\<rparr>,
     arp_cache := \<lparr>ae_ip = peer, ae_mac = replicate 6 2, ae_valid = True\<rparr> # replicate (ARP_CACHE_SIZE - 1) arp_entry_zero,
     tcp_sockets := s # replicate 15 tcp_socket_zero\<rparr>"

lemma demo_sock_ok [simp]: "sock_ok tcp_socket_zero" "sock_ok (demo_sock port peer peer_port)"
  "sock_ok ((demo_sock port peer peer_port)\<lparr>rx_len := TCP_RX_BUF_SIZE\<rparr>)"
  by (simp_all add: sock_ok_def demo_sock_def tcp_socket_zero_def TCP_RX_BUF_SIZE_def)

lemma demo_sock_fields:
  "ts_in_use (demo_sock port peer peer_port)" "ts_state (demo_sock port peer peer_port) = TCP_ESTABLISHED"
  "ts_local_port (demo_sock port peer peer_port) = port" "ts_remote_ip (demo_sock port peer peer_port) = peer"
  "ts_remote_port (demo_sock port peer peer_port) = peer_port" "rx_len (demo_sock port peer peer_port) = 0"
  by (simp_all add: demo_sock_def tcp_socket_zero_def)

lemma demo_host_ok: "sock_ok s \<Longrightarrow> net_ok (demo_host ip peer s)"
  by (simp add: net_ok_def demo_host_def blank_net_def ARP_CACHE_SIZE_def arp_entry_zero_def MAX_UDP_PORTS_def TCP_MAX_SOCKETS_def)

lemma demo_host_fields [simp]:
  "cfg (demo_host ip peer s) = \<lparr>local_ip = ip, gateway_ip = 0, netmask = 0xFF, dns_ip = 0, cfg_mac = replicate 6 1\<rparr>"
  "net_present (demo_host ip peer s)" "arp_find (demo_host ip peer s) peer = Some (replicate 6 2)"
  "tcp_sockets (demo_host ip peer s) = s # replicate 15 tcp_socket_zero" "arrivals (demo_host ip peer s) = []"
  by (simp_all add: demo_host_def blank_net_def arp_find_def arp_hit_def)

theorem ipv4_send_delivers_witness:
  "\<exists>w' frame. ipv4_send (net_poll 1) (demo_host 0x0101 0x0201 tcp_socket_zero) 0x0201 IP_PROTO_UDP [1, 2, 3] = Some (w', int (length frame)) \<and>
    sent w' = sent (demo_host 0x0101 0x0201 tcp_socket_zero) @ [frame] \<and> take 6 frame = replicate 6 2 \<and>
    ethernet_receive (net_poll 1) (demo_host 0x0201 0x0101 tcp_socket_zero) frame =
      ip_dispatch (net_poll 1) (demo_host 0x0201 0x0101 tcp_socket_zero) IP_PROTO_UDP
        (local_ip (cfg (demo_host 0x0101 0x0201 tcp_socket_zero))) (padded [1, 2, 3])"
  by (rule ipv4_send_delivers) (simp_all add: demo_host_ok next_hop_def)


theorem tcp_full_buffer_acks_lost_witness:
  "\<exists>w' s frame. tcp_input (net_poll 1) (demo_host 0x0101 0x0201 ((demo_sock 5 0x0201 80)\<lparr>rx_len := TCP_RX_BUF_SIZE\<rparr>)) 0 TCP_FLAG_ACK 9 [7] = Some w' \<and>
    stream (sock w' 0) = stream (sock (demo_host 0x0101 0x0201 ((demo_sock 5 0x0201 80)\<lparr>rx_len := TCP_RX_BUF_SIZE\<rparr>)) 0) \<and>
    ts_ack s = 9 + of_nat (length [7 :: u8]) \<and>
    sent w' = sent (demo_host 0x0101 0x0201 ((demo_sock 5 0x0201 80)\<lparr>rx_len := TCP_RX_BUF_SIZE\<rparr>)) @ [frame] \<and>
    frame = eth_frame (replicate 6 2) (cfg_mac (cfg (demo_host 0x0101 0x0201 ((demo_sock 5 0x0201 80)\<lparr>rx_len := TCP_RX_BUF_SIZE\<rparr>)))) ETHERTYPE_IPV4
      (ipv4_packet (demo_host 0x0101 0x0201 ((demo_sock 5 0x0201 80)\<lparr>rx_len := TCP_RX_BUF_SIZE\<rparr>)) 0x0201 IP_PROTO_TCP (tcp_segment s TCP_FLAG_ACK []))"
  by (rule tcp_full_buffer_acks_lost)
    (simp_all add: demo_host_ok next_hop_def demo_sock_fields TCP_FLAG_ACK_def TCP_FLAG_RST_def TCP_FLAG_FIN_def)

theorem net_poll_total_witness:
  "\<exists>w'. net_poll (Suc (length (arrivals ((demo_host 0x0101 0x0201 tcp_socket_zero)\<lparr>arrivals := [[1, 2], []]\<rparr>))))
     ((demo_host 0x0101 0x0201 tcp_socket_zero)\<lparr>arrivals := [[1, 2], []]\<rparr>) = Some w' \<and>
   evolves ((demo_host 0x0101 0x0201 tcp_socket_zero)\<lparr>arrivals := [[1, 2], []]\<rparr>) w'"
  by (rule net_poll_total) (use demo_host_ok [of tcp_socket_zero "0x0101" "0x0201"] in \<open>simp add: net_ok_def\<close>)

end
