(* ===== verification/Ports.thy ===== *)
theory Ports
  imports Tarfs
begin

text \<open>
  Access to the devices through the I/O ports of the processor.  The devices are not part of the
  kernel: they are a parameter \<open>hw\<close> of every driver function, which gives the value that a read
  of a port returns, as a function of everything that was read and written before.  The kernel
  state records this history, the latest event first.
\<close>

datatype io = In nat u16 | Out nat u16 u32

type_synonym hardware = "io list \<Rightarrow> nat \<Rightarrow> u16 \<Rightarrow> u32"

record ports = tarfs +
  io_log :: "io list"

definition inb :: "hardware \<Rightarrow> 'a ports_scheme \<Rightarrow> u16 \<Rightarrow> 'a ports_scheme \<times> u8" where
  "inb hw w port = (w\<lparr>io_log := In 8 port # io_log w\<rparr>, ucast (hw (io_log w) 8 port))"

definition inw :: "hardware \<Rightarrow> 'a ports_scheme \<Rightarrow> u16 \<Rightarrow> 'a ports_scheme \<times> u16" where
  "inw hw w port = (w\<lparr>io_log := In 16 port # io_log w\<rparr>, ucast (hw (io_log w) 16 port))"

definition inl :: "hardware \<Rightarrow> 'a ports_scheme \<Rightarrow> u16 \<Rightarrow> 'a ports_scheme \<times> u32" where
  "inl hw w port = (w\<lparr>io_log := In 32 port # io_log w\<rparr>, hw (io_log w) 32 port)"

definition outb :: "'a ports_scheme \<Rightarrow> u16 \<Rightarrow> u8 \<Rightarrow> 'a ports_scheme" where
  "outb w port v = w\<lparr>io_log := Out 8 port (ucast v) # io_log w\<rparr>"

definition outw :: "'a ports_scheme \<Rightarrow> u16 \<Rightarrow> u16 \<Rightarrow> 'a ports_scheme" where
  "outw w port v = w\<lparr>io_log := Out 16 port (ucast v) # io_log w\<rparr>"

definition outl :: "'a ports_scheme \<Rightarrow> u16 \<Rightarrow> u32 \<Rightarrow> 'a ports_scheme" where
  "outl w port v = w\<lparr>io_log := Out 32 port v # io_log w\<rparr>"

end
