(* ===== verification/Ata.thy ===== *)
theory Ata
  imports Ports
begin

text \<open>
  Block devices: the registry of \<^verbatim>\<open>kernel/drivers/block.c\<close> and the programmed I/O driver for ATA
  disks, \<^verbatim>\<open>kernel/drivers/ata.c\<close>.  A pointer to a block device is the name of the drive that
  contains it.  The contents of a buffer that a read has filled, also partly, are part of its
  result.  Console output is left out.
\<close>

section \<open>Registry\<close>

record block_dev =
  bd_name :: bytes
  bd_total_sectors :: u64
  bd_sector_size :: u32
  bd_priv_data :: "static_ptr option"

record ata_drive =
  io_base :: u16
  ctrl_base :: u16
  drive_num :: u8
  drive_exists :: bool
  lba48_supported :: bool
  sector_count :: u64
  drive_model :: bytes
  drive_serial :: bytes
  drive_block_dev :: block_dev

record ata = ports +
  drives :: "ata_drive list"
  total_drives :: nat
  registered_devices :: "static_ptr option list"
  device_count :: nat

definition BLOCK_MAX_DEVICES :: nat where "BLOCK_MAX_DEVICES = 8"
definition BLOCK_SECTOR_SIZE :: u32 where "BLOCK_SECTOR_SIZE = 512"

definition drive_ptr :: "nat \<Rightarrow> static_ptr" where
  "drive_ptr i = Static ''drives'' i"

definition block_dev_at :: "'a ata_scheme \<Rightarrow> static_ptr \<Rightarrow> block_dev" where
  "block_dev_at w p = drive_block_dev (drives w ! static_idx p)"

definition block_register_device :: "'a ata_scheme \<Rightarrow> static_ptr option \<Rightarrow> 'a ata_scheme \<times> int" where
  "block_register_device w dev =
     (if dev = None \<or> BLOCK_MAX_DEVICES \<le> device_count w then (w, - 1)
      else (w\<lparr>registered_devices := (registered_devices w)[device_count w := dev], device_count := device_count w + 1\<rparr>, 0))"

fun get_device_loop :: "'a ata_scheme \<Rightarrow> bytes \<Rightarrow> static_ptr option list \<Rightarrow> static_ptr option option" where
  "get_device_loop w name [] = Some None"
| "get_device_loop w name (None # ds) = None"
| "get_device_loop w name (Some d # ds) = do {
     r \<leftarrow> kstrcmp (Some (bd_name (block_dev_at w d))) (Some name);
     if r = 0 then Some (Some d) else get_device_loop w name ds
   }"

definition block_get_device :: "'a ata_scheme \<Rightarrow> cptr \<Rightarrow> static_ptr option option" where
  "block_get_device w name =
     (case name of None \<Rightarrow> Some None | Some s \<Rightarrow> get_device_loop w s (take (device_count w) (registered_devices w)))"

definition block_get_device_count :: "'a ata_scheme \<Rightarrow> int" where
  "block_get_device_count w = int (device_count w)"

definition block_get_device_by_index :: "'a ata_scheme \<Rightarrow> int \<Rightarrow> static_ptr option" where
  "block_get_device_by_index w index =
     (if index < 0 \<or> int (device_count w) \<le> index then None else registered_devices w ! nat index)"

section \<open>Registers and waiting\<close>

definition ATA_PRIMARY_IO :: u16 where "ATA_PRIMARY_IO = 0x1F0"
definition ATA_PRIMARY_CTRL :: u16 where "ATA_PRIMARY_CTRL = 0x3F6"
definition ATA_SECONDARY_IO :: u16 where "ATA_SECONDARY_IO = 0x170"
definition ATA_SECONDARY_CTRL :: u16 where "ATA_SECONDARY_CTRL = 0x376"
definition ATA_REG_DATA :: u16 where "ATA_REG_DATA = 0"
definition ATA_REG_SEC_COUNT :: u16 where "ATA_REG_SEC_COUNT = 2"
definition ATA_REG_LBA_LO :: u16 where "ATA_REG_LBA_LO = 3"
definition ATA_REG_LBA_MID :: u16 where "ATA_REG_LBA_MID = 4"
definition ATA_REG_LBA_HI :: u16 where "ATA_REG_LBA_HI = 5"
definition ATA_REG_DRIVE :: u16 where "ATA_REG_DRIVE = 6"
definition ATA_REG_STATUS :: u16 where "ATA_REG_STATUS = 7"
definition ATA_REG_COMMAND :: u16 where "ATA_REG_COMMAND = 7"
definition ATA_STATUS_ERR :: u8 where "ATA_STATUS_ERR = 0x01"
definition ATA_STATUS_DRQ :: u8 where "ATA_STATUS_DRQ = 0x08"
definition ATA_STATUS_DF :: u8 where "ATA_STATUS_DF = 0x20"
definition ATA_STATUS_BSY :: u8 where "ATA_STATUS_BSY = 0x80"
definition ATA_CMD_READ_PIO :: u8 where "ATA_CMD_READ_PIO = 0x20"
definition ATA_CMD_READ_PIO_EXT :: u8 where "ATA_CMD_READ_PIO_EXT = 0x24"
definition ATA_CMD_WRITE_PIO :: u8 where "ATA_CMD_WRITE_PIO = 0x30"
definition ATA_CMD_WRITE_PIO_EXT :: u8 where "ATA_CMD_WRITE_PIO_EXT = 0x34"
definition ATA_CMD_FLUSH :: u8 where "ATA_CMD_FLUSH = 0xE7"
definition ATA_CMD_FLUSH_EXT :: u8 where "ATA_CMD_FLUSH_EXT = 0xEA"
definition ATA_CMD_IDENTIFY :: u8 where "ATA_CMD_IDENTIFY = 0xEC"

definition ata_delay :: "hardware \<Rightarrow> 'a ports_scheme \<Rightarrow> u16 \<Rightarrow> 'a ports_scheme" where
  "ata_delay hw w ctrl = fst (inb hw (fst (inb hw (fst (inb hw (fst (inb hw w ctrl)) ctrl)) ctrl)) ctrl)"

definition ATA_TIMEOUT :: nat where "ATA_TIMEOUT = 1000000"

fun ready_loop :: "hardware \<Rightarrow> u16 \<Rightarrow> nat \<Rightarrow> 'a ports_scheme \<Rightarrow> 'a ports_scheme \<times> int" where
  "ready_loop hw io 0 w = (w, - 1)"
| "ready_loop hw io (Suc n) w =
     (case inb hw w (io + ATA_REG_STATUS) of (w, status) \<Rightarrow>
        if status AND ATA_STATUS_BSY = 0 then (w, 0) else ready_loop hw io n w)"

definition ata_wait_ready :: "hardware \<Rightarrow> 'a ports_scheme \<Rightarrow> u16 \<Rightarrow> u16 \<Rightarrow> 'a ports_scheme \<times> int" where
  "ata_wait_ready hw w io ctrl = ready_loop hw io ATA_TIMEOUT (ata_delay hw w ctrl)"

fun drq_loop :: "hardware \<Rightarrow> u16 \<Rightarrow> nat \<Rightarrow> 'a ports_scheme \<Rightarrow> 'a ports_scheme \<times> int" where
  "drq_loop hw io 0 w = (w, - 1)"
| "drq_loop hw io (Suc n) w =
     (case inb hw w (io + ATA_REG_STATUS) of (w, status) \<Rightarrow>
        if status AND (ATA_STATUS_ERR OR ATA_STATUS_DF) \<noteq> 0 then (w, - 1)
        else if status AND ATA_STATUS_BSY = 0 \<and> status AND ATA_STATUS_DRQ \<noteq> 0 then (w, 0)
        else drq_loop hw io n w)"

definition ata_wait_drq :: "hardware \<Rightarrow> 'a ports_scheme \<Rightarrow> u16 \<Rightarrow> u16 \<Rightarrow> 'a ports_scheme \<times> int" where
  "ata_wait_drq hw w io ctrl = drq_loop hw io ATA_TIMEOUT (ata_delay hw w ctrl)"

section \<open>Sectors\<close>

text \<open>The address of one sector and the command.\<close>

definition ata_command :: "hardware \<Rightarrow> 'a ports_scheme \<Rightarrow> ata_drive \<Rightarrow> u64 \<Rightarrow> u8 \<Rightarrow> u8 \<Rightarrow> 'a ports_scheme" where
  "ata_command hw w d lba cmd cmd_ext =
     (if 0x0FFFFFFF < lba then
        let w = outb w (io_base d + ATA_REG_DRIVE) (0x40 OR push_bit 4 (drive_num d));
            w = ata_delay hw w (ctrl_base d);
            w = outb w (io_base d + ATA_REG_SEC_COUNT) 0;
            w = outb w (io_base d + ATA_REG_LBA_LO) (ucast (drop_bit 24 lba));
            w = outb w (io_base d + ATA_REG_LBA_MID) (ucast (drop_bit 32 lba));
            w = outb w (io_base d + ATA_REG_LBA_HI) (ucast (drop_bit 40 lba));
            w = outb w (io_base d + ATA_REG_SEC_COUNT) 1;
            w = outb w (io_base d + ATA_REG_LBA_LO) (ucast lba);
            w = outb w (io_base d + ATA_REG_LBA_MID) (ucast (drop_bit 8 lba));
            w = outb w (io_base d + ATA_REG_LBA_HI) (ucast (drop_bit 16 lba))
        in outb w (io_base d + ATA_REG_COMMAND) cmd_ext
      else
        let w = outb w (io_base d + ATA_REG_DRIVE) (0xE0 OR push_bit 4 (drive_num d) OR (ucast (drop_bit 24 lba) AND 0x0F));
            w = ata_delay hw w (ctrl_base d);
            w = outb w (io_base d + ATA_REG_SEC_COUNT) 1;
            w = outb w (io_base d + ATA_REG_LBA_LO) (ucast lba);
            w = outb w (io_base d + ATA_REG_LBA_MID) (ucast (drop_bit 8 lba));
            w = outb w (io_base d + ATA_REG_LBA_HI) (ucast (drop_bit 16 lba))
        in outb w (io_base d + ATA_REG_COMMAND) cmd)"

fun read_words :: "hardware \<Rightarrow> u16 \<Rightarrow> nat \<Rightarrow> 'a ports_scheme \<Rightarrow> 'a ports_scheme \<times> u16 list" where
  "read_words hw port 0 w = (w, [])"
| "read_words hw port (Suc n) w =
     (case inw hw w port of (w, v) \<Rightarrow> (case read_words hw port n w of (w, vs) \<Rightarrow> (w, v # vs)))"

fun write_words :: "u16 \<Rightarrow> nat \<Rightarrow> bytes \<Rightarrow> 'a ports_scheme \<Rightarrow> 'a ports_scheme option" where
  "write_words port 0 bs w = Some w"
| "write_words port (Suc n) bs w = do { v \<leftarrow> rd16 bs 0; write_words port n (drop 2 bs) (outw w port v) }"

text \<open>The loop over the sectors: the bytes stored in the buffer so far are part of the result.\<close>

fun ata_read_loop :: "hardware \<Rightarrow> ata_drive \<Rightarrow> u64 \<Rightarrow> nat \<Rightarrow> 'a ports_scheme \<Rightarrow> 'a ports_scheme \<times> bytes \<times> int" where
  "ata_read_loop hw d lba 0 w = (w, [], 0)"
| "ata_read_loop hw d lba (Suc n) w =
     (case ata_wait_ready hw w (io_base d) (ctrl_base d) of (w, r) \<Rightarrow>
        if r \<noteq> 0 then (w, [], - 1)
        else
          (case ata_wait_drq hw (ata_command hw w d lba ATA_CMD_READ_PIO ATA_CMD_READ_PIO_EXT) (io_base d) (ctrl_base d) of (w, r) \<Rightarrow>
             if r \<noteq> 0 then (w, [], - 1)
             else
               (case read_words hw (io_base d + ATA_REG_DATA) 256 w of (w, vs) \<Rightarrow>
                  (case ata_read_loop hw d (lba + 1) n w of (w, bs, r) \<Rightarrow> (w, concat (map put16 vs) @ bs, r)))))"

definition ata_read_sectors :: "hardware \<Rightarrow> 'a ports_scheme \<Rightarrow> ata_drive \<Rightarrow> u64 \<Rightarrow> u32 \<Rightarrow> 'a ports_scheme \<times> bytes \<times> int" where
  "ata_read_sectors hw w d lba count =
     (if \<not> drive_exists d \<or> count = 0 then (w, [], - 1)
      else if sector_count d < lba + ucast count then (w, [], - 1)
      else ata_read_loop hw d lba (unat count) w)"

fun ata_write_loop :: "hardware \<Rightarrow> ata_drive \<Rightarrow> u64 \<Rightarrow> nat \<Rightarrow> bytes \<Rightarrow> 'a ports_scheme \<Rightarrow> ('a ports_scheme \<times> int) option" where
  "ata_write_loop hw d lba 0 bs w = Some (w, 0)"
| "ata_write_loop hw d lba (Suc n) bs w =
     (case ata_wait_ready hw w (io_base d) (ctrl_base d) of (w, r) \<Rightarrow>
        if r \<noteq> 0 then Some (w, - 1)
        else
          (case ata_wait_drq hw (ata_command hw w d lba ATA_CMD_WRITE_PIO ATA_CMD_WRITE_PIO_EXT) (io_base d) (ctrl_base d) of (w, r) \<Rightarrow>
             if r \<noteq> 0 then Some (w, - 1)
             else do {
               w \<leftarrow> write_words (io_base d + ATA_REG_DATA) 256 bs w;
               let w = outb w (io_base d + ATA_REG_COMMAND) (if 0x0FFFFFFF < lba then ATA_CMD_FLUSH_EXT else ATA_CMD_FLUSH)
               in ata_write_loop hw d (lba + 1) n (drop 512 bs) (fst (ata_wait_ready hw w (io_base d) (ctrl_base d)))
             }))"

definition ata_write_sectors :: "hardware \<Rightarrow> 'a ports_scheme \<Rightarrow> ata_drive \<Rightarrow> u64 \<Rightarrow> u32 \<Rightarrow> bytes \<Rightarrow> ('a ports_scheme \<times> int) option" where
  "ata_write_sectors hw w d lba count bs =
     (if \<not> drive_exists d \<or> count = 0 then Some (w, - 1)
      else if sector_count d < lba + ucast count then Some (w, - 1)
      else ata_write_loop hw d lba (unat count) bs w)"

text \<open>The function pointers of the block device of a drive.\<close>

definition ata_dev_read_blocks :: "hardware \<Rightarrow> 'a ata_scheme \<Rightarrow> static_ptr \<Rightarrow> u64 \<Rightarrow> u32 \<Rightarrow> 'a ata_scheme \<times> bytes \<times> int" where
  "ata_dev_read_blocks hw w dev lba count =
     (case bd_priv_data (block_dev_at w dev) of
        None \<Rightarrow> (w, [], - 1)
      | Some p \<Rightarrow> ata_read_sectors hw w (drives w ! static_idx p) lba count)"

definition ata_dev_write_blocks :: "hardware \<Rightarrow> 'a ata_scheme \<Rightarrow> static_ptr \<Rightarrow> u64 \<Rightarrow> u32 \<Rightarrow> bytes \<Rightarrow> ('a ata_scheme \<times> int) option" where
  "ata_dev_write_blocks hw w dev lba count bs =
     (case bd_priv_data (block_dev_at w dev) of
        None \<Rightarrow> Some (w, - 1)
      | Some p \<Rightarrow> ata_write_sectors hw w (drives w ! static_idx p) lba count bs)"

section \<open>Probing\<close>

fun trim_spaces :: "nat \<Rightarrow> bytes \<Rightarrow> bytes" where
  "trim_spaces 0 bs = bs"
| "trim_spaces (Suc i) bs = (if bs ! i = 32 then trim_spaces i (bs[i := 0]) else bs)"

text \<open>A string of the identification data: two characters per word, padded with spaces.\<close>

definition ident_string :: "u16 list \<Rightarrow> nat \<Rightarrow> nat \<Rightarrow> bytes" where
  "ident_string ws i n =
     trim_spaces (2 * n) (concat (map (\<lambda>v. [ucast (drop_bit 8 v), ucast (v AND 0xFF)]) (take n (drop i ws))) @ [0])"

definition ident_sectors :: "u16 list \<Rightarrow> u64" where
  "ident_sectors ws =
     (if ws ! 83 AND push_bit 10 1 \<noteq> 0 then
        push_bit 48 (ucast (ws ! 103)) OR push_bit 32 (ucast (ws ! 102)) OR push_bit 16 (ucast (ws ! 101)) OR ucast (ws ! 100)
      else ucast ((push_bit 16 (ucast (ws ! 61)) :: u32) OR ucast (ws ! 60)))"

definition set_drive :: "nat \<Rightarrow> ata_drive \<Rightarrow> 'a ata_scheme \<Rightarrow> 'a ata_scheme" where
  "set_drive i d w = w\<lparr>drives := (drives w)[i := d]\<rparr>"

text \<open>The drive after its identification data has been read.\<close>

definition ident_drive :: "u16 list \<Rightarrow> nat \<Rightarrow> nat \<Rightarrow> ata_drive \<Rightarrow> ata_drive option" where
  "ident_drive ws online index d = do {
     nm \<leftarrow> kstrncpy (Some (bd_name (drive_block_dev d))) (Some [97, 116, 97, of_nat (48 + online), 0]) 32;
     Some (d\<lparr>drive_exists := True, drive_model := ident_string ws 27 20, drive_serial := ident_string ws 10 10,
       lba48_supported := (ws ! 83 AND push_bit 10 1 \<noteq> 0), sector_count := ident_sectors ws,
       drive_block_dev := \<lparr>bd_name = the nm, bd_total_sectors = ident_sectors ws, bd_sector_size = BLOCK_SECTOR_SIZE,
         bd_priv_data = Some (drive_ptr index)\<rparr>\<rparr>)
   }"

definition ata_identify_drive :: "hardware \<Rightarrow> 'a ata_scheme \<Rightarrow> u16 \<Rightarrow> u16 \<Rightarrow> u8 \<Rightarrow> nat \<Rightarrow> 'a ata_scheme option" where
  "ata_identify_drive hw w io ctrl num index =
     (let d = (drives w ! index)\<lparr>io_base := io, ctrl_base := ctrl, drive_num := num, drive_exists := False\<rparr>;
          w = set_drive index d w;
          w = outb w (io + ATA_REG_DRIVE) (0xA0 OR push_bit 4 num);
          w = ata_delay hw w ctrl;
          w = outb w (io + ATA_REG_SEC_COUNT) 0;
          w = outb w (io + ATA_REG_LBA_LO) 0;
          w = outb w (io + ATA_REG_LBA_MID) 0;
          w = outb w (io + ATA_REG_LBA_HI) 0;
          w = outb w (io + ATA_REG_COMMAND) ATA_CMD_IDENTIFY;
          w = ata_delay hw w ctrl;
          (w, status) = inb hw w (io + ATA_REG_STATUS)
      in if status = 0 \<or> status = 0xFF then Some w
         else
           let (w, r) = ata_wait_ready hw w io ctrl in
           if r \<noteq> 0 then Some w
           else
             let (w, lba_mid) = inb hw w (io + ATA_REG_LBA_MID); (w, lba_hi) = inb hw w (io + ATA_REG_LBA_HI) in
             if lba_mid = 0x14 \<and> lba_hi = 0xEB \<or> lba_mid = 0x69 \<and> lba_hi = 0x96 then Some w
             else
               let (w, r) = ata_wait_drq hw w io ctrl in
               if r \<noteq> 0 then Some w
               else
                 let (w, ws) = read_words hw (io + ATA_REG_DATA) 256 w in do {
                   d \<leftarrow> ident_drive ws (total_drives w) index d;
                   let w = fst (block_register_device (set_drive index d w) (Some (drive_ptr index)))
                   in Some (w\<lparr>total_drives := total_drives w + 1\<rparr>)
                 })"

definition ata_init :: "hardware \<Rightarrow> 'a ata_scheme \<Rightarrow> 'a ata_scheme option" where
  "ata_init hw w = do {
     w \<leftarrow> ata_identify_drive hw (w\<lparr>total_drives := 0\<rparr>) ATA_PRIMARY_IO ATA_PRIMARY_CTRL 0 0;
     w \<leftarrow> ata_identify_drive hw w ATA_PRIMARY_IO ATA_PRIMARY_CTRL 1 1;
     w \<leftarrow> ata_identify_drive hw w ATA_SECONDARY_IO ATA_SECONDARY_CTRL 0 2;
     ata_identify_drive hw w ATA_SECONDARY_IO ATA_SECONDARY_CTRL 1 3
   }"

definition ata_get_primary_drive :: "'a ata_scheme \<Rightarrow> nat option" where
  "ata_get_primary_drive w = scan drive_exists (drives w)"

text \<open>The function pointers of a block device, and those the driver installs.\<close>

record 'w blk_ops =
  blk_read :: "'w \<Rightarrow> static_ptr \<Rightarrow> u64 \<Rightarrow> u32 \<Rightarrow> 'w \<times> bytes \<times> int"
  blk_write :: "'w \<Rightarrow> static_ptr \<Rightarrow> u64 \<Rightarrow> u32 \<Rightarrow> bytes \<Rightarrow> ('w \<times> int) option"

definition ata_blk :: "hardware \<Rightarrow> 'a ata_scheme blk_ops" where
  "ata_blk hw = \<lparr>blk_read = ata_dev_read_blocks hw, blk_write = ata_dev_write_blocks hw\<rparr>"

end
