(* ===== verification/Ext2.thy ===== *)
theory Ext2
  imports Ata
begin

text \<open>
  The second extended file system, \<^verbatim>\<open>kernel/fs/ext2/ext2.c\<close>, on a block device whose operations are
  the parameter \<open>bd\<close>.

  The structures of the disk (superblock, group descriptors, inodes, directory entries) are
  overlaid on byte buffers as in the code, with their fields read and written at the offsets of
  the packed structs.  A static buffer whose old contents can be observed is part of the
  state; the contents a read leaves in a buffer are blitted over it, and \<open>None\<close> is an access outside a
  buffer, a division by zero or a shift by the width or more.  There is one mounted volume, so the pointer
  to it in the nodes is left out.  Console output is left out.
\<close>

section \<open>State\<close>

definition set16 :: "bytes \<Rightarrow> nat \<Rightarrow> u16 \<Rightarrow> bytes" where
  "set16 bs i v = take i bs @ put16 v @ drop (i + 2) bs"

definition set32 :: "bytes \<Rightarrow> nat \<Rightarrow> u32 \<Rightarrow> bytes" where
  "set32 bs i v = take i bs @ put32 v @ drop (i + 4) bs"

record ext2_fs =
  fs_dev :: "static_ptr option"
  fs_sb :: bytes
  block_size :: u32
  sectors_per_block :: u32
  group_count :: u32
  fs_bgds :: bytes
  inode_size :: u32

record ext2_node_info =
  ni_ino :: u32
  ni_inode :: bytes

text \<open>The static buffers of \<open>ext2_read_inode\<close>, \<open>ext2_write_inode\<close>, \<open>ext2_alloc_block\<close>, \<open>ext2_alloc_inode\<close>, \<open>ext2_vfs_write\<close> and \<open>ext2_vfs_create\<close>.\<close>

record ext2_bufs =
  buf_read_inode :: bytes
  buf_write_inode :: bytes
  buf_block_bitmap :: bytes
  buf_inode_bitmap :: bytes
  buf_write :: bytes
  buf_dir :: bytes

record ext2 = ata +
  primary_ext2 :: ext2_fs
  primary_ext2_initialized :: bool
  node_pool :: "ext2_node_info list"
  pool_count :: nat
  e2_bufs :: ext2_bufs

abbreviation e2fs :: "'a ext2_scheme \<Rightarrow> ext2_fs" where
  "e2fs w \<equiv> primary_ext2 w"

definition vfs_node_pool :: "nat \<Rightarrow> static_ptr" where
  "vfs_node_pool i = Static ''vfs_node_pool'' i"

definition EXT2_SUPER_MAGIC :: u16 where "EXT2_SUPER_MAGIC = 0xEF53"
definition EXT2_ROOT_INO :: u32 where "EXT2_ROOT_INO = 2"
definition EXT2_S_IFMT :: u16 where "EXT2_S_IFMT = 0xF000"
definition EXT2_S_IFREG :: u16 where "EXT2_S_IFREG = 0x8000"
definition EXT2_S_IFDIR :: u16 where "EXT2_S_IFDIR = 0x4000"
definition EXT2_FT_REG_FILE :: u8 where "EXT2_FT_REG_FILE = 1"
definition EXT2_FT_DIR :: u8 where "EXT2_FT_DIR = 2"

text \<open>Fields of the superblock.\<close>

definition s_blocks_count :: "bytes \<Rightarrow> u32" where "s_blocks_count sb = get32 sb 4"
definition s_free_blocks_count :: "bytes \<Rightarrow> u32" where "s_free_blocks_count sb = get32 sb 12"
definition s_free_inodes_count :: "bytes \<Rightarrow> u32" where "s_free_inodes_count sb = get32 sb 16"
definition s_first_data_block :: "bytes \<Rightarrow> u32" where "s_first_data_block sb = get32 sb 20"
definition s_log_block_size :: "bytes \<Rightarrow> u32" where "s_log_block_size sb = get32 sb 24"
definition s_blocks_per_group :: "bytes \<Rightarrow> u32" where "s_blocks_per_group sb = get32 sb 32"
definition s_inodes_per_group :: "bytes \<Rightarrow> u32" where "s_inodes_per_group sb = get32 sb 40"
definition s_magic :: "bytes \<Rightarrow> u16" where "s_magic sb = get16 sb 56"
definition s_rev_level :: "bytes \<Rightarrow> u32" where "s_rev_level sb = get32 sb 76"
definition s_inode_size :: "bytes \<Rightarrow> u16" where "s_inode_size sb = get16 sb 88"

text \<open>Fields of the descriptor of group \<open>bg\<close>; the table has 64 entries of 32 bytes.\<close>

definition bg_block_bitmap :: "ext2_fs \<Rightarrow> u32 \<Rightarrow> u32 option" where "bg_block_bitmap f bg = rd32 (fs_bgds f) (32 * unat bg)"
definition bg_inode_bitmap :: "ext2_fs \<Rightarrow> u32 \<Rightarrow> u32 option" where "bg_inode_bitmap f bg = rd32 (fs_bgds f) (32 * unat bg + 4)"
definition bg_inode_table :: "ext2_fs \<Rightarrow> u32 \<Rightarrow> u32 option" where "bg_inode_table f bg = rd32 (fs_bgds f) (32 * unat bg + 8)"
definition bg_free_blocks_count :: "ext2_fs \<Rightarrow> u32 \<Rightarrow> u16 option" where "bg_free_blocks_count f bg = rd16 (fs_bgds f) (32 * unat bg + 12)"
definition bg_free_inodes_count :: "ext2_fs \<Rightarrow> u32 \<Rightarrow> u16 option" where "bg_free_inodes_count f bg = rd16 (fs_bgds f) (32 * unat bg + 14)"

text \<open>Fields of an inode of 128 bytes.\<close>

definition i_mode :: "bytes \<Rightarrow> u16" where "i_mode ino = get16 ino 0"
definition i_size :: "bytes \<Rightarrow> u32" where "i_size ino = get32 ino 4"
definition i_blocks :: "bytes \<Rightarrow> u32" where "i_blocks ino = get32 ino 28"
definition i_block :: "bytes \<Rightarrow> nat \<Rightarrow> u32" where "i_block ino k = get32 ino (40 + 4 * k)"

section \<open>Blocks and inodes\<close>

text \<open>The state, the buffer after the read, and the code.\<close>

definition ext2_read_block :: "'a ext2_scheme blk_ops \<Rightarrow> 'a ext2_scheme \<Rightarrow> u32 \<Rightarrow> bytes \<Rightarrow> ('a ext2_scheme \<times> bytes \<times> int) option" where
  "ext2_read_block bd w block_num buf =
     (case fs_dev (e2fs w) of
        None \<Rightarrow> Some (w, buf, - 1)
      | Some dev \<Rightarrow>
          (case blk_read bd w dev (ucast block_num * ucast (sectors_per_block (e2fs w))) (sectors_per_block (e2fs w)) of (w, bs, r) \<Rightarrow>
             map_option (\<lambda>buf. (w, buf, r)) (blit buf 0 bs)))"

definition ext2_write_block :: "'a ext2_scheme blk_ops \<Rightarrow> 'a ext2_scheme \<Rightarrow> u32 \<Rightarrow> bytes \<Rightarrow> ('a ext2_scheme \<times> int) option" where
  "ext2_write_block bd w block_num buf =
     (case fs_dev (e2fs w) of
        None \<Rightarrow> Some (w, - 1)
      | Some dev \<Rightarrow> blk_write bd w dev (ucast block_num * ucast (sectors_per_block (e2fs w))) (sectors_per_block (e2fs w)) buf)"

text \<open>The block of the inode table that holds an inode and the offset in it; \<open>None\<close> inside for a group that does not exist.\<close>

definition inode_place :: "ext2_fs \<Rightarrow> u32 \<Rightarrow> (u32 \<times> nat) option option" where
  "inode_place f ino =
     (let ipg = s_inodes_per_group (fs_sb f) in
      if ipg = 0 then None
      else
        let bg = (ino - 1) div ipg; idx = (ino - 1) mod ipg in
        if group_count f \<le> bg then Some None
        else do {
          table \<leftarrow> bg_inode_table f bg;
          if block_size f = 0 then None
          else Some (Some (table + idx * inode_size f div block_size f, unat (idx * inode_size f mod block_size f)))
        })"

definition ext2_read_inode :: "'a ext2_scheme blk_ops \<Rightarrow> 'a ext2_scheme \<Rightarrow> u32 \<Rightarrow> ('a ext2_scheme \<times> bytes \<times> int) option" where
  "ext2_read_inode bd w ino =
     (if ino = 0 then Some (w, [], - 1)
      else do {
        place \<leftarrow> inode_place (e2fs w) ino;
        (case place of
           None \<Rightarrow> Some (w, [], - 1)
         | Some (blk, off) \<Rightarrow> do {
             (w, buf, r) \<leftarrow> ext2_read_block bd w blk (buf_read_inode (e2_bufs w));
             let w = w\<lparr>e2_bufs := (e2_bufs w)\<lparr>buf_read_inode := buf\<rparr>\<rparr> in
             if r \<noteq> 0 then Some (w, [], - 1)
             else do { inode \<leftarrow> slice buf off 128; Some (w, inode, 0) }
           })
      })"

definition ext2_write_inode :: "'a ext2_scheme blk_ops \<Rightarrow> 'a ext2_scheme \<Rightarrow> u32 \<Rightarrow> bytes \<Rightarrow> ('a ext2_scheme \<times> int) option" where
  "ext2_write_inode bd w ino inode =
     (if ino = 0 then Some (w, - 1)
      else do {
        place \<leftarrow> inode_place (e2fs w) ino;
        (case place of
           None \<Rightarrow> Some (w, - 1)
         | Some (blk, off) \<Rightarrow> do {
             (w, buf, r) \<leftarrow> ext2_read_block bd w blk (buf_write_inode (e2_bufs w));
             let w = w\<lparr>e2_bufs := (e2_bufs w)\<lparr>buf_write_inode := buf\<rparr>\<rparr> in
             if r \<noteq> 0 then Some (w, - 1)
             else do {
               buf \<leftarrow> blit buf off inode;
               ext2_write_block bd (w\<lparr>e2_bufs := (e2_bufs w)\<lparr>buf_write_inode := buf\<rparr>\<rparr>) blk buf
             }
           })
      })"

section \<open>Allocation\<close>

text \<open>The first clear bit from \<open>b\<close> on, of \<open>n\<close> more.\<close>

fun first_clear :: "bytes \<Rightarrow> nat \<Rightarrow> nat \<Rightarrow> nat option option" where
  "first_clear bm b 0 = Some None"
| "first_clear bm b (Suc n) = do {
     v \<leftarrow> at_idx bm (b div 8);
     if v AND push_bit (b mod 8) 1 = 0 then Some (Some b) else first_clear bm (b + 1) n
   }"

definition set_bit_at :: "bytes \<Rightarrow> nat \<Rightarrow> bytes" where
  "set_bit_at bm b = bm[b div 8 := bm ! (b div 8) OR push_bit (b mod 8) 1]"

definition take_block :: "u32 \<Rightarrow> ext2_fs \<Rightarrow> ext2_fs" where
  "take_block bg f = f\<lparr>fs_bgds := set16 (fs_bgds f) (32 * unat bg + 12) (get16 (fs_bgds f) (32 * unat bg + 12) - 1),
     fs_sb := set32 (fs_sb f) 12 (s_free_blocks_count (fs_sb f) - 1)\<rparr>"

fun alloc_block_loop :: "'a ext2_scheme blk_ops \<Rightarrow> u32 \<Rightarrow> nat \<Rightarrow> 'a ext2_scheme \<Rightarrow> ('a ext2_scheme \<times> u32) option" where
  "alloc_block_loop bd bg 0 w = Some (w, 0)"
| "alloc_block_loop bd bg (Suc n) w = do {
     free \<leftarrow> bg_free_blocks_count (e2fs w) bg;
     if free = 0 then alloc_block_loop bd (bg + 1) n w
     else do {
       blk \<leftarrow> bg_block_bitmap (e2fs w) bg;
       (w, bm, r) \<leftarrow> ext2_read_block bd w blk (buf_block_bitmap (e2_bufs w));
       let w = w\<lparr>e2_bufs := (e2_bufs w)\<lparr>buf_block_bitmap := bm\<rparr>\<rparr> in
       if r \<noteq> 0 then alloc_block_loop bd (bg + 1) n w
       else do {
         found \<leftarrow> first_clear bm 0 (unat (s_blocks_per_group (fs_sb (e2fs w))));
         (case found of
            None \<Rightarrow> alloc_block_loop bd (bg + 1) n w
          | Some b \<Rightarrow> do {
              (w, r) \<leftarrow> ext2_write_block bd (w\<lparr>e2_bufs := (e2_bufs w)\<lparr>buf_block_bitmap := set_bit_at bm b\<rparr>\<rparr>) blk (set_bit_at bm b);
              let w = w\<lparr>primary_ext2 := take_block bg (e2fs w)\<rparr>
              in Some (w, bg * s_blocks_per_group (fs_sb (e2fs w)) + of_nat b + s_first_data_block (fs_sb (e2fs w)))
            })
       }
     }
   }"

definition ext2_alloc_block :: "'a ext2_scheme blk_ops \<Rightarrow> 'a ext2_scheme \<Rightarrow> ('a ext2_scheme \<times> u32) option" where
  "ext2_alloc_block bd w = alloc_block_loop bd 0 (unat (group_count (e2fs w))) w"

definition take_inode :: "u32 \<Rightarrow> ext2_fs \<Rightarrow> ext2_fs" where
  "take_inode bg f = f\<lparr>fs_bgds := set16 (fs_bgds f) (32 * unat bg + 14) (get16 (fs_bgds f) (32 * unat bg + 14) - 1),
     fs_sb := set32 (fs_sb f) 16 (s_free_inodes_count (fs_sb f) - 1)\<rparr>"

fun alloc_inode_loop :: "'a ext2_scheme blk_ops \<Rightarrow> u32 \<Rightarrow> nat \<Rightarrow> 'a ext2_scheme \<Rightarrow> ('a ext2_scheme \<times> u32) option" where
  "alloc_inode_loop bd bg 0 w = Some (w, 0)"
| "alloc_inode_loop bd bg (Suc n) w = do {
     free \<leftarrow> bg_free_inodes_count (e2fs w) bg;
     if free = 0 then alloc_inode_loop bd (bg + 1) n w
     else do {
       blk \<leftarrow> bg_inode_bitmap (e2fs w) bg;
       (w, bm, r) \<leftarrow> ext2_read_block bd w blk (buf_inode_bitmap (e2_bufs w));
       let w = w\<lparr>e2_bufs := (e2_bufs w)\<lparr>buf_inode_bitmap := bm\<rparr>\<rparr> in
       if r \<noteq> 0 then alloc_inode_loop bd (bg + 1) n w
       else do {
         found \<leftarrow> first_clear bm 0 (unat (s_inodes_per_group (fs_sb (e2fs w))));
         (case found of
            None \<Rightarrow> alloc_inode_loop bd (bg + 1) n w
          | Some b \<Rightarrow> do {
              (w, r) \<leftarrow> ext2_write_block bd (w\<lparr>e2_bufs := (e2_bufs w)\<lparr>buf_inode_bitmap := set_bit_at bm b\<rparr>\<rparr>) blk (set_bit_at bm b);
              let w = w\<lparr>primary_ext2 := take_inode bg (e2fs w)\<rparr>
              in Some (w, bg * s_inodes_per_group (fs_sb (e2fs w)) + of_nat b + 1)
            })
       }
     }
   }"

definition ext2_alloc_inode :: "'a ext2_scheme blk_ops \<Rightarrow> 'a ext2_scheme \<Rightarrow> ('a ext2_scheme \<times> u32) option" where
  "ext2_alloc_inode bd w = alloc_inode_loop bd 0 (unat (group_count (e2fs w))) w"

section \<open>Blocks of a file\<close>

text \<open>A word of an indirect block; the buffers hold 1024 words.\<close>

definition indirect_entry :: "'a ext2_scheme blk_ops \<Rightarrow> 'a ext2_scheme \<Rightarrow> u32 \<Rightarrow> nat \<Rightarrow> ('a ext2_scheme \<times> u32) option" where
  "indirect_entry bd w blk k =
     (if blk = 0 then Some (w, 0)
      else do {
        (w, buf, r) \<leftarrow> ext2_read_block bd w blk (replicate 4096 0);
        if r \<noteq> 0 then Some (w, 0) else do { v \<leftarrow> rd32 buf (4 * k); Some (w, v) }
      })"

definition ext2_get_file_block :: "'a ext2_scheme blk_ops \<Rightarrow> 'a ext2_scheme \<Rightarrow> bytes \<Rightarrow> u32 \<Rightarrow> ('a ext2_scheme \<times> u32) option" where
  "ext2_get_file_block bd w inode n =
     (if n < 12 then Some (w, i_block inode (unat n))
      else
        let ptrs = block_size (e2fs w) div 4; n = n - 12 in
        if n < ptrs then indirect_entry bd w (i_block inode 12) (unat n)
        else
          let n = n - ptrs in
          if n < ptrs * ptrs then do {
            (w, sec) \<leftarrow> indirect_entry bd w (i_block inode 13) (unat (n div ptrs));
            indirect_entry bd w sec (unat (n mod ptrs))
          }
          else Some (w, 0))"

section \<open>Nodes\<close>

definition ext2_create_vfs_node :: "'a ext2_scheme \<Rightarrow> u32 \<Rightarrow> bytes \<Rightarrow> bytes \<Rightarrow> ('a ext2_scheme \<times> static_ptr option) option" where
  "ext2_create_vfs_node w ino name inode =
     (if 128 \<le> pool_count w then Some (w, None)
      else do {
        nm \<leftarrow> kstrncpy (Some (replicate 128 0)) (Some name) 128;
        let idx = pool_count w; dir = (i_mode inode AND EXT2_S_IFMT = EXT2_S_IFDIR);
            nd = vfs_node_zero\<lparr>vn_name := the nm, vn_inode := ino, vn_size := ucast (i_size inode),
              vn_permissions := ucast (i_mode inode AND 0x1FF), vn_priv_data := Some (Static ''node_pool'' idx),
              vn_type := (if dir then VFS_DIRECTORY else VFS_FILE),
              vn_ops := Some (if dir then ''ext2_dir_ops'' else ''ext2_file_ops'')\<rparr>
        in Some (w\<lparr>pool_count := idx + 1, node_pool := (node_pool w)[idx := \<lparr>ni_ino = ino, ni_inode = inode\<rparr>],
                   vnodes := (vnodes w)(vfs_node_pool idx := nd)\<rparr>, Some (vfs_node_pool idx))
      })"

section \<open>Reading and writing files\<close>

text \<open>
  The loop of \<open>ext2_vfs_read\<close> from position \<open>pos\<close> with \<open>n\<close> bytes to go: the bytes stored in the
  caller's buffer.  The block buffer on the stack has 1024 bytes.
\<close>

definition chunk_at :: "u32 \<Rightarrow> u64 \<Rightarrow> nat \<Rightarrow> nat" where
  "chunk_at bsize pos n = min (unat bsize - unat pos mod unat bsize) n"

lemma chunk_at_pos: "bsize \<noteq> 0 \<Longrightarrow> n \<noteq> 0 \<Longrightarrow> 0 < chunk_at bsize pos n"
  by (simp add: chunk_at_def unat_gt_0)

function ext2_read_loop :: "'a ext2_scheme blk_ops \<Rightarrow> bytes \<Rightarrow> u64 \<Rightarrow> nat \<Rightarrow> 'a ext2_scheme \<Rightarrow> ('a ext2_scheme \<times> bytes) option" where
  "ext2_read_loop bd inode pos n w =
     (let bsize = block_size (e2fs w); chunk = chunk_at bsize pos n in
      if n = 0 then Some (w, [])
      else if bsize = 0 then None
      else (case ext2_get_file_block bd w inode (ucast (pos div ucast bsize)) of
          None \<Rightarrow> None
        | Some (w1, phys) \<Rightarrow>
            (case (if phys = 0 then Some (w1, Some (replicate chunk 0))
                   else (case ext2_read_block bd w1 phys (replicate 1024 0) of
                       None \<Rightarrow> None
                     | Some (w2, buf, r) \<Rightarrow>
                         if r \<noteq> 0 then Some (w2, None)
                         else (case slice buf (unat (pos mod ucast bsize)) chunk of None \<Rightarrow> None | Some d \<Rightarrow> Some (w2, Some d)))) of
               None \<Rightarrow> None
             | Some (w2, None) \<Rightarrow> Some (w2, [])
             | Some (w2, Some d) \<Rightarrow>
                 (case ext2_read_loop bd inode (pos + of_nat chunk) (n - chunk) w2 of
                    None \<Rightarrow> None
                  | Some (w3, rest) \<Rightarrow> Some (w3, d @ rest)))))"
  by pat_completeness auto
termination
  by (relation "measure (\<lambda>(bd, inode, pos, n, w). n)") (auto simp: chunk_at_pos)

declare ext2_read_loop.simps [simp del]

definition node_info :: "'a ext2_scheme \<Rightarrow> static_ptr \<Rightarrow> nat option" where
  "node_info w node = map_option static_idx (vn_priv_data (vnodes w node))"

definition ext2_vfs_read :: "'a ext2_scheme blk_ops \<Rightarrow> 'a ext2_scheme \<Rightarrow> static_ptr \<Rightarrow> u64 \<Rightarrow> u64 \<Rightarrow> ('a ext2_scheme \<times> bytes \<times> int) option" where
  "ext2_vfs_read bd w node offset sz =
     (case node_info w node of
        None \<Rightarrow> Some (w, [], - 1)
      | Some k \<Rightarrow>
          let inode = ni_inode (node_pool w ! k); fsize = ucast (i_size inode) in
          if fsize \<le> offset then Some (w, [], 0)
          else do {
            (w, bs) \<leftarrow> ext2_read_loop bd inode offset (unat (if fsize < offset + sz then fsize - offset else sz)) w;
            Some (w, bs, sint (of_nat (length bs) :: u64))
          })"

definition set_inode :: "nat \<Rightarrow> bytes \<Rightarrow> 'a ext2_scheme \<Rightarrow> 'a ext2_scheme" where
  "set_inode k inode w = w\<lparr>node_pool := (node_pool w)[k := (node_pool w ! k)\<lparr>ni_inode := inode\<rparr>]\<rparr>"

definition set_write_buf :: "bytes \<Rightarrow> 'a ext2_scheme \<Rightarrow> 'a ext2_scheme" where
  "set_write_buf buf w = w\<lparr>e2_bufs := (e2_bufs w)\<lparr>buf_write := buf\<rparr>\<rparr>"

text \<open>The block for the data: allocated and cleared, or read.  \<open>False\<close> when the disk is full.\<close>

definition write_target :: "'a ext2_scheme blk_ops \<Rightarrow> nat \<Rightarrow> nat \<Rightarrow> 'a ext2_scheme \<Rightarrow> ('a ext2_scheme \<times> bool) option" where
  "write_target bd k fb w =
     (if i_block (ni_inode (node_pool w ! k)) fb = 0 then do {
        (w, new_blk) \<leftarrow> ext2_alloc_block bd w;
        if new_blk = 0 then Some (w, False)
        else
          let inode = set32 (ni_inode (node_pool w ! k)) (40 + 4 * fb) new_blk;
              inode = set32 inode 28 (i_blocks inode + block_size (e2fs w) div 512)
          in do {
            buf \<leftarrow> blit (buf_write (e2_bufs w)) 0 (replicate (unat (block_size (e2fs w))) 0);
            Some (set_write_buf buf (set_inode k inode w), True)
          }
      } else do {
        (w, buf, r) \<leftarrow> ext2_read_block bd w (i_block (ni_inode (node_pool w ! k)) fb) (buf_write (e2_bufs w));
        Some (set_write_buf buf w, True)
      })"

text \<open>The loop of \<open>ext2_vfs_write\<close>: the number of bytes written.\<close>

function ext2_write_loop :: "'a ext2_scheme blk_ops \<Rightarrow> nat \<Rightarrow> u64 \<Rightarrow> nat \<Rightarrow> bytes \<Rightarrow> 'a ext2_scheme \<Rightarrow> ('a ext2_scheme \<times> nat) option" where
  "ext2_write_loop bd k pos n data w =
     (let bsize = block_size (e2fs w); chunk = chunk_at bsize pos n; fb = (ucast (pos div ucast bsize) :: u32) in
      if n = 0 then Some (w, 0)
      else if bsize = 0 then None
      else if 12 \<le> fb then Some (w, 0)
      else (case write_target bd k (unat fb) w of
          None \<Rightarrow> None
        | Some (w1, False) \<Rightarrow> Some (w1, 0)
        | Some (w1, True) \<Rightarrow>
            (case (case slice data 0 chunk of None \<Rightarrow> None | Some d \<Rightarrow> blit (buf_write (e2_bufs w1)) (unat (pos mod ucast bsize)) d) of
               None \<Rightarrow> None
             | Some buf \<Rightarrow>
                 (case ext2_write_block bd (set_write_buf buf w1) (i_block (ni_inode (node_pool w1 ! k)) (unat fb)) buf of
                    None \<Rightarrow> None
                  | Some (w2, r) \<Rightarrow>
                      (case ext2_write_loop bd k (pos + of_nat chunk) (n - chunk) (drop chunk data) w2 of
                         None \<Rightarrow> None
                       | Some (w3, m) \<Rightarrow> Some (w3, chunk + m))))))"
  by pat_completeness auto
termination
  by (relation "measure (\<lambda>(bd, k, pos, n, data, w). n)") (auto simp: chunk_at_pos)

declare ext2_write_loop.simps [simp del]

definition ext2_vfs_write :: "'a ext2_scheme blk_ops \<Rightarrow> 'a ext2_scheme \<Rightarrow> static_ptr \<Rightarrow> u64 \<Rightarrow> u64 \<Rightarrow> bytes \<Rightarrow> ('a ext2_scheme \<times> int) option" where
  "ext2_vfs_write bd w node offset sz data =
     (case node_info w node of
        None \<Rightarrow> Some (w, - 1)
      | Some k \<Rightarrow> do {
          (w, m) \<leftarrow> ext2_write_loop bd k offset (unat sz) data w;
          let last = offset + of_nat m; inode = ni_inode (node_pool w ! k) in
          if ucast (i_size inode) < last then
            let inode = set32 inode 4 (ucast last);
                w = set_inode k inode w;
                w = w\<lparr>vnodes := (vnodes w)(node := (vnodes w node)\<lparr>vn_size := ucast (i_size inode)\<rparr>)\<rparr>
            in do {
              (w, r) \<leftarrow> ext2_write_inode bd w (ni_ino (node_pool w ! k)) inode;
              Some (w, sint (of_nat m :: u64))
            }
          else Some (w, sint (of_nat m :: u64))
        })"

section \<open>Directories\<close>

definition dir_blocks :: "ext2_fs \<Rightarrow> bytes \<Rightarrow> u32 option" where
  "dir_blocks f inode =
     (if block_size f = 0 then None
      else let n = (i_size inode + block_size f - 1) div block_size f in Some (if n = 0 then 1 else n))"

text \<open>The fields of the directory entry at offset \<open>off\<close> of a block buffer.\<close>

definition de_inode :: "bytes \<Rightarrow> nat \<Rightarrow> u32 option" where "de_inode buf off = rd32 buf off"
definition de_rec_len :: "bytes \<Rightarrow> nat \<Rightarrow> u16 option" where "de_rec_len buf off = rd16 buf (off + 4)"
definition de_name_len :: "bytes \<Rightarrow> nat \<Rightarrow> u8 option" where "de_name_len buf off = at_idx buf (off + 6)"
definition de_file_type :: "bytes \<Rightarrow> nat \<Rightarrow> u8 option" where "de_file_type buf off = at_idx buf (off + 7)"

text \<open>The test of \<open>ext2_vfs_finddir\<close> on one entry.\<close>

definition entry_matches :: "bytes \<Rightarrow> nat \<Rightarrow> bytes \<Rightarrow> bool option" where
  "entry_matches buf off name = do {
     ino \<leftarrow> de_inode buf off;
     if ino = 0 then Some False
     else do {
       nl \<leftarrow> de_name_len buf off;
       if nl = 0 then Some False
       else do {
         len \<leftarrow> kstrlen (Some name);
         if len \<noteq> unat nl then Some False
         else map_option (\<lambda>r. r = 0) (kstrncmp (Some name) (Some (drop (off + 8) buf)) (unat nl))
       }
     }
   }"

text \<open>The child node and code when an entry ends the search, \<open>None\<close> inside to go on.\<close>

function find_entry :: "'a ext2_scheme blk_ops \<Rightarrow> nat \<Rightarrow> bytes \<Rightarrow> nat \<Rightarrow> bytes \<Rightarrow> 'a ext2_scheme \<Rightarrow>
    ('a ext2_scheme \<times> (static_ptr option \<times> int) option) option" where
  "find_entry bd bsize buf off name w =
     (if bsize \<le> off then Some (w, None)
      else (case de_rec_len buf off of
          None \<Rightarrow> None
        | Some rl \<Rightarrow>
            if rl = 0 then Some (w, None)
            else (case entry_matches buf off name of
                None \<Rightarrow> None
              | Some m \<Rightarrow>
                  (case (if \<not> m then Some (w, None)
                         else do {
                           ino \<leftarrow> de_inode buf off;
                           nl \<leftarrow> de_name_len buf off;
                           (w1, child, r) \<leftarrow> ext2_read_inode bd w ino;
                           if r \<noteq> 0 then Some (w1, None)
                           else do {
                             nm \<leftarrow> slice buf (off + 8) (min (unat nl) 127);
                             (w2, out) \<leftarrow> ext2_create_vfs_node w1 ino (nm @ [0]) child;
                             Some (w2, Some (out, if out = None then - 1 else 0))
                           }
                         }) of
                     None \<Rightarrow> None
                   | Some (w1, Some res) \<Rightarrow> Some (w1, Some res)
                   | Some (w1, None) \<Rightarrow> find_entry bd bsize buf (off + unat rl) name w1))))"
  by pat_completeness auto
termination
  by (relation "measure (\<lambda>(bd, bsize, buf, off, name, w). bsize - off)") (auto simp: unat_gt_0 intro!: diff_less_mono2)

declare find_entry.simps [simp del]

fun find_blocks :: "'a ext2_scheme blk_ops \<Rightarrow> bytes \<Rightarrow> bytes \<Rightarrow> u32 \<Rightarrow> nat \<Rightarrow> 'a ext2_scheme \<Rightarrow>
    ('a ext2_scheme \<times> static_ptr option \<times> int) option" where
  "find_blocks bd inode name b 0 w = Some (w, None, - 1)"
| "find_blocks bd inode name b (Suc n) w = do {
     (w, phys) \<leftarrow> ext2_get_file_block bd w inode b;
     if phys = 0 then find_blocks bd inode name (b + 1) n w
     else do {
       (w, buf, r) \<leftarrow> ext2_read_block bd w phys (replicate 1024 0);
       if r \<noteq> 0 then find_blocks bd inode name (b + 1) n w
       else do {
         (w, res) \<leftarrow> find_entry bd (unat (block_size (e2fs w))) buf 0 name w;
         (case res of Some (out, r) \<Rightarrow> Some (w, out, r) | None \<Rightarrow> find_blocks bd inode name (b + 1) n w)
       }
     }
   }"

definition ext2_vfs_finddir :: "'a ext2_scheme blk_ops \<Rightarrow> 'a ext2_scheme \<Rightarrow> static_ptr \<Rightarrow> bytes \<Rightarrow>
    ('a ext2_scheme \<times> static_ptr option \<times> int) option" where
  "ext2_vfs_finddir bd w dir name =
     (case node_info w dir of
        None \<Rightarrow> Some (w, None, - 1)
      | Some k \<Rightarrow> do {
          n \<leftarrow> dir_blocks (e2fs w) (ni_inode (node_pool w ! k));
          find_blocks bd (ni_inode (node_pool w ! k)) name 0 (unat n) w
        })"

text \<open>The entry with a given index: the index still to go, or the entry.\<close>

function list_entry :: "nat \<Rightarrow> bytes \<Rightarrow> nat \<Rightarrow> nat \<Rightarrow> (nat + vfs_dirent) option" where
  "list_entry bsize buf off idx =
     (if bsize \<le> off then Some (Inl idx)
      else (case de_rec_len buf off of
          None \<Rightarrow> None
        | Some rl \<Rightarrow>
            if rl = 0 then Some (Inl idx)
            else (case do { ino \<leftarrow> de_inode buf off; if ino = 0 then Some False else do { nl \<leftarrow> de_name_len buf off; Some (nl \<noteq> 0) } } of
                None \<Rightarrow> None
              | Some used \<Rightarrow>
                  if used \<and> idx = 0 then do {
                    ino \<leftarrow> de_inode buf off;
                    nl \<leftarrow> de_name_len buf off;
                    ft \<leftarrow> de_file_type buf off;
                    nm \<leftarrow> slice buf (off + 8) (min (unat nl) 127);
                    Some (Inr \<lparr>d_ino = ino, d_name = nm @ [0], d_type = (if ft = EXT2_FT_DIR then ucast VFS_DIRECTORY else ucast VFS_FILE)\<rparr>)
                  }
                  else list_entry bsize buf (off + unat rl) (if used then idx - 1 else idx))))"
  by pat_completeness auto
termination
  by (relation "measure (\<lambda>(bsize, buf, off, idx). bsize - off)") (auto simp: unat_gt_0 intro!: diff_less_mono2)

declare list_entry.simps [simp del]

fun list_blocks :: "'a ext2_scheme blk_ops \<Rightarrow> bytes \<Rightarrow> u32 \<Rightarrow> nat \<Rightarrow> nat \<Rightarrow> 'a ext2_scheme \<Rightarrow>
    ('a ext2_scheme \<times> vfs_dirent option \<times> int) option" where
  "list_blocks bd inode b 0 idx w = Some (w, None, - 1)"
| "list_blocks bd inode b (Suc n) idx w = do {
     (w, phys) \<leftarrow> ext2_get_file_block bd w inode b;
     if phys = 0 then list_blocks bd inode (b + 1) n idx w
     else do {
       (w, buf, r) \<leftarrow> ext2_read_block bd w phys (replicate 1024 0);
       if r \<noteq> 0 then list_blocks bd inode (b + 1) n idx w
       else do {
         res \<leftarrow> list_entry (unat (block_size (e2fs w))) buf 0 idx;
         (case res of Inr d \<Rightarrow> Some (w, Some d, 0) | Inl idx \<Rightarrow> list_blocks bd inode (b + 1) n idx w)
       }
     }
   }"

definition ext2_vfs_readdir :: "'a ext2_scheme blk_ops \<Rightarrow> 'a ext2_scheme \<Rightarrow> static_ptr \<Rightarrow> u32 \<Rightarrow>
    ('a ext2_scheme \<times> vfs_dirent option \<times> int) option" where
  "ext2_vfs_readdir bd w dir index =
     (case node_info w dir of
        None \<Rightarrow> Some (w, None, - 1)
      | Some k \<Rightarrow> do {
          n \<leftarrow> dir_blocks (e2fs w) (ni_inode (node_pool w ! k));
          list_blocks bd (ni_inode (node_pool w ! k)) 0 (unat n) (unat index) w
        })"

text \<open>The space an entry with a name of the given length takes.\<close>

definition entry_space :: "u32 \<Rightarrow> u32" where
  "entry_space name_len = 8 + ((name_len + 3) AND NOT 3)"

text \<open>
  The walk over the entries of the directory block: the buffer with the new entry, or \<open>None\<close> inside
  when no entry has room behind it.
\<close>

function insert_entry :: "nat \<Rightarrow> bytes \<Rightarrow> nat \<Rightarrow> u32 \<Rightarrow> bytes \<Rightarrow> bytes option option" where
  "insert_entry bsize buf off ino name =
     (if bsize \<le> off then Some None
      else (case de_rec_len buf off of
          None \<Rightarrow> None
        | Some rl \<Rightarrow>
            if rl = 0 then Some None
            else (case (case de_name_len buf off of None \<Rightarrow> None | Some nl \<Rightarrow> Some (entry_space (ucast nl))) of
                None \<Rightarrow> None
              | Some used \<Rightarrow>
                  if used + entry_space (of_nat (length name)) \<le> ucast rl then do {
                    buf \<leftarrow> blit buf (off + 4) (put16 (ucast used));
                    buf \<leftarrow> blit buf (off + unat used) (put32 ino @ put16 (rl - ucast used) @ [of_nat (length name), EXT2_FT_REG_FILE] @ name);
                    Some (Some buf)
                  }
                  else insert_entry bsize buf (off + unat rl) ino name)))"
  by pat_completeness auto
termination
  by (relation "measure (\<lambda>(bsize, buf, off, ino, name). bsize - off)") (auto simp: unat_gt_0 intro!: diff_less_mono2)

declare insert_entry.simps [simp del]

definition set_dir_buf :: "bytes \<Rightarrow> 'a ext2_scheme \<Rightarrow> 'a ext2_scheme" where
  "set_dir_buf buf w = w\<lparr>e2_bufs := (e2_bufs w)\<lparr>buf_dir := buf\<rparr>\<rparr>"

definition new_file_inode :: "int \<Rightarrow> bytes" where
  "new_file_inode mode =
     set16 (set16 (replicate 128 0) 0 (EXT2_S_IFREG OR (if mode \<noteq> 0 then word_of_int (mode AND 0x1FF) else 0x1A4))) 26 1"

text \<open>The first block of the directory in \<open>dir_blk\<close>.\<close>

definition dir_block :: "'a ext2_scheme blk_ops \<Rightarrow> nat \<Rightarrow> 'a ext2_scheme \<Rightarrow> ('a ext2_scheme \<times> u32) option" where
  "dir_block bd k w = do {
     (w, phys) \<leftarrow> ext2_get_file_block bd w (ni_inode (node_pool w ! k)) 0;
     if phys = 0 then do {
       (w, phys) \<leftarrow> ext2_alloc_block bd w;
       let inode = set32 (ni_inode (node_pool w ! k)) 40 phys;
           inode = set32 inode 28 (i_blocks inode + block_size (e2fs w) div 512);
           inode = set32 inode 4 (block_size (e2fs w))
       in do {
         buf \<leftarrow> blit (buf_dir (e2_bufs w)) 0 (replicate (unat (block_size (e2fs w))) 0);
         let w = set_dir_buf buf (set_inode k inode w) in do {
           (w, r) \<leftarrow> ext2_write_inode bd w (ni_ino (node_pool w ! k)) inode;
           Some (w, phys)
         }
       }
     } else do {
       (w, buf, r) \<leftarrow> ext2_read_block bd w phys (buf_dir (e2_bufs w));
       Some (set_dir_buf buf w, phys)
     }
   }"

definition ext2_vfs_create :: "'a ext2_scheme blk_ops \<Rightarrow> 'a ext2_scheme \<Rightarrow> static_ptr \<Rightarrow> bytes \<Rightarrow> int \<Rightarrow>
    ('a ext2_scheme \<times> static_ptr option \<times> int) option" where
  "ext2_vfs_create bd w dir name mode =
     (case node_info w dir of
        None \<Rightarrow> Some (w, None, - 1)
      | Some k \<Rightarrow> do {
          (w, new_ino) \<leftarrow> ext2_alloc_inode bd w;
          if new_ino = 0 then Some (w, None, - 1)
          else do {
            (w, r) \<leftarrow> ext2_write_inode bd w new_ino (new_file_inode mode);
            (w, phys) \<leftarrow> dir_block bd k w;
            len \<leftarrow> kstrlen (Some name);
            ins \<leftarrow> insert_entry (unat (block_size (e2fs w))) (buf_dir (e2_bufs w)) 0 new_ino (take len name);
            w \<leftarrow> (case ins of
                None \<Rightarrow> Some w
              | Some buf \<Rightarrow> map_option fst (ext2_write_block bd (set_dir_buf buf w) phys buf));
            (w, out) \<leftarrow> ext2_create_vfs_node w new_ino name (new_file_inode mode);
            Some (w, out, if out = None then - 1 else 0)
          }
        })"

definition ext2_dir_ops :: "'a ext2_scheme blk_ops \<Rightarrow> 'a ext2_scheme vfs_ops" where
  "ext2_dir_ops bd = \<lparr>op_open = None, op_close = None, op_read = None, op_write = None, op_readdir = Some (ext2_vfs_readdir bd),
     op_finddir = Some (ext2_vfs_finddir bd), op_create = Some (ext2_vfs_create bd)\<rparr>"

definition ext2_file_ops :: "'a ext2_scheme blk_ops \<Rightarrow> 'a ext2_scheme vfs_ops" where
  "ext2_file_ops bd = \<lparr>op_open = None, op_close = None, op_read = Some (ext2_vfs_read bd), op_write = Some (ext2_vfs_write bd),
     op_readdir = None, op_finddir = None, op_create = None\<rparr>"

section \<open>Mounting\<close>

definition mount_geometry :: "bytes \<Rightarrow> u32 \<Rightarrow> static_ptr \<Rightarrow> ext2_fs \<Rightarrow> ext2_fs option" where
  "mount_geometry sb sector_size dev f =
     (if 32 \<le> s_log_block_size sb \<or> sector_size = 0 \<or> s_blocks_per_group sb = 0 then None
      else
        let bsize = push_bit (unat (s_log_block_size sb)) 1024;
            isize = (if 1 \<le> s_rev_level sb then ucast (s_inode_size sb) else 128)
        in Some (f\<lparr>fs_dev := Some dev, fs_sb := sb, block_size := bsize, sectors_per_block := bsize div sector_size,
          inode_size := (if isize = 0 then 128 else isize),
          group_count := (s_blocks_count sb + s_blocks_per_group sb - 1) div s_blocks_per_group sb\<rparr>))"

text \<open>The root node is the output parameter.\<close>

definition ext2_mount_device :: "'a ext2_scheme blk_ops \<Rightarrow> 'a ext2_scheme \<Rightarrow> static_ptr \<Rightarrow> bytes \<Rightarrow> ('a ext2_scheme \<times> static_ptr option \<times> int) option" where
  "ext2_mount_device bd w dev mp =
     (let w = w\<lparr>primary_ext2 := (e2fs w)\<lparr>fs_dev := Some dev\<rparr>\<rparr> in
      case blk_read bd w dev 2 2 of (w, bs, r) \<Rightarrow> do {
        sb \<leftarrow> blit (replicate 1024 0) 0 bs;
        if r \<noteq> 0 then Some (w, None, - 1)
        else
          let w = w\<lparr>primary_ext2 := (e2fs w)\<lparr>fs_sb := sb\<rparr>\<rparr> in
          if s_magic sb \<noteq> EXT2_SUPER_MAGIC then Some (w, None, - 1)
          else do {
            f \<leftarrow> mount_geometry sb (bd_sector_size (block_dev_at w dev)) dev (e2fs w);
            let w = w\<lparr>primary_ext2 := f\<rparr> in do {
              (w, buf, r) \<leftarrow> ext2_read_block bd w (if block_size f = 1024 then 2 else 1) (fs_bgds f);
              let w = w\<lparr>primary_ext2 := (e2fs w)\<lparr>fs_bgds := buf\<rparr>\<rparr> in
              if r \<noteq> 0 then Some (w, None, - 1)
              else do {
                (w, root_inode, r) \<leftarrow> ext2_read_inode bd w EXT2_ROOT_INO;
                if r \<noteq> 0 then Some (w, None, - 1)
                else do {
                  (w, root) \<leftarrow> ext2_create_vfs_node w EXT2_ROOT_INO mp root_inode;
                  (case root of
                     None \<Rightarrow> Some (w, None, - 1)
                   | Some n \<Rightarrow> do {
                       (w, r) \<leftarrow> vfs_mount w (Some mp) (Some [101, 120, 116, 50, 0]) (Some dev) root;
                       if r \<noteq> 0 then Some (w, None, - 1)
                       else Some (w\<lparr>primary_ext2_initialized := True\<rparr>, root, 0)
                     })
                }
              }
            }
          }
      })"

definition ext2_get_primary_fs :: "'a ext2_scheme \<Rightarrow> ext2_fs option" where
  "ext2_get_primary_fs w = (if primary_ext2_initialized w then Some (e2fs w) else None)"

end
