(* ===== verification/AtaDisk.thy ===== *)
theory AtaDisk
  imports Ata
begin

text \<open>
  The ATA driver against the documented behaviour of a disk.  What a disk does with the port
  accesses is stated on the history of accesses: the last command, the address registers at
  that time and the data words moved since.  The driver then implements a block
  device: an array of sectors that can be read and written.
\<close>

section \<open>The history of a channel\<close>

text \<open>The values written to an 8-bit register, the latest first.\<close>

fun writes :: "u16 \<Rightarrow> io list \<Rightarrow> u32 list" where
  "writes p [] = []"
| "writes p (Out n q v # h) = (if n = 8 \<and> q = p then v # writes p h else writes p h)"
| "writes p (In n q # h) = writes p h"

text \<open>The last command on the channel at \<open>b\<close>, the history before it, and the data words since, the latest first.\<close>

fun xfer :: "u16 \<Rightarrow> io list \<Rightarrow> (u32 \<times> io list \<times> u32 list) option" where
  "xfer b [] = None"
| "xfer b (Out n p v # h) =
     (if n = 8 \<and> p = b + 7 then Some (v, h, [])
      else if n = 16 \<and> p = b then map_option (\<lambda>(c, g, ws). (c, g, v # ws)) (xfer b h)
      else xfer b h)"
| "xfer b (In n p # h) =
     (if n = 16 \<and> p = b then map_option (\<lambda>(c, g, ws). (c, g, 0 # ws)) (xfer b h) else xfer b h)"

definition reg_at :: "u16 \<Rightarrow> nat \<Rightarrow> io list \<Rightarrow> u64" where
  "reg_at p k h = (if k < length (writes p h) then ucast (writes p h ! k) else 0)"

text \<open>The sector a command addresses: 28 bits with the low half of the drive register, or 48 bits from two writes of each register.\<close>

definition addr28 :: "u16 \<Rightarrow> io list \<Rightarrow> u64" where
  "addr28 b h = reg_at (b + 3) 0 h OR push_bit 8 (reg_at (b + 4) 0 h) OR push_bit 16 (reg_at (b + 5) 0 h) OR
     push_bit 24 (reg_at (b + 6) 0 h AND 0x0F)"

definition addr48 :: "u16 \<Rightarrow> io list \<Rightarrow> u64" where
  "addr48 b h = reg_at (b + 3) 0 h OR push_bit 8 (reg_at (b + 4) 0 h) OR push_bit 16 (reg_at (b + 5) 0 h) OR
     push_bit 24 (reg_at (b + 3) 1 h) OR push_bit 32 (reg_at (b + 4) 1 h) OR push_bit 40 (reg_at (b + 5) 1 h)"

definition selected :: "ata_drive \<Rightarrow> io list \<Rightarrow> bool" where
  "selected d h \<longleftrightarrow> (bit (reg_at (io_base d + 6) 0 h) 4 \<longleftrightarrow> bit (drive_num d) 0) \<and> reg_at (io_base d + 2) 0 h = 1"

definition reads_sector :: "ata_drive \<Rightarrow> io list \<Rightarrow> nat \<Rightarrow> nat \<Rightarrow> bool" where
  "reads_sector d h lba k \<longleftrightarrow> (\<exists>c g ws. xfer (io_base d) h = Some (c, g, ws) \<and> length ws = k \<and> selected d g \<and>
     (c = ucast ATA_CMD_READ_PIO \<and> lba = unat (addr28 (io_base d) g) \<or>
      c = ucast ATA_CMD_READ_PIO_EXT \<and> lba = unat (addr48 (io_base d) g)))"

definition writes_sector :: "ata_drive \<Rightarrow> io list \<Rightarrow> nat \<Rightarrow> u32 list \<Rightarrow> bool" where
  "writes_sector d h lba ws \<longleftrightarrow> (\<exists>c g. xfer (io_base d) h = Some (c, g, ws) \<and> selected d g \<and>
     (c = ucast ATA_CMD_WRITE_PIO \<and> lba = unat (addr28 (io_base d) g) \<or>
      c = ucast ATA_CMD_WRITE_PIO_EXT \<and> lba = unat (addr48 (io_base d) g)))"

definition word_bytes :: "u32 list \<Rightarrow> bytes" where
  "word_bytes ws = concat (map (\<lambda>v. put16 (ucast v)) ws)"

section \<open>The behaviour of a disk\<close>

definition status_port :: "ata_drive \<Rightarrow> u16" where
  "status_port d = io_base d + ATA_REG_STATUS"

definition status_after :: "hardware \<Rightarrow> ata_drive \<Rightarrow> nat \<Rightarrow> io list \<Rightarrow> u8" where
  "status_after hw d k h = ucast (hw (replicate k (In 8 (status_port d)) @ h) 8 (status_port d))"

text \<open>The drive is busy for a bounded time only.\<close>

definition disk_ready :: "hardware \<Rightarrow> ata_drive \<Rightarrow> bool" where
  "disk_ready hw d \<longleftrightarrow> (\<forall>h. \<exists>k < ATA_TIMEOUT. status_after hw d k h AND ATA_STATUS_BSY = 0)"

text \<open>After a command for a sector of the disk the drive asks for data, without an error.\<close>

definition disk_drq :: "hardware \<Rightarrow> ata_drive \<Rightarrow> bool" where
  "disk_drq hw d \<longleftrightarrow> (\<forall>h lba. reads_sector d h lba 0 \<or> writes_sector d h lba [] \<longrightarrow> lba < unat (sector_count d) \<longrightarrow>
     (\<exists>k < ATA_TIMEOUT. (\<forall>j \<le> k. status_after hw d j h AND (ATA_STATUS_ERR OR ATA_STATUS_DF) = 0) \<and>
        status_after hw d k h AND ATA_STATUS_BSY = 0 \<and> status_after hw d k h AND ATA_STATUS_DRQ \<noteq> 0))"

text \<open>The words read are those of the sector; a sector changes when the last word for it has been written.\<close>

definition disk_data :: "hardware \<Rightarrow> ata_drive \<Rightarrow> (io list \<Rightarrow> nat \<Rightarrow> bytes) \<Rightarrow> bool" where
  "disk_data hw d medium \<longleftrightarrow>
     (\<forall>h lba k. reads_sector d h lba k \<longrightarrow> lba < unat (sector_count d) \<longrightarrow> k < 256 \<longrightarrow>
        ucast (hw h 16 (io_base d)) = get16 (medium h lba) (2 * k)) \<and>
     (\<forall>h lba. length (medium h lba) = 512)"

definition disk_write :: "ata_drive \<Rightarrow> (io list \<Rightarrow> nat \<Rightarrow> bytes) \<Rightarrow> bool" where
  "disk_write d medium \<longleftrightarrow>
     (\<forall>h n p. medium (In n p # h) = medium h) \<and>
     (\<forall>h n p v. n \<noteq> 16 \<or> p \<noteq> io_base d \<longrightarrow> medium (Out n p v # h) = medium h) \<and>
     (\<forall>h lba ws v. writes_sector d h lba ws \<longrightarrow>
        medium (Out 16 (io_base d) v # h) = (if length ws = 255 then (medium h)(lba := word_bytes (rev (v # ws))) else medium h))"

definition ata_disk :: "hardware \<Rightarrow> ata_drive \<Rightarrow> (io list \<Rightarrow> nat \<Rightarrow> bytes) \<Rightarrow> bool" where
  "ata_disk hw d medium \<longleftrightarrow> disk_ready hw d \<and> disk_drq hw d \<and> disk_data hw d medium \<and> disk_write d medium"

section \<open>Accesses that move no data\<close>

definition quiet :: "io list \<Rightarrow> bool" where
  "quiet es \<longleftrightarrow> (\<forall>e \<in> set es. \<exists>p. e = In 8 p)"

lemma quiet_simps [simp]: "quiet []" "quiet (In 8 p # es) = quiet es" "quiet (es @ fs) = (quiet es \<and> quiet fs)"
  "quiet (replicate k (In 8 p))"
  by (auto simp: quiet_def)

lemma quiet_history:
  assumes "quiet es"
  shows "xfer b (es @ h) = xfer b h" "writes p (es @ h) = writes p h"
  using assms by (induction es) (auto simp: quiet_def)

lemma quiet_reads [simp]: "quiet es \<Longrightarrow> reads_sector d (es @ h) lba k = reads_sector d h lba k"
  "quiet es \<Longrightarrow> writes_sector d (es @ h) lba ws = writes_sector d h lba ws"
  by (simp_all add: reads_sector_def writes_sector_def quiet_history)

lemma quiet_medium: "disk_write d medium \<Longrightarrow> quiet es \<Longrightarrow> medium (es @ h) = medium h"
  by (induction es) (auto simp: quiet_def disk_write_def)

definition logged :: "io list \<Rightarrow> 'a ports_scheme \<Rightarrow> 'a ports_scheme" where
  "logged es w = w\<lparr>io_log := es @ io_log w\<rparr>"

lemma logged_simps [simp]: "logged [] w = w" "logged es (logged fs w) = logged (es @ fs) w" "io_log (logged es w) = es @ io_log w"
  by (simp_all add: logged_def)

lemma io_logged:
  "inb hw w p = (logged [In 8 p] w, ucast (hw (io_log w) 8 p))" "inw hw w p = (logged [In 16 p] w, ucast (hw (io_log w) 16 p))"
  "outb w p v = logged [Out 8 p (ucast v)] w" "outw w p x = logged [Out 16 p (ucast x)] w"
  by (simp_all add: inb_def inw_def outb_def outw_def logged_def)

lemma ata_delay_eq: "ata_delay hw w c = logged [In 8 c, In 8 c, In 8 c, In 8 c] w"
  by (simp add: ata_delay_def io_logged)

lemma ata_delay_quiet: "\<exists>es. quiet es \<and> ata_delay hw w c = logged es w"
  by (rule exI [of _ "[In 8 c, In 8 c, In 8 c, In 8 c]"]) (simp add: ata_delay_eq)

text \<open>The polling loops end with the first status that answers.\<close>

lemma status_after_shift:
  "status_after hw d k (In 8 (status_port d) # h) = status_after hw d (Suc k) h"
  by (simp add: status_after_def replicate_app_Cons_same)

lemma ready_loop_steps:
  assumes "k < n" and "status_after hw d k (io_log w) AND ATA_STATUS_BSY = 0"
  shows "\<exists>es. quiet es \<and> ready_loop hw (io_base d) n w = (logged es w, 0)"
  using assms
proof (induction n arbitrary: k w)
  case (Suc n)
  define w1 where "w1 = logged [In 8 (status_port d)] w"
  have step: "ready_loop hw (io_base d) (Suc n) w =
      (if status_after hw d 0 (io_log w) AND ATA_STATUS_BSY = 0 then (w1, 0) else ready_loop hw (io_base d) n w1)"
    by (simp add: io_logged status_after_def status_port_def w1_def)
  show ?case
  proof (cases "status_after hw d 0 (io_log w) AND ATA_STATUS_BSY = 0")
    case True
    then show ?thesis
      unfolding step by (auto simp: w1_def intro!: exI [of _ "[In 8 (status_port d)]"])
  next
    case False
    then obtain k' where k: "k = Suc k'"
      using Suc.prems(2) by (cases k) auto
    have "status_after hw d k' (io_log w1) = status_after hw d k (io_log w)"
      by (simp add: w1_def k status_after_shift)
    then obtain es where "quiet es" "ready_loop hw (io_base d) n w1 = (logged es w1, 0)"
      using Suc.IH [of k' w1] Suc.prems k by auto
    then show ?thesis
      unfolding step using False by (auto simp: w1_def intro!: exI [of _ "es @ [In 8 (status_port d)]"])
  qed
qed simp

lemma drq_loop_steps:
  assumes "k < n" and "\<forall>j \<le> k. status_after hw d j (io_log w) AND (ATA_STATUS_ERR OR ATA_STATUS_DF) = 0"
    and "status_after hw d k (io_log w) AND ATA_STATUS_BSY = 0" and "status_after hw d k (io_log w) AND ATA_STATUS_DRQ \<noteq> 0"
  shows "\<exists>es. quiet es \<and> drq_loop hw (io_base d) n w = (logged es w, 0)"
  using assms
proof (induction n arbitrary: k w)
  case (Suc n)
  define w1 where "w1 = logged [In 8 (status_port d)] w"
  define st where "st = status_after hw d 0 (io_log w)"
  have ok: "st AND (ATA_STATUS_ERR OR ATA_STATUS_DF) = 0"
    using Suc.prems(2) by (auto simp: st_def)
  then have step: "drq_loop hw (io_base d) (Suc n) w =
      (if st AND ATA_STATUS_BSY = 0 \<and> st AND ATA_STATUS_DRQ \<noteq> 0 then (w1, 0) else drq_loop hw (io_base d) n w1)"
    by (simp add: io_logged status_after_def status_port_def w1_def st_def)
  show ?case
  proof (cases "st AND ATA_STATUS_BSY = 0 \<and> st AND ATA_STATUS_DRQ \<noteq> 0")
    case True
    then show ?thesis
      unfolding step by (auto simp: w1_def intro!: exI [of _ "[In 8 (status_port d)]"])
  next
    case False
    then obtain k' where k: "k = Suc k'"
      using Suc.prems(3, 4) by (cases k) (auto simp: st_def)
    have sh: "status_after hw d j (io_log w1) = status_after hw d (Suc j) (io_log w)" for j
      by (simp add: w1_def status_after_shift)
    obtain es where "quiet es" "drq_loop hw (io_base d) n w1 = (logged es w1, 0)"
      using Suc.IH [of k' w1] Suc.prems unfolding sh k by auto
    then show ?thesis
      unfolding step using False by (auto simp: w1_def intro!: exI [of _ "es @ [In 8 (status_port d)]"])
  qed
qed simp

lemma wait_ready_quiet:
  assumes "disk_ready hw d"
  obtains es where "quiet es" "ata_wait_ready hw w (io_base d) (ctrl_base d) = (logged es w, 0)"
proof -
  obtain es where es: "quiet es" "ata_delay hw w (ctrl_base d) = logged es w"
    using ata_delay_quiet by blast
  obtain k where "k < ATA_TIMEOUT" "status_after hw d k (io_log (logged es w)) AND ATA_STATUS_BSY = 0"
    using assms by (auto simp: disk_ready_def)
  then obtain fs where "quiet fs" "ready_loop hw (io_base d) ATA_TIMEOUT (logged es w) = (logged fs (logged es w), 0)"
    using ready_loop_steps by blast
  then show thesis
    using that [of "fs @ es"] es by (simp add: ata_wait_ready_def)
qed

lemma wait_drq_quiet:
  assumes "disk_drq hw d" and "reads_sector d (io_log w) lba 0 \<or> writes_sector d (io_log w) lba []" and "lba < unat (sector_count d)"
  obtains es where "quiet es" "ata_wait_drq hw w (io_base d) (ctrl_base d) = (logged es w, 0)"
proof -
  obtain es where es: "quiet es" "ata_delay hw w (ctrl_base d) = logged es w"
    using ata_delay_quiet by blast
  have "reads_sector d (io_log (logged es w)) lba 0 \<or> writes_sector d (io_log (logged es w)) lba []"
    using assms(2) es(1) by simp
  then obtain k where "k < ATA_TIMEOUT" "\<forall>j \<le> k. status_after hw d j (io_log (logged es w)) AND (ATA_STATUS_ERR OR ATA_STATUS_DF) = 0"
      "status_after hw d k (io_log (logged es w)) AND ATA_STATUS_BSY = 0" "status_after hw d k (io_log (logged es w)) AND ATA_STATUS_DRQ \<noteq> 0"
    using assms(1, 3) unfolding disk_drq_def by blast
  then obtain fs where "quiet fs" "drq_loop hw (io_base d) ATA_TIMEOUT (logged es w) = (logged fs (logged es w), 0)"
    using drq_loop_steps by blast
  then show thesis
    using that [of "fs @ es"] es by (simp add: ata_wait_drq_def)
qed

section \<open>The command addresses the sector\<close>

definition no_data :: "ata_drive \<Rightarrow> io list \<Rightarrow> bool" where
  "no_data d es \<longleftrightarrow> (\<forall>e \<in> set es. case e of In n p \<Rightarrow> True | Out n p v \<Rightarrow> n \<noteq> 16 \<or> p \<noteq> io_base d)"

lemma no_data_medium: "disk_write d medium \<Longrightarrow> no_data d es \<Longrightarrow> medium (es @ h) = medium h"
  by (induction es) (auto simp: no_data_def disk_write_def split: io.splits)

lemma quiet_no_data: "quiet es \<Longrightarrow> no_data d es"
  by (auto simp: quiet_def no_data_def)

lemma bit_above:
  fixes w :: u64
  assumes "unat w < 2 ^ n" and "n \<le> j"
  shows "\<not> bit w j"
proof -
  have "unat w < 2 ^ j"
    using assms by (meson less_le_trans one_le_numeral power_increasing)
  then have "\<not> bit (unat w) j"
    by (simp add: bit_iff_odd)
  then show ?thesis
    by (auto simp: bit_unsigned_iff dest: bit_imp_le_length)
qed

lemma ucast_through_u32 [simp]: "ucast (ucast (x :: u8) :: u32) = (ucast x :: u64)"
  by (rule bit_word_eqI) (auto simp: bit_simps dest: bit_imp_le_length)

lemma lba28_bytes:
  fixes lba :: u64 and n :: u8
  assumes "\<not> 0x0FFFFFFF < lba"
  shows "ucast (ucast lba :: u8) OR push_bit 8 (ucast (ucast (drop_bit 8 lba) :: u8)) OR push_bit 16 (ucast (ucast (drop_bit 16 lba) :: u8)) OR
    push_bit 24 (ucast (0xE0 OR push_bit 4 n OR (ucast (drop_bit 24 lba) AND 0x0F)) AND 0x0F) = lba" (is "?l = lba")
proof (rule bit_word_eqI)
  fix i assume i: "i < LENGTH(64)"
  have "unat lba < 2 ^ 28"
    using assms by (simp add: not_less word_le_nat_alt)
  then have hi: "\<not> bit lba j" if "28 \<le> j" for j
    using that by (rule bit_above)
  have m: "(0x0F :: u64) = mask 4" "(0x0F :: u8) = mask 4" "(0xE0 :: u8) = push_bit 5 (mask 3)"
    by (simp_all add: mask_eq_exp_minus_1 push_bit_eq_mult)
  consider "i < 8" | "8 \<le> i" "i < 16" | "16 \<le> i" "i < 24" | "24 \<le> i" "i < 28" | "28 \<le> i"
    by linarith
  then show "bit ?l i = bit lba i"
    unfolding m using i hi by cases (auto simp: bit_simps)
qed

lemma lba48_bytes:
  fixes lba :: u64
  assumes "unat lba < 2 ^ 48"
  shows "ucast (ucast lba :: u8) OR push_bit 8 (ucast (ucast (drop_bit 8 lba) :: u8)) OR push_bit 16 (ucast (ucast (drop_bit 16 lba) :: u8)) OR
    push_bit 24 (ucast (ucast (drop_bit 24 lba) :: u8)) OR push_bit 32 (ucast (ucast (drop_bit 32 lba) :: u8)) OR
    push_bit 40 (ucast (ucast (drop_bit 40 lba) :: u8)) = lba" (is "?l = lba")
proof (rule bit_word_eqI)
  fix i assume i: "i < LENGTH(64)"
  have hi: "\<not> bit lba j" if "48 \<le> j" for j
    using bit_above [OF assms that] .
  consider "i < 8" | "8 \<le> i" "i < 16" | "16 \<le> i" "i < 24" | "24 \<le> i" "i < 32" | "32 \<le> i" "i < 40" | "40 \<le> i" "i < 48" | "48 \<le> i"
    by linarith
  then show "bit ?l i = bit lba i"
    using i hi by cases (auto simp: bit_simps)
qed

text \<open>The events of one command.\<close>

lemma ata_command_xfer:
  assumes "unat lba < 2 ^ 48"
  obtains es g c where "ata_command hw w d lba cmd ext = logged es w" "no_data d es"
    "xfer (io_base d) (es @ io_log w) = Some (c, g, [])" "selected d g"
    "c = ucast cmd \<and> addr28 (io_base d) g = lba \<or> c = ucast ext \<and> addr48 (io_base d) g = lba"
proof -
  define b where "b = io_base d"
  define qs where "qs = [In 8 (ctrl_base d), In 8 (ctrl_base d), In 8 (ctrl_base d), In 8 (ctrl_base d)]"
  have qs: "quiet qs"
    by (simp add: qs_def)
  note eqs = ATA_REG_DRIVE_def ATA_REG_SEC_COUNT_def ATA_REG_LBA_LO_def ATA_REG_LBA_MID_def ATA_REG_LBA_HI_def ATA_REG_COMMAND_def
    Let_def io_logged ata_delay_eq
  show thesis
  proof (cases "0x0FFFFFFF < lba")
    case True
    define v where "v = 0x40 OR push_bit 4 (drive_num d)"
    define g where "g = [Out 8 (b + 5) (ucast (ucast (drop_bit 16 lba) :: u8)), Out 8 (b + 4) (ucast (ucast (drop_bit 8 lba) :: u8)),
      Out 8 (b + 3) (ucast (ucast lba :: u8)), Out 8 (b + 2) 1,
      Out 8 (b + 5) (ucast (ucast (drop_bit 40 lba) :: u8)), Out 8 (b + 4) (ucast (ucast (drop_bit 32 lba) :: u8)),
      Out 8 (b + 3) (ucast (ucast (drop_bit 24 lba) :: u8)), Out 8 (b + 2) 0] @ qs @ [Out 8 (b + 6) (ucast v)]"
    define es where "es = Out 8 (b + 7) (ucast ext) # g"
    have cmd: "ata_command hw w d lba cmd ext = logged es w"
      using True by (simp add: ata_command_def eqs es_def g_def v_def b_def qs_def)
    have "no_data d es"
      using qs by (auto simp: no_data_def es_def g_def quiet_def)
    moreover have "xfer b (es @ io_log w) = Some (ucast ext, g @ io_log w, [])"
      by (simp add: es_def)
    moreover have "selected d (g @ io_log w)"
      using qs by (simp add: selected_def reg_at_def g_def quiet_history b_def [symmetric] v_def bit_simps)
    moreover have "addr48 b (g @ io_log w) = lba"
      using lba48_bytes [OF assms(1)] qs by (simp add: addr48_def reg_at_def g_def quiet_history)
    ultimately show ?thesis
      using that [OF cmd] by (auto simp: b_def)
  next
    case False
    define v where "v = 0xE0 OR push_bit 4 (drive_num d) OR (ucast (drop_bit 24 lba) AND 0x0F)"
    define g where "g = [Out 8 (b + 5) (ucast (ucast (drop_bit 16 lba) :: u8)), Out 8 (b + 4) (ucast (ucast (drop_bit 8 lba) :: u8)),
      Out 8 (b + 3) (ucast (ucast lba :: u8)), Out 8 (b + 2) 1] @ qs @ [Out 8 (b + 6) (ucast v)]"
    define es where "es = Out 8 (b + 7) (ucast cmd) # g"
    have cmd: "ata_command hw w d lba cmd ext = logged es w"
      using False by (simp add: ata_command_def eqs es_def g_def v_def b_def qs_def)
    have "no_data d es"
      using qs by (auto simp: no_data_def es_def g_def quiet_def)
    moreover have "xfer b (es @ io_log w) = Some (ucast cmd, g @ io_log w, [])"
      by (simp add: es_def)
    moreover have "selected d (g @ io_log w)"
      using qs by (simp add: selected_def reg_at_def g_def quiet_history b_def [symmetric] v_def bit_simps)
    moreover have "addr28 b (g @ io_log w) = lba"
      using lba28_bytes [OF False, of "drive_num d"] qs by (simp add: addr28_def reg_at_def g_def quiet_history v_def)
    ultimately show ?thesis
      using that [OF cmd] by (auto simp: b_def)
  qed
qed

section \<open>Data\<close>

lemma put16_get16: "put16 (get16 bs i) = [bs ! i, bs ! (i + 1)]"
proof -
  have "ucast (get16 bs i) = bs ! i"
    by (rule bit_word_eqI) (auto simp: get16_def bit_simps)
  moreover have "ucast (drop_bit 8 (get16 bs i)) = bs ! (i + 1)"
    by (rule bit_word_eqI) (auto simp: get16_def bit_simps dest: bit_imp_le_length)
  ultimately show ?thesis
    by (simp add: put16_def)
qed

lemma words_bytes: "2 * n \<le> length bs \<Longrightarrow> concat (map (\<lambda>j. put16 (get16 bs (2 * j))) [0..<n]) = take (2 * n) bs"
proof (induction n)
  case (Suc n)
  then have "concat (map (\<lambda>j. put16 (get16 bs (2 * j))) [0..<Suc n]) = take (2 * n) bs @ [bs ! (2 * n), bs ! (2 * n + 1)]"
    by (simp add: put16_get16)
  also have "\<dots> = take (Suc (Suc (2 * n))) bs"
    using Suc.prems by (simp add: take_Suc_conv_app_nth)
  finally show ?case by simp
qed simp

lemma reads_sector_step: "reads_sector d h lba k \<Longrightarrow> reads_sector d (In 16 (io_base d) # h) lba (Suc k)"
  by (auto simp: reads_sector_def)

lemma read_words_sector:
  assumes "disk_data hw d medium" and "disk_write d medium" and "lba < unat (sector_count d)"
  shows "reads_sector d (io_log w) lba k \<Longrightarrow> k + n \<le> 256 \<Longrightarrow>
    read_words hw (io_base d) n w = (logged (replicate n (In 16 (io_base d))) w, map (\<lambda>j. get16 (medium (io_log w) lba) (2 * j)) [k..<k + n])"
proof (induction n arbitrary: w k)
  case (Suc n)
  define w1 where "w1 = logged [In 16 (io_base d)] w"
  have "medium (io_log w1) = medium (io_log w)"
    using assms(2) by (simp add: w1_def disk_write_def)
  moreover have "ucast (hw (io_log w) 16 (io_base d)) = get16 (medium (io_log w) lba) (2 * k)"
    using assms(1, 3) Suc.prems by (simp add: disk_data_def)
  moreover have "reads_sector d (io_log w1) lba (Suc k)"
    using reads_sector_step [OF Suc.prems(1)] by (simp add: w1_def)
  ultimately show ?case
    using Suc.IH [of w1 "Suc k"] Suc.prems(2)
    by (simp add: io_logged w1_def replicate_app_Cons_same upt_conv_Cons [of k] del: upt_Suc flip: replicate_Suc)
qed simp

lemma ata_disk_medium:
  assumes "ata_disk hw d medium"
  shows "disk_ready hw d" "disk_drq hw d" "disk_data hw d medium" "disk_write d medium" "length (medium h lba) = 512"
  using assms by (simp_all add: ata_disk_def disk_data_def)

lemma replicate_no_data: "no_data d (replicate n (In 16 p))"
  by (simp add: no_data_def)

text \<open>One sector is read: the rest of the loop starts from a history with the same contents.\<close>

lemma ata_read_sector:
  assumes disk: "ata_disk hw d medium" and lba: "unat lba < unat (sector_count d)" "unat (sector_count d) \<le> 2 ^ 48"
  obtains es where "medium (es @ io_log w) = medium (io_log w)"
    "ata_read_loop hw d lba (Suc n) w =
       (case ata_read_loop hw d (lba + 1) n (logged es w) of (w', bs, r) \<Rightarrow> (w', medium (io_log w) (unat lba) @ bs, r))"
proof -
  note law = ata_disk_medium [OF disk]
  obtain es1 where es1: "quiet es1" "ata_wait_ready hw w (io_base d) (ctrl_base d) = (logged es1 w, 0)"
    by (rule wait_ready_quiet [OF law(1)])
  define w1 where "w1 = logged es1 w"
  obtain es2 g c where es2: "ata_command hw w1 d lba ATA_CMD_READ_PIO ATA_CMD_READ_PIO_EXT = logged es2 w1" "no_data d es2"
      "xfer (io_base d) (es2 @ io_log w1) = Some (c, g, [])" "selected d g"
      "c = ucast ATA_CMD_READ_PIO \<and> addr28 (io_base d) g = lba \<or> c = ucast ATA_CMD_READ_PIO_EXT \<and> addr48 (io_base d) g = lba"
    by (rule ata_command_xfer [of lba hw w1 d]) (use lba in auto)
  define w2 where "w2 = logged es2 w1"
  have rd: "reads_sector d (io_log w2) (unat lba) 0"
    using es2 by (auto simp: reads_sector_def w2_def)
  obtain es3 where es3: "quiet es3" "ata_wait_drq hw w2 (io_base d) (ctrl_base d) = (logged es3 w2, 0)"
    by (rule wait_drq_quiet [OF law(2) _ lba(1)]) (use rd in auto)
  define w3 where "w3 = logged es3 w2"
  have "reads_sector d (io_log w3) (unat lba) 0"
    using rd es3(1) by (simp add: w3_def)
  from read_words_sector [OF law(3, 4) lba(1) this, of 256]
  have words: "read_words hw (io_base d) 256 w3 = (logged (replicate 256 (In 16 (io_base d))) w3,
      map (\<lambda>j. get16 (medium (io_log w3) (unat lba)) (2 * j)) [0..<256])"
    by simp
  define es where "es = replicate 256 (In 16 (io_base d)) @ es3 @ es2 @ es1"
  have med: "medium (io_log w3) = medium (io_log w)" "medium (es @ io_log w) = medium (io_log w)"
    using es1(1) es2(2) es3(1) law(4)
    by (simp_all add: w3_def w2_def w1_def es_def no_data_medium [OF law(4)] quiet_no_data replicate_no_data)
  have "concat (map (\<lambda>j. put16 (get16 (medium (io_log w) (unat lba)) (2 * j))) [0..<256]) = medium (io_log w) (unat lba)"
    using words_bytes [of 256 "medium (io_log w) (unat lba)"] law(5) by simp
  then show thesis
    using that [of es] med es1(2) es2(1) es3(2) words
    by (simp add: w3_def w2_def w1_def es_def ATA_REG_DATA_def o_def del: upt_rec_numeral split: prod.split)
qed

lemma ata_read_loop_sectors:
  assumes disk: "ata_disk hw d medium" and cap: "unat (sector_count d) \<le> 2 ^ 48"
  shows "unat lba + n \<le> unat (sector_count d) \<Longrightarrow>
    \<exists>es. ata_read_loop hw d lba n w = (logged es w, concat (map (medium (io_log w)) [unat lba..<unat lba + n]), 0) \<and>
      medium (es @ io_log w) = medium (io_log w)"
proof (induction n arbitrary: lba w)
  case 0
  then show ?case
    by (intro exI [of _ "[]"]) simp
next
  case (Suc n)
  have "unat lba < unat (sector_count d)"
    using Suc.prems by simp
  from ata_read_sector [OF disk this cap, of w n]
  obtain es where es: "medium (es @ io_log w) = medium (io_log w)"
      "ata_read_loop hw d lba (Suc n) w =
         (case ata_read_loop hw d (lba + 1) n (logged es w) of (w', bs, r) \<Rightarrow> (w', medium (io_log w) (unat lba) @ bs, r))"
    by blast
  have "unat lba + 1 < 2 ^ 64"
    using Suc.prems unat_u64_less [of "sector_count d"] cap by simp
  then have lba1: "unat (lba + 1) = unat lba + 1"
    using unat_add_no_wrap [of lba 1] by simp
  then have "unat (lba + 1) + n \<le> unat (sector_count d)"
    using Suc.prems by simp
  from Suc.IH [OF this, of "logged es w"] obtain fs where
    "ata_read_loop hw d (lba + 1) n (logged es w) = (logged fs (logged es w), concat (map (medium (es @ io_log w)) [unat lba + 1..<unat lba + 1 + n]), 0)"
    "medium (fs @ es @ io_log w) = medium (es @ io_log w)"
    using lba1 by auto
  then show ?case
    using es by (intro exI [of _ "fs @ es"]) (simp add: upt_conv_Cons [of "unat lba"] del: upt_Suc)
qed

lemma writes_sector_step: "writes_sector d h lba ws \<Longrightarrow> writes_sector d (Out 16 (io_base d) v # h) lba (v # ws)"
  by (auto simp: writes_sector_def)

lemma write_words_medium:
  assumes "disk_write d medium"
  shows "writes_sector d h lba ws \<Longrightarrow> length ws + length vs = 256 \<Longrightarrow> vs \<noteq> [] \<Longrightarrow>
    medium (rev (map (Out 16 (io_base d)) vs) @ h) = (medium h)(lba := word_bytes (rev ws @ vs))"
proof (induction vs arbitrary: h ws)
  case (Cons v vs)
  let ?h = "Out 16 (io_base d) v # h"
  have m: "medium ?h = (if length ws = 255 then (medium h)(lba := word_bytes (rev (v # ws))) else medium h)"
    using assms Cons.prems(1) by (auto simp: disk_write_def)
  show ?case
  proof (cases "vs = []")
    case True
    then show ?thesis
      using m Cons.prems(2) by simp
  next
    case False
    then have "length ws \<noteq> 255"
      using Cons.prems(2) by (cases vs) auto
    then show ?thesis
      using Cons.IH [OF writes_sector_step [OF Cons.prems(1)] _ False, of v] m Cons.prems(2) by simp
  qed
qed simp

lemma write_words_eq:
  "2 * n \<le> length bs \<Longrightarrow>
    write_words p n bs w = Some (logged (rev (map (Out 16 p) (map (\<lambda>j. ucast (get16 bs (2 * j))) [0..<n]))) w)"
proof (induction n arbitrary: bs w)
  case (Suc n)
  have "get16 (drop 2 bs) (2 * j) = get16 bs (2 * Suc j)" if "j < n" for j
    using that Suc.prems by (simp add: get16_def)
  then have "map (\<lambda>j. ucast (get16 (drop 2 bs) (2 * j))) [0..<n] = (map (\<lambda>j. ucast (get16 bs (2 * Suc j))) [0..<n] :: u32 list)"
    by simp
  also have "\<dots> = map (\<lambda>j. ucast (get16 bs (2 * j))) [1..<Suc n]"
    by (subst One_nat_def, subst map_Suc_upt [symmetric]) (simp add: o_def)
  finally have rest: "map (\<lambda>j. ucast (get16 (drop 2 bs) (2 * j))) [0..<n] = (map (\<lambda>j. ucast (get16 bs (2 * j))) [1..<Suc n] :: u32 list)" .
  have "write_words p (Suc n) bs w = write_words p n (drop 2 bs) (logged [Out 16 p (ucast (get16 bs 0))] w)"
    using Suc.prems by (simp add: rd16_def io_logged)
  also have "\<dots> = Some (logged (rev (map (Out 16 p) (map (\<lambda>j. ucast (get16 bs (2 * j))) [1..<Suc n])))
      (logged [Out 16 p (ucast (get16 bs 0))] w))"
    using Suc.IH [of "drop 2 bs"] Suc.prems unfolding rest by simp
  finally show ?case
    by (simp add: upt_conv_Cons [of 0] del: upt_Suc)
qed simp

lemma ucast_u16_u32_u16 [simp]: "ucast (ucast (x :: u16) :: u32) = x"
  by (rule bit_word_eqI) (auto simp: bit_simps)

lemma sector_words_bytes: "512 \<le> length bs \<Longrightarrow> word_bytes (map (\<lambda>j. ucast (get16 bs (2 * j))) [0..<256]) = take 512 bs"
  using words_bytes [of 256 bs] by (simp add: word_bytes_def o_def del: upt_rec_numeral)

text \<open>One sector is written.\<close>

lemma ata_write_sector:
  assumes disk: "ata_disk hw d medium" and lba: "unat lba < unat (sector_count d)" "unat (sector_count d) \<le> 2 ^ 48"
    and bs: "512 \<le> length bs"
  obtains es where "medium (es @ io_log w) = (medium (io_log w))(unat lba := take 512 bs)"
    "ata_write_loop hw d lba (Suc n) bs w = ata_write_loop hw d (lba + 1) n (drop 512 bs) (logged es w)"
proof -
  note law = ata_disk_medium [OF disk]
  obtain es1 where es1: "quiet es1" "ata_wait_ready hw w (io_base d) (ctrl_base d) = (logged es1 w, 0)"
    by (rule wait_ready_quiet [OF law(1)])
  define w1 where "w1 = logged es1 w"
  obtain es2 g c where es2: "ata_command hw w1 d lba ATA_CMD_WRITE_PIO ATA_CMD_WRITE_PIO_EXT = logged es2 w1" "no_data d es2"
      "xfer (io_base d) (es2 @ io_log w1) = Some (c, g, [])" "selected d g"
      "c = ucast ATA_CMD_WRITE_PIO \<and> addr28 (io_base d) g = lba \<or> c = ucast ATA_CMD_WRITE_PIO_EXT \<and> addr48 (io_base d) g = lba"
    by (rule ata_command_xfer [of lba hw w1 d]) (use lba in auto)
  define w2 where "w2 = logged es2 w1"
  have wr: "writes_sector d (io_log w2) (unat lba) []"
    using es2 by (auto simp: writes_sector_def w2_def)
  obtain es3 where es3: "quiet es3" "ata_wait_drq hw w2 (io_base d) (ctrl_base d) = (logged es3 w2, 0)"
    by (rule wait_drq_quiet [OF law(2) _ lba(1)]) (use wr in auto)
  define w3 where "w3 = logged es3 w2"
  define vs where "vs = (map (\<lambda>j. ucast (get16 bs (2 * j))) [0..<256] :: u32 list)"
  define es4 where "es4 = rev (map (Out 16 (io_base d)) vs)"
  have words: "write_words (io_base d) 256 bs w3 = Some (logged es4 w3)"
    using write_words_eq [of 256 bs "io_base d" w3] bs by (simp add: es4_def vs_def)
  have len: "length vs = 256" "vs \<noteq> []"
    by (simp_all add: vs_def del: upt_rec_numeral)
  have "writes_sector d (io_log w3) (unat lba) []"
    using wr es3(1) by (simp add: w3_def)
  from write_words_medium [OF law(4) this, of vs] len
  have m4: "medium (es4 @ io_log w3) = (medium (io_log w3))(unat lba := take 512 bs)"
    using sector_words_bytes [OF bs] by (simp add: es4_def vs_def del: upt_rec_numeral)
  define fl where "fl = (if 0x0FFFFFFF < lba then ATA_CMD_FLUSH_EXT else ATA_CMD_FLUSH)"
  define w5 where "w5 = logged (Out 8 (io_base d + 7) (ucast fl) # es4) w3"
  obtain es6 where es6: "quiet es6" "ata_wait_ready hw w5 (io_base d) (ctrl_base d) = (logged es6 w5, 0)"
    by (rule wait_ready_quiet [OF law(1)])
  define es where "es = es6 @ (Out 8 (io_base d + 7) (ucast fl) # es4) @ es3 @ es2 @ es1"
  have med: "medium (io_log w3) = medium (io_log w)"
    using es1(1) es2(2) es3(1) by (simp add: w3_def w2_def w1_def no_data_medium [OF law(4)] quiet_no_data)
  have "medium (es @ io_log w) = medium (es4 @ io_log w3)"
    using es6(1) law(4) by (simp add: es_def quiet_medium [OF law(4)] disk_write_def w3_def w2_def w1_def)
  with m4 med have "medium (es @ io_log w) = (medium (io_log w))(unat lba := take 512 bs)"
    by simp
  moreover have "ata_write_loop hw d lba (Suc n) bs w = ata_write_loop hw d (lba + 1) n (drop 512 bs) (logged es w)"
    using es1(2) es2(1) es3(2) words es6(2)
    by (simp add: w5_def w3_def w2_def w1_def es_def fl_def ATA_REG_DATA_def ATA_REG_COMMAND_def io_logged Let_def del: upt_rec_numeral)
  ultimately show thesis
    by (rule that)
qed

definition overwritten :: "(nat \<Rightarrow> bytes) \<Rightarrow> nat \<Rightarrow> nat \<Rightarrow> bytes \<Rightarrow> nat \<Rightarrow> bytes" where
  "overwritten s lba n bs l = (if lba \<le> l \<and> l < lba + n then take 512 (drop (512 * (l - lba)) bs) else s l)"

lemma overwritten_0 [simp]: "overwritten s lba 0 bs = s"
  by (auto simp: overwritten_def fun_eq_iff)

lemma overwritten_Suc: "overwritten (s(lba := take 512 bs)) (Suc lba) n (drop 512 bs) = overwritten s lba (Suc n) bs"
proof
  fix l
  have "512 * (l - Suc lba) + 512 = 512 * (l - lba)" if "lba < l"
  proof -
    have "l - lba = Suc (l - Suc lba)"
      using that by simp
    then show ?thesis by simp
  qed
  then show "overwritten (s(lba := take 512 bs)) (Suc lba) n (drop 512 bs) l = overwritten s lba (Suc n) bs l"
    by (cases "l = lba") (auto simp: overwritten_def)
qed

lemma overwritten_concat:
  "length bs = 512 * n \<Longrightarrow> concat (map (overwritten s lba n bs) [lba..<lba + n]) = bs"
proof (induction n arbitrary: s lba bs)
  case (Suc n)
  have "concat (map (overwritten s lba (Suc n) bs) [Suc lba..<Suc lba + n]) = drop 512 bs"
    using Suc.IH [of "drop 512 bs" "s(lba := take 512 bs)" "Suc lba"] Suc.prems unfolding overwritten_Suc by simp
  moreover have "overwritten s lba (Suc n) bs lba = take 512 bs"
    by (simp add: overwritten_def)
  ultimately show ?case
    by (simp add: upt_conv_Cons [of lba] del: upt_Suc)
qed simp

lemma ata_write_loop_sectors:
  assumes disk: "ata_disk hw d medium" and cap: "unat (sector_count d) \<le> 2 ^ 48"
  shows "unat lba + n \<le> unat (sector_count d) \<Longrightarrow> 512 * n \<le> length bs \<Longrightarrow>
    \<exists>es. ata_write_loop hw d lba n bs w = Some (logged es w, 0) \<and>
      medium (es @ io_log w) = overwritten (medium (io_log w)) (unat lba) n bs"
proof (induction n arbitrary: lba bs w)
  case 0
  then show ?case
    by (intro exI [of _ "[]"]) simp
next
  case (Suc n)
  have "unat lba < unat (sector_count d)" "512 \<le> length bs"
    using Suc.prems by simp_all
  from ata_write_sector [OF disk this(1) cap this(2), of w n]
  obtain es where es: "medium (es @ io_log w) = (medium (io_log w))(unat lba := take 512 bs)"
      "ata_write_loop hw d lba (Suc n) bs w = ata_write_loop hw d (lba + 1) n (drop 512 bs) (logged es w)"
    by blast
  have "unat lba + 1 < 2 ^ 64"
    using Suc.prems unat_u64_less [of "sector_count d"] cap by simp
  then have lba1: "unat (lba + 1) = unat lba + 1"
    using unat_add_no_wrap [of lba 1] by simp
  then have "unat (lba + 1) + n \<le> unat (sector_count d)" "512 * n \<le> length (drop 512 bs)"
    using Suc.prems by simp_all
  from Suc.IH [OF this, of "logged es w"] obtain fs where
    "ata_write_loop hw d (lba + 1) n (drop 512 bs) (logged es w) = Some (logged fs (logged es w), 0)"
    "medium (fs @ es @ io_log w) = overwritten (medium (es @ io_log w)) (unat lba + 1) n (drop 512 bs)"
    using lba1 by auto
  then show ?case
    using es overwritten_Suc [of "medium (io_log w)" "unat lba" bs n] by (intro exI [of _ "fs @ es"]) simp
qed

text \<open>The same for the entry points, whose bounds are checked in 64-bit arithmetic.\<close>

lemma sectors_in_range:
  fixes count :: u32
  assumes "unat lba + unat count \<le> unat (sector_count d)"
  shows "\<not> sector_count d < lba + ucast count"
proof -
  have "unat lba + unat count < 2 ^ 64"
    using assms unat_u64_less [of "sector_count d"] by simp
  then have "unat (lba + ucast count) = unat lba + unat count"
    using unat_add_no_wrap [of lba "ucast count"] by (simp add: unat_ucast_widen)
  then show ?thesis
    using assms by (simp add: word_less_nat_alt)
qed

lemma ata_read_sectors_ok:
  assumes "ata_disk hw d medium" and "unat (sector_count d) \<le> 2 ^ 48" and "drive_exists d" and "count \<noteq> 0"
    and "unat lba + unat count \<le> unat (sector_count d)"
  obtains es where
    "ata_read_sectors hw w d lba count = (logged es w, concat (map (medium (io_log w)) [unat lba..<unat lba + unat count]), 0)"
    "medium (es @ io_log w) = medium (io_log w)"
  using ata_read_loop_sectors [OF assms(1, 2, 5), of w] sectors_in_range [OF assms(5)] assms(3, 4)
  by (auto simp: ata_read_sectors_def)

lemma ata_write_sectors_ok:
  assumes "ata_disk hw d medium" and "unat (sector_count d) \<le> 2 ^ 48" and "drive_exists d" and "count \<noteq> 0"
    and "unat lba + unat count \<le> unat (sector_count d)" and "512 * unat count \<le> length bs"
  obtains es where "ata_write_sectors hw w d lba count bs = Some (logged es w, 0)"
    "medium (es @ io_log w) = overwritten (medium (io_log w)) (unat lba) (unat count) bs"
  using ata_write_loop_sectors [OF assms(1, 2, 5, 6), of w] sectors_in_range [OF assms(5)] assms(3, 4)
  by (auto simp: ata_write_sectors_def)

section \<open>Block devices\<close>

text \<open>
  What a file system relies on.  The block operations of the device \<open>dev\<close> see the state \<open>w\<close> as an array of
  \<open>capacity\<close> sectors; reading changes at most the state of the device, and so does writing,
  which replaces the sectors.  The rest of the state is its \<open>frame\<close>.
\<close>

locale block_device =
  fixes bd :: "'w blk_ops" and dev :: static_ptr and ok :: "'w \<Rightarrow> bool" and capacity :: nat and sectors :: "'w \<Rightarrow> nat \<Rightarrow> bytes"
    and rest :: "'w \<Rightarrow> 'v"
  assumes read_law: "ok w \<Longrightarrow> n \<noteq> 0 \<Longrightarrow> unat lba + unat n \<le> capacity \<Longrightarrow>
      \<exists>w'. blk_read bd w dev lba n = (w', concat (map (sectors w) [unat lba..<unat lba + unat n]), 0) \<and>
        ok w' \<and> sectors w' = sectors w \<and> rest w' = rest w"
    and write_law: "ok w \<Longrightarrow> n \<noteq> 0 \<Longrightarrow> unat lba + unat n \<le> capacity \<Longrightarrow> 512 * unat n \<le> length bs \<Longrightarrow>
      \<exists>w'. blk_write bd w dev lba n bs = Some (w', 0) \<and>
        ok w' \<and> sectors w' = overwritten (sectors w) (unat lba) (unat n) bs \<and> rest w' = rest w"
    and sector_law: "ok w \<Longrightarrow> length (sectors w l) = 512"
begin

lemma read_after_write:
  assumes "ok w" and "n \<noteq> 0" and "unat lba + unat n \<le> capacity" and "length bs = 512 * unat n"
  obtains w1 w2 where "blk_write bd w dev lba n bs = Some (w1, 0)" "blk_read bd w1 dev lba n = (w2, bs, 0)" "ok w2"
    "\<And>l. l < unat lba \<or> unat lba + unat n \<le> l \<Longrightarrow> sectors w2 l = sectors w l" "rest w2 = rest w"
proof -
  obtain w1 where w1: "blk_write bd w dev lba n bs = Some (w1, 0)" "ok w1"
      "sectors w1 = overwritten (sectors w) (unat lba) (unat n) bs" "rest w1 = rest w"
    using write_law [OF assms(1-3), of bs] assms(4) by auto
  obtain w2 where w2: "blk_read bd w1 dev lba n = (w2, concat (map (sectors w1) [unat lba..<unat lba + unat n]), 0)" "ok w2"
      "sectors w2 = sectors w1" "rest w2 = rest w1"
    using read_law [OF w1(2) assms(2, 3)] by auto
  have "blk_read bd w1 dev lba n = (w2, bs, 0)"
    using w2(1) assms(4) by (simp add: w1(3) overwritten_concat)
  moreover have "sectors w2 l = sectors w l" if "l < unat lba \<or> unat lba + unat n \<le> l" for l
    using that by (auto simp: w2(3) w1(3) overwritten_def)
  ultimately show thesis
    using that [OF w1(1) _ w2(2)] w1(4) w2(4) by simp
qed

end

text \<open>The ATA driver provides it for a drive that has been found.\<close>

definition ata_ready :: "hardware \<Rightarrow> (io list \<Rightarrow> nat \<Rightarrow> bytes) \<Rightarrow> nat \<Rightarrow> nat \<Rightarrow> 'a ata_scheme \<Rightarrow> bool" where
  "ata_ready hw medium i n w \<longleftrightarrow> (let d = drives w ! i in
     ata_disk hw d medium \<and> drive_exists d \<and> unat (sector_count d) = n \<and> n \<le> 2 ^ 48 \<and>
     bd_priv_data (drive_block_dev d) = Some (drive_ptr i))"

lemma drives_logged [simp]: "drives (logged es w) = drives w" "io_log_update (\<lambda>_. l) (logged es w) = w\<lparr>io_log := l\<rparr>"
  by (simp_all add: logged_def)

interpretation ata_dev: block_device "ata_blk hw" "drive_ptr i" "ata_ready hw medium i n" n "\<lambda>w. medium (io_log w)" "\<lambda>w. w\<lparr>io_log := []\<rparr>"
  for hw medium i n
proof
  fix w :: "'a ata_scheme" and c :: u32 and lba :: u64
  assume "ata_ready hw medium i n w" and c: "c \<noteq> 0" "unat lba + unat c \<le> n"
  then have d: "ata_disk hw (drives w ! i) medium" "unat (sector_count (drives w ! i)) \<le> 2 ^ 48" "drive_exists (drives w ! i)"
      "unat lba + unat c \<le> unat (sector_count (drives w ! i))" "bd_priv_data (drive_block_dev (drives w ! i)) = Some (drive_ptr i)"
      "ata_ready hw medium i n (logged es w)" for es
    by (auto simp: ata_ready_def Let_def)
  show "\<exists>w'. blk_read (ata_blk hw) w (drive_ptr i) lba c =
      (w', concat (map (medium (io_log w)) [unat lba..<unat lba + unat c]), 0) \<and>
      ata_ready hw medium i n w' \<and> medium (io_log w') = medium (io_log w) \<and> w'\<lparr>io_log := []\<rparr> = w\<lparr>io_log := []\<rparr>"
    by (rule ata_read_sectors_ok [OF d(1-3) c(1) d(4), of w])
      (use d(5, 6) in \<open>auto simp: ata_blk_def ata_dev_read_blocks_def block_dev_at_def drive_ptr_def\<close>)
  fix bs :: bytes assume bs: "512 * unat c \<le> length bs"
  show "\<exists>w'. blk_write (ata_blk hw) w (drive_ptr i) lba c bs = Some (w', 0) \<and> ata_ready hw medium i n w' \<and>
      medium (io_log w') = overwritten (medium (io_log w)) (unat lba) (unat c) bs \<and> w'\<lparr>io_log := []\<rparr> = w\<lparr>io_log := []\<rparr>"
    by (rule ata_write_sectors_ok [OF d(1-3) c(1) d(4) bs, of w])
      (use d(5, 6) in \<open>auto simp: ata_blk_def ata_dev_write_blocks_def block_dev_at_def drive_ptr_def\<close>)
qed (auto simp: ata_ready_def Let_def ata_disk_medium)

section \<open>Properties\<close>


section \<open>A disk for examples\<close>

definition sector_of :: "u8 \<Rightarrow> u8 \<Rightarrow> ata_drive \<Rightarrow> u32 \<Rightarrow> io list \<Rightarrow> nat option" where
  "sector_of cmd ext d c g =
     (if \<not> selected d g then None
      else if c = ucast cmd then Some (unat (addr28 (io_base d) g))
      else if c = ucast ext then Some (unat (addr48 (io_base d) g)) else None)"

text \<open>The disk \<open>m\<close> with what the history has written to it.\<close>

fun demo_medium :: "(nat \<Rightarrow> bytes) \<Rightarrow> ata_drive \<Rightarrow> io list \<Rightarrow> nat \<Rightarrow> bytes" where
  "demo_medium m d [] = m"
| "demo_medium m d (In n p # h) = demo_medium m d h"
| "demo_medium m d (Out n p v # h) =
     (if n = 16 \<and> p = io_base d then
        (case xfer (io_base d) h of
           Some (c, g, ws) \<Rightarrow>
             (case sector_of ATA_CMD_WRITE_PIO ATA_CMD_WRITE_PIO_EXT d c g of
                Some l \<Rightarrow> if length ws = 255 then (demo_medium m d h)(l := word_bytes (rev (v # ws))) else demo_medium m d h
              | None \<Rightarrow> demo_medium m d h)
         | None \<Rightarrow> demo_medium m d h)
      else demo_medium m d h)"

definition demo_hw :: "(nat \<Rightarrow> bytes) \<Rightarrow> ata_drive \<Rightarrow> hardware" where
  "demo_hw m d h n p =
     (if n = 16 then
        (case xfer (io_base d) h of
           Some (c, g, ws) \<Rightarrow>
             (case sector_of ATA_CMD_READ_PIO ATA_CMD_READ_PIO_EXT d c g of
                Some l \<Rightarrow> ucast (get16 (demo_medium m d h l) (2 * length ws))
              | None \<Rightarrow> 0)
         | None \<Rightarrow> 0)
      else 0x48)"

lemma length_word_bytes: "length (word_bytes ws) = 2 * length ws"
  by (induction ws) (simp_all add: word_bytes_def)

lemma length_demo_medium: "(\<And>l. length (m l) = 512) \<Longrightarrow> length (demo_medium m d h l) = 512"
  by (induction m d h arbitrary: l rule: demo_medium.induct) (auto simp: length_word_bytes split: option.split)

lemma commands_differ:
  "(ucast ATA_CMD_READ_PIO :: u32) \<noteq> ucast ATA_CMD_READ_PIO_EXT" "(ucast ATA_CMD_WRITE_PIO :: u32) \<noteq> ucast ATA_CMD_WRITE_PIO_EXT"
  by (simp_all add: ATA_CMD_READ_PIO_def ATA_CMD_READ_PIO_EXT_def ATA_CMD_WRITE_PIO_def ATA_CMD_WRITE_PIO_EXT_def)

lemma demo_disk:
  assumes "\<And>l. length (m l) = 512"
  shows "ata_disk (demo_hw m d) d (demo_medium m d)"
proof -
  have st: "status_after (demo_hw m d) d k h = 0x48" for k h
    by (simp add: status_after_def demo_hw_def)
  have "disk_ready (demo_hw m d) d"
    by (auto simp: disk_ready_def st ATA_STATUS_BSY_def ATA_TIMEOUT_def intro!: exI [of _ 0])
  moreover have "disk_drq (demo_hw m d) d"
    by (auto simp: disk_drq_def st ATA_STATUS_BSY_def ATA_STATUS_DRQ_def ATA_STATUS_ERR_def ATA_STATUS_DF_def ATA_TIMEOUT_def intro!: exI [of _ 0])
  moreover have "disk_data (demo_hw m d) d (demo_medium m d)"
    using commands_differ by (auto simp: disk_data_def reads_sector_def demo_hw_def sector_of_def length_demo_medium [OF assms])
  moreover have "disk_write d (demo_medium m d)"
    using commands_differ by (auto simp: disk_write_def writes_sector_def sector_of_def)
  ultimately show ?thesis
    by (simp add: ata_disk_def)
qed

definition demo_drive :: ata_drive where
  "demo_drive = \<lparr>io_base = ATA_PRIMARY_IO, ctrl_base = ATA_PRIMARY_CTRL, drive_num = 0, drive_exists = True, lba48_supported = False,
     sector_count = 100, drive_model = [], drive_serial = [],
     drive_block_dev = \<lparr>bd_name = [], bd_total_sectors = 100, bd_sector_size = 512, bd_priv_data = Some (drive_ptr 0)\<rparr>\<rparr>"

definition demo_ata :: ata where
  "demo_ata = \<lparr>mounts = [], mount_count = 0, vnodes = (\<lambda>_. vfs_node_zero), tar_archive_base = None, tar_archive_size = 0,
     tarfs_file_count = 0, io_log = [], drives = [demo_drive], total_drives = 1, registered_devices = [], device_count = 0\<rparr>"


end
