(* ===== verification/Ext2Volume.thy ===== *)
theory Ext2Volume
  imports Ext2 AtaDisk
begin

text \<open>
  The file system on a working disk: allocation hands out free blocks only, and a file is an
  array of bytes that writing updates and reading returns.  The lemmas are proved for any
  block device that meets its contract and used for the ATA driver.
\<close>

section \<open>Fields of buffers\<close>

lemma length_set32 [simp]: "i + 4 \<le> length bs \<Longrightarrow> length (set32 bs i v) = length bs"
  by (simp add: set32_def)

lemma length_set16 [simp]: "i + 2 \<le> length bs \<Longrightarrow> length (set16 bs i v) = length bs"
  by (simp add: set16_def)

lemma get32_set32_same [simp]: "i + 4 \<le> length bs \<Longrightarrow> get32 (set32 bs i v) i = v"
  unfolding set32_def by (rule get32_put32) simp

lemma nth_set32: "i + 4 \<le> length bs \<Longrightarrow> j < i \<or> i + 4 \<le> j \<Longrightarrow> set32 bs i v ! j = bs ! j"
  by (auto simp: set32_def nth_append)

lemma nth_set16: "i + 2 \<le> length bs \<Longrightarrow> j < i \<or> i + 2 \<le> j \<Longrightarrow> set16 bs i v ! j = bs ! j"
  by (auto simp: set16_def nth_append simp del: add_2_eq_Suc add_2_eq_Suc')

lemma get32_set32_other: "i + 4 \<le> length bs \<Longrightarrow> j + 4 \<le> i \<or> i + 4 \<le> j \<Longrightarrow> get32 (set32 bs i v) j = get32 bs j"
  unfolding get32_def by (subst (1 2 3 4) nth_set32) auto

lemma get32_set16_other: "i + 2 \<le> length bs \<Longrightarrow> j + 4 \<le> i \<or> i + 2 \<le> j \<Longrightarrow> get32 (set16 bs i v) j = get32 bs j"
  unfolding get32_def by (subst (1 2 3 4) nth_set16) auto

lemma get16_set32_other: "i + 4 \<le> length bs \<Longrightarrow> j + 2 \<le> i \<or> i + 4 \<le> j \<Longrightarrow> get16 (set32 bs i v) j = get16 bs j"
  unfolding get16_def by (subst (1 2) nth_set32) auto

section \<open>Bitmaps\<close>

definition bm_bit :: "bytes \<Rightarrow> nat \<Rightarrow> bool" where
  "bm_bit bm b \<longleftrightarrow> bit (bm ! (b div 8)) (b mod 8)"

lemma first_clear_spec:
  "b + n \<le> 8 * length bm \<Longrightarrow>
    (case first_clear bm b n of
       None \<Rightarrow> False
     | Some None \<Rightarrow> \<forall>c. b \<le> c \<and> c < b + n \<longrightarrow> bm_bit bm c
     | Some (Some c) \<Rightarrow> b \<le> c \<and> c < b + n \<and> \<not> bm_bit bm c \<and> (\<forall>d. b \<le> d \<and> d < c \<longrightarrow> bm_bit bm d))"
proof (induction n arbitrary: b)
  case (Suc n)
  have b: "b div 8 < length bm"
    using Suc.prems by auto
  have clear: "(bm ! (b div 8) AND push_bit (b mod 8) 1 = 0) \<longleftrightarrow> \<not> bm_bit bm b"
    using and_push_bit_1_iff [of "bm ! (b div 8)" "b mod 8"] by (auto simp: bm_bit_def)
  show ?case
  proof (cases "bm_bit bm b")
    case True
    then have "(\<forall>c. b \<le> c \<and> c < m \<longrightarrow> bm_bit bm c) \<longleftrightarrow> (\<forall>c. Suc b \<le> c \<and> c < m \<longrightarrow> bm_bit bm c)" for m
      by (metis Suc_leD Suc_leI le_eq_less_or_eq)
    then show ?thesis
      using Suc.IH [of "b + 1"] Suc.prems b clear True by (simp add: at_idx_less split: option.splits)
  qed (use b clear in \<open>auto simp: at_idx_less\<close>)
qed auto

lemma bm_bit_set: "b < 8 * length bm \<Longrightarrow> bm_bit (set_bit_at bm b) c \<longleftrightarrow> c = b \<or> bm_bit bm c"
proof -
  assume b: "b < 8 * length bm"
  have eq: "c div 8 = b div 8 \<and> c mod 8 = b mod 8 \<longleftrightarrow> c = b"
    by (metis div_mult_mod_eq)
  have "c mod 8 < 8" "b div 8 < length bm"
    using b by auto
  then show ?thesis
    using eq by (auto simp: bm_bit_def set_bit_at_def nth_list_update bit_simps)
qed

lemma length_set_bit_at [simp]: "length (set_bit_at bm b) = length bm"
  by (simp add: set_bit_at_def)

section \<open>Volumes\<close>

text \<open>The contents of a block of 1024 bytes, from the sectors of the device.\<close>

definition block_at :: "(nat \<Rightarrow> bytes) \<Rightarrow> u32 \<Rightarrow> bytes" where
  "block_at s b = s (2 * unat b) @ s (2 * unat b + 1)"

definition in_range :: "nat \<Rightarrow> u32 \<Rightarrow> bool" where
  "in_range capacity b \<longleftrightarrow> 2 * unat b + 2 \<le> capacity"

definition mounted :: "static_ptr \<Rightarrow> ext2_fs \<Rightarrow> bool" where
  "mounted dev f \<longleftrightarrow> fs_dev f = Some dev \<and> block_size f = 1024 \<and> sectors_per_block f = 2 \<and> length (fs_bgds f) = 2048 \<and>
     length (fs_sb f) = 1024 \<and> 0 < s_blocks_per_group (fs_sb f) \<and> s_blocks_per_group (fs_sb f) \<le> 8192 \<and> group_count f \<le> 64 \<and>
     0 < s_first_data_block (fs_sb f)"

definition bufs_ok :: "ext2_bufs \<Rightarrow> bool" where
  "bufs_ok bu \<longleftrightarrow> length (buf_read_inode bu) = 4096 \<and> length (buf_write_inode bu) = 4096 \<and> length (buf_block_bitmap bu) = 4096 \<and>
     length (buf_inode_bitmap bu) = 4096 \<and> length (buf_write bu) = 4096 \<and> length (buf_dir bu) = 1024"

definition bitmap_of :: "ext2_fs \<Rightarrow> u32 \<Rightarrow> u32" where
  "bitmap_of f bg = get32 (fs_bgds f) (32 * unat bg)"

definition bitmap_blocks :: "ext2_fs \<Rightarrow> u32 set" where
  "bitmap_blocks f = bitmap_of f ` {bg. bg < group_count f}"

definition inode_blocks :: "ext2_fs \<Rightarrow> u32 set" where
  "inode_blocks f = {b. \<exists>ino off. inode_place f ino = Some (Some (b, off))}"

text \<open>The number of a block from its group and its bit, and whether the bit of a block is set.\<close>

definition block_no :: "ext2_fs \<Rightarrow> u32 \<Rightarrow> nat \<Rightarrow> nat" where
  "block_no f bg b = unat bg * unat (s_blocks_per_group (fs_sb f)) + b + unat (s_first_data_block (fs_sb f))"

definition block_used :: "ext2_fs \<Rightarrow> (u32 \<Rightarrow> bytes) \<Rightarrow> u32 \<Rightarrow> bool" where
  "block_used f B n \<longleftrightarrow> (\<exists>bg b. bg < group_count f \<and> b < unat (s_blocks_per_group (fs_sb f)) \<and> unat n = block_no f bg b \<and> bm_bit (B (bitmap_of f bg)) b)"

text \<open>No block of a group can be allocated, by its counter or its bitmap.\<close>

definition group_full :: "ext2_fs \<Rightarrow> (u32 \<Rightarrow> bytes) \<Rightarrow> u32 \<Rightarrow> bool" where
  "group_full f B bg \<longleftrightarrow> bg_free_blocks_count f bg = Some 0 \<or>
     (\<forall>b < unat (s_blocks_per_group (fs_sb f)). bm_bit (B (bitmap_of f bg)) b)"

text \<open>
  A consistent volume: the bitmaps and inode tables lie on the device, are marked used and do
  not overlap; every block that is marked free lies on the device.
\<close>

definition volume_ok :: "static_ptr \<Rightarrow> nat \<Rightarrow> ext2_fs \<Rightarrow> (u32 \<Rightarrow> bytes) \<Rightarrow> bool" where
  "volume_ok dev capacity f B \<longleftrightarrow> mounted dev f \<and>
     (\<forall>b \<in> bitmap_blocks f \<union> inode_blocks f. in_range capacity b \<and> block_used f B b) \<and>
     inj_on (bitmap_of f) {bg. bg < group_count f} \<and> bitmap_blocks f \<inter> inode_blocks f = {} \<and>
     128 \<le> unat (inode_size f) \<and> unat (inode_size f) dvd 1024 \<and>
     (\<forall>bg b. bg < group_count f \<and> b < unat (s_blocks_per_group (fs_sb f)) \<and> \<not> bm_bit (B (bitmap_of f bg)) b \<longrightarrow>
        block_no f bg b < 2 ^ 32 \<and> 2 * block_no f bg b + 2 \<le> capacity)"

lemma take_block_fields:
  assumes "mounted dev f" and "bg < group_count f"
  shows "bitmap_of (take_block bg f) = bitmap_of f" "bg_inode_table (take_block bg f) = bg_inode_table f"
    "s_blocks_per_group (fs_sb (take_block bg f)) = s_blocks_per_group (fs_sb f)"
    "s_first_data_block (fs_sb (take_block bg f)) = s_first_data_block (fs_sb f)"
    "s_inodes_per_group (fs_sb (take_block bg f)) = s_inodes_per_group (fs_sb f)"
    "group_count (take_block bg f) = group_count f" "block_size (take_block bg f) = block_size f" "inode_size (take_block bg f) = inode_size f"
    "mounted dev (take_block bg f)"
proof -
  have "unat bg < 64"
    using assms by (auto simp: mounted_def word_less_nat_alt word_le_nat_alt)
  then have len: "32 * unat bg + 12 + 2 \<le> length (fs_bgds f)" "12 + 4 \<le> length (fs_sb f)"
    using assms(1) by (auto simp: mounted_def)
  have other: "32 * unat x + 4 \<le> 32 * unat bg + 12 \<or> 32 * unat bg + 12 + 2 \<le> 32 * unat x"
      "32 * unat x + 8 + 4 \<le> 32 * unat bg + 12 \<or> 32 * unat bg + 12 + 2 \<le> 32 * unat x + 8" for x :: u32
    by (cases "unat x \<le> unat bg"; simp; linarith)+
  show "bitmap_of (take_block bg f) = bitmap_of f"
    by (simp add: bitmap_of_def take_block_def fun_eq_iff get32_set16_other [OF len(1) other(1)])
  show "bg_inode_table (take_block bg f) = bg_inode_table f"
    using len by (simp add: bg_inode_table_def take_block_def fun_eq_iff rd32_def get32_set16_other [OF len(1) other(2)])
  show sb: "s_blocks_per_group (fs_sb (take_block bg f)) = s_blocks_per_group (fs_sb f)"
    "s_first_data_block (fs_sb (take_block bg f)) = s_first_data_block (fs_sb f)"
    "s_inodes_per_group (fs_sb (take_block bg f)) = s_inodes_per_group (fs_sb f)"
    using len(2) by (simp_all add: take_block_def s_blocks_per_group_def s_first_data_block_def s_inodes_per_group_def get32_set32_other)
  show rest: "group_count (take_block bg f) = group_count f" "block_size (take_block bg f) = block_size f" "inode_size (take_block bg f) = inode_size f"
    by (simp_all add: take_block_def)
  show "mounted dev (take_block bg f)"
    using assms(1) sb rest len by (simp add: mounted_def) (simp add: take_block_def)
qed

lemma inode_place_cong:
  assumes "bg_inode_table g = bg_inode_table f" and "s_inodes_per_group (fs_sb g) = s_inodes_per_group (fs_sb f)"
    and "group_count g = group_count f" and "block_size g = block_size f" and "inode_size g = inode_size f"
  shows "inode_place g = inode_place f"
  unfolding inode_place_def fun_eq_iff assms by simp

lemma take_block_blocks:
  assumes "mounted dev f" and "bg < group_count f"
  shows "bitmap_blocks (take_block bg f) = bitmap_blocks f" "inode_place (take_block bg f) = inode_place f"
    "inode_blocks (take_block bg f) = inode_blocks f" "block_no (take_block bg f) = block_no f"
proof -
  note t = take_block_fields [OF assms]
  show "bitmap_blocks (take_block bg f) = bitmap_blocks f" "block_no (take_block bg f) = block_no f"
    by (simp_all add: bitmap_blocks_def block_no_def fun_eq_iff t)
  show pl: "inode_place (take_block bg f) = inode_place f"
    by (rule inode_place_cong) (simp_all add: t)
  show "inode_blocks (take_block bg f) = inode_blocks f"
    by (simp add: inode_blocks_def pl)
qed

text \<open>The effect of marking one block on the state of the volume.\<close>

definition marked :: "ext2_fs \<Rightarrow> u32 \<Rightarrow> nat \<Rightarrow> (u32 \<Rightarrow> bytes) \<Rightarrow> u32 \<Rightarrow> bytes" where
  "marked f bg b B = B(bitmap_of f bg := set_bit_at (B (bitmap_of f bg)) b)"

lemma marked_used:
  assumes "volume_ok dev capacity f B" and "bg < group_count f" and "b < unat (s_blocks_per_group (fs_sb f))"
    and "\<And>n. length (B n) = 1024"
  shows "block_used (take_block bg f) (marked f bg b B) n \<longleftrightarrow> block_used f B n \<or> unat n = block_no f bg b"
    "volume_ok dev capacity (take_block bg f) (marked f bg b B)"
proof -
  have m: "mounted dev f" and inj: "inj_on (bitmap_of f) {bg. bg < group_count f}"
    using assms(1) by (simp_all add: volume_ok_def)
  note t = take_block_fields [OF m assms(2)] take_block_blocks [OF m assms(2)]
  have "unat (s_blocks_per_group (fs_sb f)) \<le> 8192"
    using m by (auto simp: mounted_def word_le_nat_alt)
  then have b: "b < 8 * length (B n)" for n
    using assms(3, 4) by simp
  have bit: "bm_bit (marked f bg b B (bitmap_of f g)) c \<longleftrightarrow> bm_bit (B (bitmap_of f g)) c \<or> g = bg \<and> c = b" if "g < group_count f" for g c
    using inj_onD [OF inj, of g bg] that assms(2) bm_bit_set [OF b] by (auto simp: marked_def)
  show used: "block_used (take_block bg f) (marked f bg b B) n \<longleftrightarrow> block_used f B n \<or> unat n = block_no f bg b" for n
    using assms(2, 3) bit by (auto simp: block_used_def t)
  have "bm_bit (marked f bg b B (bitmap_of f g)) c" if "bm_bit (B (bitmap_of f g)) c" "g < group_count f" for g c
    using bit that by simp
  then show "volume_ok dev capacity (take_block bg f) (marked f bg b B)"
    using assms(1) used t(9) unfolding volume_ok_def t by blast
qed

text \<open>
  A block device under the file system: its operations keep the state of the file system, and that
  state has no part in the device.
\<close>

locale volume = block_device bd dev ok capacity sectors rest
  for bd :: "'a ext2_scheme blk_ops" and dev :: static_ptr and ok :: "'a ext2_scheme \<Rightarrow> bool" and capacity :: nat
    and sectors :: "'a ext2_scheme \<Rightarrow> nat \<Rightarrow> bytes" and rest :: "'a ext2_scheme \<Rightarrow> 'v" +
  assumes rest_law: "rest w' = rest w \<Longrightarrow> e2fs w' = e2fs w \<and> node_pool w' = node_pool w \<and> e2_bufs w' = e2_bufs w \<and> vnodes w' = vnodes w"
    and ok_law: "ok (w\<lparr>primary_ext2 := f\<rparr>) = ok w" "ok (w\<lparr>node_pool := p\<rparr>) = ok w" "ok (w\<lparr>e2_bufs := b\<rparr>) = ok w" "ok (w\<lparr>vnodes := v\<rparr>) = ok w"
    and sectors_law: "sectors (w\<lparr>primary_ext2 := f\<rparr>) = sectors w" "sectors (w\<lparr>node_pool := p\<rparr>) = sectors w"
      "sectors (w\<lparr>e2_bufs := b\<rparr>) = sectors w" "sectors (w\<lparr>vnodes := v\<rparr>) = sectors w"
begin

lemmas ext2_laws = ok_law sectors_law

abbreviation blk :: "'a ext2_scheme \<Rightarrow> u32 \<Rightarrow> bytes" where
  "blk w \<equiv> block_at (sectors w)"

lemma length_blk [simp]: "ok w \<Longrightarrow> length (blk w b) = 1024"
  by (simp add: block_at_def sector_law)

lemma blk_cong: "sectors w' = sectors w \<Longrightarrow> blk w' = blk w"
  by (simp add: block_at_def fun_eq_iff)

lemma lba_of_block: "unat (ucast (b :: u32) * 2 :: u64) = 2 * unat b"
proof -
  have "unat (ucast b :: u64) * 2 < 2 ^ 64"
    using unat_u32_less [of b] by (simp add: unat_ucast_widen)
  then show ?thesis
    by (simp add: unat_word_ariths unat_ucast_widen)
qed

lemma read_block_ok:
  assumes "ok w" and "mounted dev (e2fs w)" and "in_range capacity b" and "1024 \<le> length buf"
  obtains w' where "ext2_read_block bd w b buf = Some (w', blk w b @ drop 1024 buf, 0)" "ok w'" "sectors w' = sectors w" "rest w' = rest w"
proof -
  have "unat (ucast b * 2 :: u64) + unat (2 :: u32) \<le> capacity"
    using assms(3) by (simp add: lba_of_block in_range_def)
  then obtain w' where w': "blk_read bd w dev (ucast b * 2) 2 = (w', concat (map (sectors w) [2 * unat b..<2 * unat b + 2]), 0)"
      "ok w'" "sectors w' = sectors w" "rest w' = rest w"
    using read_law [OF assms(1), of 2 "ucast b * 2"] by (auto simp: lba_of_block)
  have "[2 * unat b..<2 * unat b + 2] = [2 * unat b, 2 * unat b + 1]"
    by (simp add: upt_rec)
  then have bs: "concat (map (sectors w) [2 * unat b..<2 * unat b + 2]) = blk w b"
    by (simp add: block_at_def)
  have "ext2_read_block bd w b buf = Some (w', blk w b @ drop 1024 buf, 0)"
    using w'(1) assms(1, 2, 4) unfolding bs by (simp add: ext2_read_block_def mounted_def blit_def)
  then show thesis
    using that w' by blast
qed

lemma write_block_ok:
  assumes "ok w" and "mounted dev (e2fs w)" and "in_range capacity b" and "1024 \<le> length buf"
  obtains w' where "ext2_write_block bd w b buf = Some (w', 0)" "ok w'" "blk w' = (blk w)(b := take 1024 buf)" "rest w' = rest w"
proof -
  have "unat (ucast b * 2 :: u64) + unat (2 :: u32) \<le> capacity"
    using assms(3) by (simp add: lba_of_block in_range_def)
  then obtain w' where w': "blk_write bd w dev (ucast b * 2) 2 buf = Some (w', 0)" "ok w'"
      "sectors w' = overwritten (sectors w) (2 * unat b) 2 buf" "rest w' = rest w"
    using write_law [OF assms(1), of 2 "ucast b * 2" buf] assms(4) by (auto simp: lba_of_block)
  have "blk w' c = ((blk w)(b := take 1024 buf)) c" for c
  proof (cases "c = b")
    case True
    have "take 512 buf @ take 512 (drop 512 buf) = take 1024 buf"
      using take_add [of 512 512 buf] by simp
    then show ?thesis
      using True by (simp add: block_at_def w'(3) overwritten_def)
  next
    case False
    then have "unat c \<noteq> unat b"
      by (metis word_unat_eq_iff)
    then have "2 * unat c < 2 * unat b \<and> 2 * unat c + 1 < 2 * unat b \<or> 2 * unat b + 2 \<le> 2 * unat c"
      by linarith
    then show ?thesis
      using False by (auto simp: block_at_def w'(3) overwritten_def)
  qed
  moreover have "ext2_write_block bd w b buf = Some (w', 0)"
    using w'(1) assms(2) by (simp add: ext2_write_block_def mounted_def)
  ultimately show thesis
    using that w' by blast
qed

end

interpretation ata_vol: volume "ata_blk hw" "drive_ptr i" "ata_ready hw medium i n" n "\<lambda>w. medium (io_log w)" "\<lambda>w. w\<lparr>io_log := []\<rparr>"
  for hw medium i n
proof unfold_locales
  fix w w' :: "'a ext2_scheme"
  assume "w'\<lparr>io_log := []\<rparr> = w\<lparr>io_log := []\<rparr>"
  then have "e2fs (w'\<lparr>io_log := []\<rparr>) = e2fs (w\<lparr>io_log := []\<rparr>)" "node_pool (w'\<lparr>io_log := []\<rparr>) = node_pool (w\<lparr>io_log := []\<rparr>)"
      "e2_bufs (w'\<lparr>io_log := []\<rparr>) = e2_bufs (w\<lparr>io_log := []\<rparr>)" "vnodes (w'\<lparr>io_log := []\<rparr>) = vnodes (w\<lparr>io_log := []\<rparr>)"
    by simp_all
  then show "e2fs w' = e2fs w \<and> node_pool w' = node_pool w \<and> e2_bufs w' = e2_bufs w \<and> vnodes w' = vnodes w"
    by simp
qed (simp_all add: ata_ready_def)

context volume
begin

text \<open>Reading into or writing from a static buffer leaves everything else of the file system alone.\<close>

definition keeps :: "'a ext2_scheme \<Rightarrow> 'a ext2_scheme \<Rightarrow> bool" where
  "keeps w w' \<longleftrightarrow> ok w' \<and> node_pool w' = node_pool w \<and> vnodes w' = vnodes w \<and> (bufs_ok (e2_bufs w) \<longrightarrow> bufs_ok (e2_bufs w')) \<and>
     buf_write (e2_bufs w') = buf_write (e2_bufs w) \<and> buf_dir (e2_bufs w') = buf_dir (e2_bufs w)"

lemma keeps_trans: "keeps w w1 \<Longrightarrow> keeps w1 w2 \<Longrightarrow> keeps w w2"
  by (auto simp: keeps_def)

lemma keeps_rest: "ok w' \<Longrightarrow> rest w' = rest w \<Longrightarrow> keeps w w'"
  using rest_law [of w' w] by (simp add: keeps_def)

definition alloc_outcome :: "'a ext2_scheme \<Rightarrow> 'a ext2_scheme \<Rightarrow> u32 \<Rightarrow> bool" where
  "alloc_outcome w w' n \<longleftrightarrow>
     (if n = 0 then e2fs w' = e2fs w \<and> blk w' = blk w
      else \<exists>bg b. bg < group_count (e2fs w) \<and> b < unat (s_blocks_per_group (fs_sb (e2fs w))) \<and>
        \<not> bm_bit (blk w (bitmap_of (e2fs w) bg)) b \<and> unat n = block_no (e2fs w) bg b \<and>
        e2fs w' = take_block bg (e2fs w) \<and> blk w' = marked (e2fs w) bg b (blk w))"

text \<open>A clear bit has been found in the bitmap of a group.\<close>

lemma alloc_found:
  assumes vol: "volume_ok dev capacity (e2fs w) (blk w)" and bg: "bg < group_count (e2fs w)" and k: "keeps w w2" and eq: "e2fs w2 = e2fs w" "blk w2 = blk w"
    and b: "b < unat (s_blocks_per_group (fs_sb (e2fs w)))" "\<not> bm_bit (blk w (bitmap_of (e2fs w) bg)) b"
    and bm: "length bm = 4096" "take 1024 bm = blk w (bitmap_of (e2fs w) bg)" and bufs: "bufs_ok (e2_bufs w)"
  shows "\<exists>w' r. do {
      (w, r) \<leftarrow> ext2_write_block bd (w2\<lparr>e2_bufs := (e2_bufs w2)\<lparr>buf_block_bitmap := set_bit_at bm b\<rparr>\<rparr>) (bitmap_of (e2fs w) bg) (set_bit_at bm b);
      let w = w\<lparr>primary_ext2 := take_block bg (e2fs w)\<rparr>
      in Some (w, bg * s_blocks_per_group (fs_sb (e2fs w)) + of_nat b + s_first_data_block (fs_sb (e2fs w)))
    } = Some (w', r) \<and> keeps w w' \<and> alloc_outcome w w' r \<and> r \<noteq> 0"
proof -
  define f where "f = e2fs w"
  define n where "n = bg * s_blocks_per_group (fs_sb f) + of_nat b + s_first_data_block (fs_sb f)"
  define w3 where "w3 = w2\<lparr>e2_bufs := (e2_bufs w2)\<lparr>buf_block_bitmap := set_bit_at bm b\<rparr>\<rparr>"
  have m: "mounted dev f" and rng: "in_range capacity (bitmap_of f bg)" and free: "block_no f bg b < 2 ^ 32"
    using vol bg b by (auto simp: volume_ok_def f_def bitmap_blocks_def)
  have w3: "ok w3" "e2fs w3 = f" "keeps w w3" "blk w3 = blk w"
    using k eq bm(1) bufs by (auto simp: w3_def keeps_def ext2_laws f_def bufs_ok_def)
  have bpg: "unat (s_blocks_per_group (fs_sb f)) \<le> 8192"
    using m by (auto simp: mounted_def word_le_nat_alt)
  obtain w4 where w4: "ext2_write_block bd w3 (bitmap_of f bg) (set_bit_at bm b) = Some (w4, 0)" "ok w4"
      "blk w4 = (blk w3)(bitmap_of f bg := take 1024 (set_bit_at bm b))" "rest w4 = rest w3"
    by (rule write_block_ok [OF w3(1) _ rng]) (use m w3(2) bm(1) in auto)
  have "take 1024 (set_bit_at bm b) = set_bit_at (take 1024 bm) b"
    using b(1) bpg by (simp add: set_bit_at_def take_update_swap f_def)
  then have blk4: "blk w4 = marked f bg b (blk w)"
    using w4(3) bm(2) by (simp add: w3(4) marked_def f_def)
  define w5 where "w5 = w4\<lparr>primary_ext2 := take_block bg f\<rparr>"
  have w5: "keeps w w5" "e2fs w5 = take_block bg f" "blk w5 = marked f bg b (blk w)"
    using keeps_trans [OF w3(3) keeps_rest [OF w4(2, 4)]] blk4 by (auto simp: w5_def keeps_def ext2_laws)
  have n: "unat n = block_no f bg b"
    using free by (simp add: n_def block_no_def unat_word_ariths unat_of_nat mod_simps)
  then have n0: "n \<noteq> 0"
    using m by (auto simp: block_no_def mounted_def word_less_nat_alt)
  then have "alloc_outcome w w5 n"
    using w5 n bg b by (auto simp: alloc_outcome_def f_def)
  moreover have "e2fs w4 = f"
    using rest_law [OF w4(4)] w3(2) by simp
  ultimately show ?thesis
    using w4(1) w5(1) bg m n0 take_block_fields [OF m bg [folded f_def]]
    by (simp add: w3_def [symmetric] f_def [symmetric] w5_def [symmetric] n_def [symmetric] Let_def)
qed

lemma alloc_block_loop_ok:
  assumes "ok w" and "volume_ok dev capacity (e2fs w) (blk w)" and "bufs_ok (e2_bufs w)" and "unat bg + n = unat (group_count (e2fs w))"
  shows "\<exists>w' r. alloc_block_loop bd bg n w = Some (w', r) \<and> keeps w w' \<and> alloc_outcome w w' r \<and>
    (r = 0 \<longrightarrow> (\<forall>g. bg \<le> g \<and> g < group_count (e2fs w) \<longrightarrow> group_full (e2fs w) (blk w) g))"
  using assms
proof (induction n arbitrary: bg w)
  case 0
  then show ?case
    by (auto simp: keeps_def alloc_outcome_def word_le_nat_alt word_less_nat_alt)
next
  case (Suc n)
  define f where "f = e2fs w"
  have m: "mounted dev f"
    using Suc.prems(2) by (simp add: volume_ok_def f_def)
  have bg: "bg < group_count f"
    using Suc.prems(4) by (simp add: f_def word_less_nat_alt)
  then have bg64: "unat bg < 64"
    using m by (auto simp: mounted_def word_less_nat_alt word_le_nat_alt)
  have next_bg: "unat (bg + 1) + n = unat (group_count f)"
    using Suc.prems(4) bg64 unat_add_no_wrap [of bg 1] by (simp add: f_def)
  obtain free where free: "bg_free_blocks_count f bg = Some free"
    using bg64 m by (simp add: bg_free_blocks_count_def rd16_def mounted_def)
  have bb: "bg_block_bitmap f bg = Some (bitmap_of f bg)"
    using bg64 m by (simp add: bg_block_bitmap_def bitmap_of_def rd32_def mounted_def)
  have "bitmap_of f bg \<in> bitmap_blocks f"
    using bg by (simp add: bitmap_blocks_def)
  then have rng: "in_range capacity (bitmap_of f bg)"
    using Suc.prems(2) by (simp add: volume_ok_def f_def)
  obtain w1 where w1: "ext2_read_block bd w (bitmap_of f bg) (buf_block_bitmap (e2_bufs w)) =
      Some (w1, blk w (bitmap_of f bg) @ drop 1024 (buf_block_bitmap (e2_bufs w)), 0)" "ok w1" "sectors w1 = sectors w" "rest w1 = rest w"
    by (rule read_block_ok [OF Suc.prems(1) _ rng]) (use m Suc.prems(3) in \<open>auto simp: f_def bufs_ok_def\<close>)
  define bm where "bm = blk w (bitmap_of f bg) @ drop 1024 (buf_block_bitmap (e2_bufs w))"
  define w2 where "w2 = w1\<lparr>e2_bufs := (e2_bufs w1)\<lparr>buf_block_bitmap := bm\<rparr>\<rparr>"
  have len: "length bm = 4096"
    using Suc.prems(1, 3) by (simp add: bm_def bufs_ok_def)
  have w2: "ok w2" "blk w2 = blk w" "e2fs w2 = f" "keeps w w2"
    using w1 rest_law [OF w1(4)] len by (auto simp: w2_def ext2_laws f_def keeps_def bufs_ok_def)
  have bpg: "unat (s_blocks_per_group (fs_sb f)) \<le> 8192"
    using m by (auto simp: mounted_def word_le_nat_alt)
  have bit: "bm_bit bm b \<longleftrightarrow> bm_bit (blk w (bitmap_of f bg)) b" if "b < unat (s_blocks_per_group (fs_sb f))" for b
  proof -
    have "b div 8 < 1024"
      using that bpg by (simp add: less_mult_imp_div_less)
    then show ?thesis
      using Suc.prems(1) by (simp add: bm_bit_def bm_def nth_append)
  qed
  have from_bg: "g = bg \<or> bg + 1 \<le> g" if "bg \<le> g" for g
    using that bg64 unat_add_no_wrap [of bg 1] by (auto simp: word_le_nat_alt word_unat_eq_iff)
  have later: "keeps w w' \<and> alloc_outcome w w' r \<and>
      (r = 0 \<longrightarrow> (\<forall>g. bg \<le> g \<and> g < group_count (e2fs w) \<longrightarrow> group_full (e2fs w) (blk w) g))"
    if "keeps w v" "keeps v w'" "alloc_outcome v w' r" "e2fs v = f" "blk v = blk w" "group_full f (blk w) bg"
      "r = 0 \<longrightarrow> (\<forall>g. bg + 1 \<le> g \<and> g < group_count (e2fs v) \<longrightarrow> group_full (e2fs v) (blk v) g)" for v w' r
    using that keeps_trans [of w v w'] from_bg by (auto simp: alloc_outcome_def f_def)
  have go: "\<exists>w' r. alloc_block_loop bd (bg + 1) n v = Some (w', r) \<and> keeps w w' \<and> alloc_outcome w w' r \<and>
      (r = 0 \<longrightarrow> (\<forall>g. bg \<le> g \<and> g < group_count (e2fs w) \<longrightarrow> group_full (e2fs w) (blk w) g))"
    if "keeps w v" "e2fs v = f" "blk v = blk w" "group_full f (blk w) bg" for v
  proof -
    have "ok v" "volume_ok dev capacity (e2fs v) (blk v)" "bufs_ok (e2_bufs v)" "unat (bg + 1) + n = unat (group_count (e2fs v))"
      using that Suc.prems(2, 3) next_bg by (simp_all add: keeps_def f_def)
    from Suc.IH [OF this] obtain w' r where "alloc_block_loop bd (bg + 1) n v = Some (w', r)" "keeps v w'" "alloc_outcome v w' r"
        "r = 0 \<longrightarrow> (\<forall>g. bg + 1 \<le> g \<and> g < group_count (e2fs v) \<longrightarrow> group_full (e2fs v) (blk v) g)"
      by auto
    then show ?thesis
      using later [OF that(1) _ _ that(2-4)] by metis
  qed
  show ?case
  proof (cases "free = 0")
    case True
    have "keeps w w"
      using Suc.prems(1) by (simp add: keeps_def)
    then show ?thesis
      using go [of w] free True by (simp add: f_def group_full_def)
  next
    case False
    note step = False free bb w1(1) w2(3) f_def [symmetric] bm_def [symmetric] w2_def [symmetric]
    have sp: "0 + unat (s_blocks_per_group (fs_sb f)) \<le> 8 * length bm"
      using bpg len by simp
    consider "first_clear bm 0 (unat (s_blocks_per_group (fs_sb f))) = Some None" "\<forall>b < unat (s_blocks_per_group (fs_sb f)). bm_bit bm b"
      | b where "first_clear bm 0 (unat (s_blocks_per_group (fs_sb f))) = Some (Some b)" "b < unat (s_blocks_per_group (fs_sb f))" "\<not> bm_bit bm b"
      using first_clear_spec [OF sp] by (auto split: option.splits)
    then show ?thesis
    proof cases
      case 1
      then show ?thesis
        using go [OF w2(4, 3, 2)] bit by (simp add: step group_full_def)
    next
      case (2 b)
      have "\<not> bm_bit (blk w (bitmap_of f bg)) b" "take 1024 bm = blk w (bitmap_of f bg)"
        using 2(2, 3) bit Suc.prems(1) by (simp_all add: bm_def)
      then show ?thesis
        using alloc_found [OF Suc.prems(2) bg [unfolded f_def] w2(4) w2(3) [unfolded f_def] w2(2) 2(2) [unfolded f_def] _ len _ Suc.prems(3)] 2(1)
        by (auto simp: step)
    qed
  qed
qed

end

section \<open>Files\<close>

text \<open>The direct blocks of a file: on the device, marked used, apart from the tables and from each other.\<close>

definition file_ok :: "nat \<Rightarrow> ext2_fs \<Rightarrow> (u32 \<Rightarrow> bytes) \<Rightarrow> bytes \<Rightarrow> bool" where
  "file_ok capacity f B inode \<longleftrightarrow> length inode = 128 \<and>
     (\<forall>i < 12. i_block inode i \<noteq> 0 \<longrightarrow> in_range capacity (i_block inode i) \<and> block_used f B (i_block inode i) \<and>
        i_block inode i \<notin> bitmap_blocks f \<union> inode_blocks f) \<and>
     (\<forall>i < 12. \<forall>j < 12. i_block inode i = i_block inode j \<and> i_block inode i \<noteq> 0 \<longrightarrow> i = j)"

text \<open>The contents of a block of a file; a block that does not exist reads as zeros.\<close>

definition fblock :: "(u32 \<Rightarrow> bytes) \<Rightarrow> bytes \<Rightarrow> nat \<Rightarrow> bytes" where
  "fblock B inode i = (if i_block inode i = 0 then replicate 1024 0 else B (i_block inode i))"

definition file_byte :: "(u32 \<Rightarrow> bytes) \<Rightarrow> bytes \<Rightarrow> nat \<Rightarrow> u8" where
  "file_byte B inode p = fblock B inode (p div 1024) ! (p mod 1024)"

lemma block_no_inject:
  assumes "b < unat (s_blocks_per_group (fs_sb f))" and "c < unat (s_blocks_per_group (fs_sb f))" and "block_no f bg b = block_no f g c"
  shows "bg = g \<and> b = c"
proof -
  define m where "m = unat (s_blocks_per_group (fs_sb f))"
  have "unat bg * m + b = unat g * m + c"
    using assms(3) by (simp add: block_no_def m_def)
  then have "(unat bg * m + b) div m = (unat g * m + c) div m" "(unat bg * m + b) mod m = (unat g * m + c) mod m"
    by simp_all
  then show ?thesis
    using assms(1, 2) by (simp add: m_def [symmetric] word_unat_eq_iff)
qed

lemma i_block_set32:
  assumes "length inode = 128" and "i < 12" and "j < 12"
  shows "i_block (set32 inode (40 + 4 * i) v) j = (if j = i then v else i_block inode j)"
proof (cases "j = i")
  case True
  have "40 + 4 * i + 4 \<le> length inode"
    using assms by simp
  then show ?thesis
    using True by (simp add: i_block_def)
next
  case False
  have "40 + 4 * i + 4 \<le> length inode" "40 + 4 * j + 4 \<le> 40 + 4 * i \<or> 40 + 4 * i + 4 \<le> 40 + 4 * j"
    using assms False by auto
  then show ?thesis
    using False by (simp only: i_block_def get32_set32_other if_False)
qed

lemma i_block_low:
  assumes "length inode = 128" and "i + 4 \<le> 40"
  shows "i_block (set32 inode i v) j = i_block inode j" "length (set32 inode i v) = 128"
  using assms by (simp_all add: i_block_def get32_set32_other)

lemma i_size_set32:
  assumes "length inode = 128" and "8 \<le> i" and "i + 4 \<le> 128"
  shows "i_size (set32 inode i v) = i_size inode"
  using assms by (simp add: i_size_def get32_set32_other)

context volume
begin

lemma alloc_block_ok:
  assumes "ok w" and "volume_ok dev capacity (e2fs w) (blk w)" and "bufs_ok (e2_bufs w)"
  obtains w' n where "ext2_alloc_block bd w = Some (w', n)" "keeps w w'" "alloc_outcome w w' n"
    "n = 0 \<Longrightarrow> \<forall>g < group_count (e2fs w). group_full (e2fs w) (blk w) g"
  using alloc_block_loop_ok [OF assms, of 0 "unat (group_count (e2fs w))"] by (auto simp: ext2_alloc_block_def)

text \<open>A block that has been allocated was free, and nothing but the bitmap of its group has changed.\<close>

lemma alloc_fresh:
  assumes "ok w" and "volume_ok dev capacity (e2fs w) (blk w)" and "alloc_outcome w w' n" and "n \<noteq> 0"
  shows "\<not> block_used (e2fs w) (blk w) n" "in_range capacity n" "block_used (e2fs w') (blk w') n"
    "\<And>m. block_used (e2fs w) (blk w) m \<Longrightarrow> block_used (e2fs w') (blk w') m"
    "volume_ok dev capacity (e2fs w') (blk w')" "\<And>m. m \<notin> bitmap_blocks (e2fs w) \<Longrightarrow> blk w' m = blk w m"
    "bitmap_blocks (e2fs w') = bitmap_blocks (e2fs w)" "inode_place (e2fs w') = inode_place (e2fs w)"
    "inode_blocks (e2fs w') = inode_blocks (e2fs w)" "block_size (e2fs w') = block_size (e2fs w)"
proof -
  define f where "f = e2fs w"
  obtain bg b where bg: "bg < group_count f" "b < unat (s_blocks_per_group (fs_sb f))" "\<not> bm_bit (blk w (bitmap_of f bg)) b"
      "unat n = block_no f bg b" "e2fs w' = take_block bg f" "blk w' = marked f bg b (blk w)"
    using assms(3, 4) by (auto simp: alloc_outcome_def f_def)
  have m: "mounted dev f"
    using assms(2) by (simp add: volume_ok_def f_def)
  note mk = marked_used [OF assms(2) [folded f_def] bg(1, 2) length_blk [OF assms(1)]]
  show "block_used (e2fs w') (blk w') n" "block_used (e2fs w) (blk w) m \<Longrightarrow> block_used (e2fs w') (blk w') m"
    "volume_ok dev capacity (e2fs w') (blk w')" for m
    using mk bg(4-6) by (simp_all add: f_def)
  show "\<not> block_used (e2fs w) (blk w) n"
    using block_no_inject [OF bg(2)] bg(3, 4) unfolding block_used_def f_def by metis
  show "in_range capacity n"
    using assms(2) bg by (auto simp: volume_ok_def in_range_def f_def)
  show "blk w' m = blk w m" if "m \<notin> bitmap_blocks (e2fs w)" for m
    using that bg(1, 6) by (auto simp: marked_def bitmap_blocks_def f_def)
  show "bitmap_blocks (e2fs w') = bitmap_blocks (e2fs w)" "inode_place (e2fs w') = inode_place (e2fs w)"
    "inode_blocks (e2fs w') = inode_blocks (e2fs w)" "block_size (e2fs w') = block_size (e2fs w)"
    using take_block_blocks [OF m bg(1)] take_block_fields [OF m bg(1)] by (simp_all add: bg(5) f_def)
qed

end

text \<open>
  What writing to file \<open>k\<close> does to the volume: it stays consistent, the file keeps its number and
  size field and gains blocks that were free, and no block that was in use changes, except for the
  bitmaps and the blocks of the file.
\<close>

definition file_blocks :: "bytes \<Rightarrow> u32 set" where
  "file_blocks inode = i_block inode ` {..<12} - {0}"

context volume
begin

abbreviation finode :: "'a ext2_scheme \<Rightarrow> nat \<Rightarrow> bytes" where
  "finode w k \<equiv> ni_inode (node_pool w ! k)"

definition sound :: "'a ext2_scheme \<Rightarrow> nat \<Rightarrow> bool" where
  "sound w k \<longleftrightarrow> ok w \<and> volume_ok dev capacity (e2fs w) (blk w) \<and> bufs_ok (e2_bufs w) \<and> k < length (node_pool w) \<and>
     file_ok capacity (e2fs w) (blk w) (finode w k)"

definition wrote :: "'a ext2_scheme \<Rightarrow> 'a ext2_scheme \<Rightarrow> nat \<Rightarrow> bool" where
  "wrote w w' k \<longleftrightarrow> sound w' k \<and> (\<forall>j. j \<noteq> k \<longrightarrow> node_pool w' ! j = node_pool w ! j) \<and> length (node_pool w') = length (node_pool w) \<and>
     ni_ino (node_pool w' ! k) = ni_ino (node_pool w ! k) \<and> i_size (finode w' k) = i_size (finode w k) \<and> vnodes w' = vnodes w \<and>
     bitmap_blocks (e2fs w') = bitmap_blocks (e2fs w) \<and> inode_place (e2fs w') = inode_place (e2fs w) \<and>
     inode_blocks (e2fs w') = inode_blocks (e2fs w) \<and>
     (\<forall>b. block_used (e2fs w) (blk w) b \<longrightarrow> block_used (e2fs w') (blk w') b) \<and>
     (\<forall>b \<in> file_blocks (finode w' k). b \<in> file_blocks (finode w k) \<or> \<not> block_used (e2fs w) (blk w) b) \<and>
     (\<forall>b. block_used (e2fs w) (blk w) b \<and> b \<notin> bitmap_blocks (e2fs w) \<and> b \<notin> file_blocks (finode w k) \<longrightarrow> blk w' b = blk w b)"

lemma wrote_refl: "sound w k \<Longrightarrow> wrote w w k"
  by (simp add: wrote_def)

lemma wrote_trans:
  assumes "wrote w w1 k" and "wrote w1 w2 k"
  shows "wrote w w2 k"
proof -
  have "blk w2 b = blk w b" if b: "block_used (e2fs w) (blk w) b" "b \<notin> bitmap_blocks (e2fs w)" "b \<notin> file_blocks (finode w k)" for b
  proof -
    have "b \<notin> file_blocks (finode w1 k)"
      using assms(1) b by (auto simp: wrote_def)
    then show ?thesis
      using assms b by (simp add: wrote_def)
  qed
  moreover have "b \<in> file_blocks (finode w k) \<or> \<not> block_used (e2fs w) (blk w) b" if "b \<in> file_blocks (finode w2 k)" for b
    using assms that by (auto simp: wrote_def)
  ultimately show ?thesis
    using assms by (simp add: wrote_def)
qed

lemma sound_cong:
  assumes "sound w k" and "ok w'" and "e2fs w' = e2fs w" and "blk w' = blk w" and "bufs_ok (e2_bufs w')" and "node_pool w' = node_pool w"
  shows "sound w' k"
  using assms by (simp add: sound_def)

end

context volume
begin

text \<open>A block outside the bitmaps may change without effect on the consistency of the volume.\<close>

lemma other_block:
  assumes "volume_ok dev capacity f B" and "n \<notin> bitmap_blocks f"
  shows "block_used f (B(n := x)) = block_used f B" "volume_ok dev capacity f (B(n := x))" "\<And>g. g < group_count f \<Longrightarrow> group_full f (B(n := x)) g = group_full f B g"
proof -
  have bm: "(B(n := x)) (bitmap_of f bg) = B (bitmap_of f bg)" if "bg < group_count f" for bg
    using assms(2) that by (auto simp: bitmap_blocks_def)
  show used: "block_used f (B(n := x)) = block_used f B"
    unfolding block_used_def fun_eq_iff [of "\<lambda>n. \<exists>bg. P bg n" for P] using bm by metis
  show "volume_ok dev capacity f (B(n := x))"
    using assms(1) bm unfolding volume_ok_def used by metis
  show "group_full f (B(n := x)) g = group_full f B g" if "g < group_count f" for g
    using bm [OF that] by (simp add: group_full_def del: fun_upd_apply)
qed

text \<open>Writing a block of the file.\<close>

lemma wrote_block:
  assumes "sound w k" and "n \<in> file_blocks (finode w k)" and "keeps w w'" and "e2fs w' = e2fs w" and "blk w' = (blk w)(n := x)"
  shows "wrote w w' k"
proof -
  have n: "n \<notin> bitmap_blocks (e2fs w)"
    using assms(1, 2) by (auto simp: sound_def file_ok_def file_blocks_def)
  have vol: "volume_ok dev capacity (e2fs w) (blk w)"
    using assms(1) by (simp add: sound_def)
  note ob = other_block [OF vol n]
  have "sound w' k"
    using assms(1, 3, 4) ob unfolding sound_def file_ok_def assms(5) by (auto simp: keeps_def)
  then show ?thesis
    using assms(2-4) ob unfolding wrote_def assms(5) by (auto simp: keeps_def)
qed

text \<open>A new block enters the file.\<close>

lemma file_ok_new_block:
  assumes vol: "volume_ok dev capacity (e2fs w) (blk w)" and ok: "ok w" and out: "alloc_outcome w w' n" "n \<noteq> 0"
    and file_ok: "file_ok capacity (e2fs w) (blk w) inode" and i: "i < 12"
  shows "file_ok capacity (e2fs w') (blk w') (set32 (set32 inode (40 + 4 * i) n) 28 v)"
    "n \<notin> bitmap_blocks (e2fs w)" "n \<notin> file_blocks inode"
proof -
  note af = alloc_fresh [OF ok vol out]
  have len: "length inode = 128" "length (set32 inode (40 + 4 * i) n) = 128"
    using file_ok i by (simp_all add: file_ok_def)
  have used: "block_used (e2fs w) (blk w) b" if "b \<in> bitmap_blocks (e2fs w) \<union> inode_blocks (e2fs w)" for b
    using vol that by (auto simp: volume_ok_def)
  then have n: "n \<notin> bitmap_blocks (e2fs w) \<union> inode_blocks (e2fs w)"
    using af(1) by blast
  have "b \<noteq> n" if "b \<in> file_blocks inode" for b
    using that file_ok af(1) by (auto simp: file_ok_def file_blocks_def)
  then show nf: "n \<notin> file_blocks inode" "n \<notin> bitmap_blocks (e2fs w)"
    using n by auto
  have ib: "i_block (set32 (set32 inode (40 + 4 * i) n) 28 v) j = (if j = i then n else i_block inode j)" if "j < 12" for j
    using i_block_low [OF len(2), of 28 v] i_block_set32 [OF len(1) i that] by simp
  have distinct: "i_block inode j \<noteq> n" if "j < 12" for j
    using nf(1) out(2) that by (auto simp: file_blocks_def)
  then show "file_ok capacity (e2fs w') (blk w') (set32 (set32 inode (40 + 4 * i) n) 28 v)"
    using file_ok af n ib len i_block_low(2) [OF len(2), of 28 v] by (auto simp: file_ok_def split: if_splits)
qed

end

context volume
begin

lemma set_inode_simps [simp]:
  "e2fs (set_inode k i w) = e2fs w" "e2_bufs (set_inode k i w) = e2_bufs w" "vnodes (set_inode k i w) = vnodes w"
  "ok (set_inode k i w) = ok w" "sectors (set_inode k i w) = sectors w" "length (node_pool (set_inode k i w)) = length (node_pool w)"
  "j \<noteq> k \<Longrightarrow> node_pool (set_inode k i w) ! j = node_pool w ! j"
  "k < length (node_pool w) \<Longrightarrow> node_pool (set_inode k i w) ! k = (node_pool w ! k)\<lparr>ni_inode := i\<rparr>"
  by (simp_all add: set_inode_def ext2_laws)

lemma set_write_buf_simps [simp]:
  "e2fs (set_write_buf b w) = e2fs w" "e2_bufs (set_write_buf b w) = (e2_bufs w)\<lparr>buf_write := b\<rparr>" "vnodes (set_write_buf b w) = vnodes w"
  "ok (set_write_buf b w) = ok w" "sectors (set_write_buf b w) = sectors w" "node_pool (set_write_buf b w) = node_pool w"
  by (simp_all add: set_write_buf_def ext2_laws)

lemma sound_laws:
  assumes "sound w k"
  shows "ok w" "volume_ok dev capacity (e2fs w) (blk w)" "bufs_ok (e2_bufs w)" "k < length (node_pool w)"
    "file_ok capacity (e2fs w) (blk w) (finode w k)" "mounted dev (e2fs w)" "block_size (e2fs w) = 1024" "length (buf_write (e2_bufs w)) = 4096"
  using assms by (simp_all add: sound_def volume_ok_def mounted_def bufs_ok_def)

lemma wrote_new_block:
  assumes s: "sound w k" and i: "i < 12" "i_block (finode w k) i = 0" and alloc: "keeps w w1" "alloc_outcome w w1 n" "n \<noteq> 0"
    and buf: "length buf = 4096" and w2_def: "w2 = set_write_buf buf (set_inode k (set32 (set32 (finode w k) (40 + 4 * i) n) 28 v) w1)"
  shows "wrote w w2 k" "i_block (finode w2 k) i = n"
    "j < 12 \<Longrightarrow> j \<noteq> i \<Longrightarrow> fblock (blk w2) (finode w2 k) j = fblock (blk w) (finode w k) j"
proof -
  note sl = sound_laws [OF s]
  note af = alloc_fresh [OF sl(1, 2) alloc(2, 3)]
  note fn = file_ok_new_block(1) [OF sl(2, 1) alloc(2, 3) sl(5) i(1), of v]
  define inode where "inode = set32 (set32 (finode w k) (40 + 4 * i) n) 28 v"
  have pool: "node_pool w1 = node_pool w" "vnodes w1 = vnodes w" "ok w1" "bufs_ok (e2_bufs w1)"
    using alloc(1) sl(3) by (simp_all add: keeps_def)
  have w2: "ok w2" "e2fs w2 = e2fs w1" "blk w2 = blk w1" "bufs_ok (e2_bufs w2)" "finode w2 k = inode" "k < length (node_pool w2)"
      "\<And>j. j \<noteq> k \<Longrightarrow> node_pool w2 ! j = node_pool w ! j" "ni_ino (node_pool w2 ! k) = ni_ino (node_pool w ! k)"
      "length (node_pool w2) = length (node_pool w)" "vnodes w2 = vnodes w"
    using pool buf sl(4) by (simp_all add: w2_def inode_def bufs_ok_def)
  have len: "length (finode w k) = 128" "length (set32 (finode w k) (40 + 4 * i) n) = 128"
    using sl(5) i by (simp_all add: file_ok_def)
  have ib: "i_block inode j = (if j = i then n else i_block (finode w k) j)" if "j < 12" for j
    using i_block_low [OF len(2), of 28 v] i_block_set32 [OF len(1) i(1) that] by (simp add: inode_def)
  then show "i_block (finode w2 k) i = n"
    using i(1) by (simp add: w2(5))
  have blocks: "file_blocks inode = insert n (file_blocks (finode w k))"
    using ib i alloc(3) by (auto simp: file_blocks_def split: if_splits)
  have size: "i_size inode = i_size (finode w k)"
    using i_size_set32 [OF len(2), of 28 v] i_size_set32 [OF len(1), of "40 + 4 * i" n] i(1) by (simp add: inode_def)
  have "sound w2 k"
    using w2 af fn by (simp add: sound_def inode_def)
  then show "wrote w w2 k"
    using w2 af size by (auto simp: wrote_def blocks)
  show "fblock (blk w2) (finode w2 k) j = fblock (blk w) (finode w k) j" if "j < 12" "j \<noteq> i"
  proof -
    have "blk w1 (i_block (finode w k) j) = blk w (i_block (finode w k) j)" if "i_block (finode w k) j \<noteq> 0"
      using sl(5) \<open>j < 12\<close> that by (intro af(6)) (auto simp: file_ok_def)
    then show ?thesis
      using ib that w2(3, 5) by (auto simp: fblock_def)
  qed
qed

lemma write_target_ok:
  assumes s: "sound w k" and i: "i < 12"
  obtains w' b where "write_target bd k i w = Some (w', b)" "wrote w w' k"
    "\<And>j. j < 12 \<Longrightarrow> j \<noteq> i \<Longrightarrow> fblock (blk w') (finode w' k) j = fblock (blk w) (finode w k) j"
    "b \<Longrightarrow> i_block (finode w' k) i \<noteq> 0 \<and> take 1024 (buf_write (e2_bufs w')) = fblock (blk w) (finode w k) i"
    "\<not> b \<Longrightarrow> e2fs w' = e2fs w \<and> blk w' = blk w \<and> finode w' k = finode w k \<and> (\<forall>g < group_count (e2fs w). group_full (e2fs w) (blk w) g)"
proof (cases "i_block (finode w k) i = 0")
  case True
  note sl = sound_laws [OF s]
  obtain w1 n where w1: "ext2_alloc_block bd w = Some (w1, n)" "keeps w w1" "alloc_outcome w w1 n"
      "n = 0 \<Longrightarrow> \<forall>g < group_count (e2fs w). group_full (e2fs w) (blk w) g"
    using alloc_block_ok [OF sl(1-3)] by blast
  show ?thesis
  proof (cases "n = 0")
    case n: True
    have eq: "e2fs w1 = e2fs w" "blk w1 = blk w" "node_pool w1 = node_pool w" "vnodes w1 = vnodes w"
      using w1(2, 3) n by (simp_all add: alloc_outcome_def keeps_def)
    then have "sound w1 k"
      using s w1(2) by (auto simp: sound_def keeps_def)
    then have "wrote w w1 k"
      using eq by (simp add: wrote_def)
    moreover have "write_target bd k i w = Some (w1, False)"
      using True w1(1) n by (simp add: write_target_def)
    ultimately show ?thesis
      using that [of w1 False] w1(4) n eq by simp
  next
    case n: False
    define v where "v = i_blocks (set32 (finode w k) (40 + 4 * i) n) + block_size (e2fs w1) div 512"
    define buf where "buf = replicate 1024 0 @ drop 1024 (buf_write (e2_bufs w1))"
    have w1': "block_size (e2fs w1) = 1024" "length (buf_write (e2_bufs w1)) = 4096" "node_pool w1 = node_pool w"
      using alloc_fresh(10) [OF sl(1, 2) w1(3) n] w1(2) sl by (simp_all add: keeps_def)
    have buf: "blit (buf_write (e2_bufs w1)) 0 (replicate (unat (block_size (e2fs w1))) 0) = Some buf" "length buf = 4096" "take 1024 buf = replicate 1024 0"
      using w1' by (simp_all add: blit_def buf_def)
    define w2 where "w2 = set_write_buf buf (set_inode k (set32 (set32 (finode w k) (40 + 4 * i) n) 28 v) w1)"
    note nb = wrote_new_block [OF s i True w1(2, 3) n buf(2) w2_def]
    have "write_target bd k i w = Some (w2, True)"
      using True w1(1) n buf(1) by (simp add: write_target_def w1'(3) v_def w2_def Let_def)
    then show ?thesis
      using that [of w2 True] nb n buf(3) True by (simp add: w2_def fblock_def)
  qed
next
  case False
  note sl = sound_laws [OF s]
  have rng: "in_range capacity (i_block (finode w k) i)"
    using sl(5) i False by (simp add: file_ok_def)
  obtain w1 where w1: "ext2_read_block bd w (i_block (finode w k) i) (buf_write (e2_bufs w)) =
      Some (w1, blk w (i_block (finode w k) i) @ drop 1024 (buf_write (e2_bufs w)), 0)" "ok w1" "sectors w1 = sectors w" "rest w1 = rest w"
    by (rule read_block_ok [OF sl(1, 6) rng]) (use sl(8) in auto)
  define buf where "buf = blk w (i_block (finode w k) i) @ drop 1024 (buf_write (e2_bufs w))"
  define w2 where "w2 = set_write_buf buf w1"
  have buf: "length buf = 4096" "take 1024 buf = blk w (i_block (finode w k) i)"
    using sl by (simp_all add: buf_def)
  have w2: "ok w2" "e2fs w2 = e2fs w" "blk w2 = blk w" "node_pool w2 = node_pool w" "bufs_ok (e2_bufs w2)" "vnodes w2 = vnodes w"
    using w1 rest_law [OF w1(4)] buf(1) sl(3) by (simp_all add: w2_def bufs_ok_def)
  then have "wrote w w2 k"
    using s by (simp add: wrote_def sound_def)
  moreover have "write_target bd k i w = Some (w2, True)"
    using False w1(1) by (simp add: write_target_def buf_def w2_def)
  ultimately show ?thesis
    using that [of w2 True] False w2 buf(2) by (simp add: fblock_def) (simp add: w2_def)
qed

end

lemma overlay_byte:
  assumes "off + length d \<le> 1024" and "length buf0 = 4096" and "blit buf0 off d = Some buf" and "p div 1024 = i"
  shows "take 1024 buf ! (p mod 1024) = (if 1024 * i + off \<le> p \<and> p < 1024 * i + off + length d then d ! (p - (1024 * i + off)) else take 1024 buf0 ! (p mod 1024))"
    "length buf = 4096"
proof -
  define q where "q = p mod 1024"
  have p: "p = 1024 * i + q" "q < 1024"
    using assms(4) div_mult_mod_eq [of p 1024] by (auto simp: q_def)
  have buf: "buf = take off buf0 @ d @ drop (off + length d) buf0"
    using assms(3) by (auto simp: blit_def split: if_splits)
  show "length buf = 4096"
    using assms(1, 2) by (simp add: buf)
  have "buf ! q = (if off \<le> q \<and> q < off + length d then d ! (q - off) else buf0 ! q)"
    using assms(1, 2) p(2) by (auto simp: buf nth_append)
  then show "take 1024 buf ! (p mod 1024) = (if 1024 * i + off \<le> p \<and> p < 1024 * i + off + length d then d ! (p - (1024 * i + off)) else take 1024 buf0 ! (p mod 1024))"
    unfolding q_def [symmetric] using p by auto
qed

context volume
begin

lemma put_block_ok:
  assumes s: "sound w k" and i: "i < 12" "i_block (finode w k) i \<noteq> 0" and buf: "length buf = 4096"
  obtains w' where "ext2_write_block bd (set_write_buf buf w) (i_block (finode w k) i) buf = Some (w', 0)" "wrote w w' k"
    "\<And>j. j < 12 \<Longrightarrow> fblock (blk w') (finode w' k) j = (if j = i then take 1024 buf else fblock (blk w) (finode w k) j)"
proof -
  define v where "v = set_write_buf buf w"
  define n where "n = i_block (finode w k) i"
  note sl = sound_laws [OF s]
  have v: "ok v" "e2fs v = e2fs w" "blk v = blk w" "finode v k = finode w k" "sound v k" "wrote w v k"
    using s buf by (simp_all add: v_def sound_def wrote_def bufs_ok_def)
  have rng: "in_range capacity n"
    using sl(5) i by (simp add: file_ok_def n_def)
  obtain w' where w': "ext2_write_block bd v n buf = Some (w', 0)" "ok w'" "blk w' = (blk v)(n := take 1024 buf)" "rest w' = rest v"
    by (rule write_block_ok [OF v(1) _ rng]) (use sl(6) v(2) buf in auto)
  have r: "e2fs w' = e2fs v" "node_pool w' = node_pool v"
    using rest_law [OF w'(4)] by simp_all
  have "n \<in> file_blocks (finode v k)"
    using i by (auto simp: file_blocks_def v n_def)
  then have "wrote v w' k"
    using wrote_block [OF v(5) _ keeps_rest [OF w'(2, 4)] r(1) w'(3)] by simp
  moreover have "fblock (blk w') (finode w' k) j = (if j = i then take 1024 buf else fblock (blk w) (finode w k) j)" if "j < 12" for j
    using that sl(5) i by (auto simp: fblock_def r(2) v w'(3) n_def file_ok_def)
  ultimately show thesis
    using that w'(1) wrote_trans [OF v(6)] by (auto simp: v_def n_def)
qed

lemma write_chunk_ok:
  assumes s: "sound w k" and i: "i < 12" and d: "off + length d \<le> 1024"
  obtains (full) w1 where "write_target bd k i w = Some (w1, False)" "wrote w w1 k" "e2fs w1 = e2fs w" "blk w1 = blk w" "finode w1 k = finode w k"
      "\<forall>g < group_count (e2fs w). group_full (e2fs w) (blk w) g"
  | (written) w1 buf w2 where "write_target bd k i w = Some (w1, True)" "blit (buf_write (e2_bufs w1)) off d = Some buf"
      "ext2_write_block bd (set_write_buf buf w1) (i_block (finode w1 k) i) buf = Some (w2, 0)" "wrote w w2 k"
      "\<forall>p < 12288. file_byte (blk w2) (finode w2 k) p =
         (if 1024 * i + off \<le> p \<and> p < 1024 * i + off + length d then d ! (p - (1024 * i + off)) else file_byte (blk w) (finode w k) p)"
proof -
  obtain w1 b where w1: "write_target bd k i w = Some (w1, b)" "wrote w w1 k"
    "\<And>j. j < 12 \<Longrightarrow> j \<noteq> i \<Longrightarrow> fblock (blk w1) (finode w1 k) j = fblock (blk w) (finode w k) j"
    "b \<Longrightarrow> i_block (finode w1 k) i \<noteq> 0 \<and> take 1024 (buf_write (e2_bufs w1)) = fblock (blk w) (finode w k) i"
    "\<not> b \<Longrightarrow> e2fs w1 = e2fs w \<and> blk w1 = blk w \<and> finode w1 k = finode w k \<and> (\<forall>g < group_count (e2fs w). group_full (e2fs w) (blk w) g)"
    using write_target_ok [OF s i] by blast
  show thesis
  proof (cases b)
    case False
    show thesis
      by (rule full [of w1]) (use w1(1, 2, 5) False in simp_all)
  next
    case True
    have s1: "sound w1 k"
      using w1(2) by (simp add: wrote_def)
    obtain buf where buf: "blit (buf_write (e2_bufs w1)) off d = Some buf"
      using d sound_laws(8) [OF s1] by (simp add: blit_def)
    note ov = overlay_byte [OF d sound_laws(8) [OF s1] buf]
    have nz: "i_block (finode w1 k) i \<noteq> 0"
      using w1(4) True by blast
    obtain w2 where w2: "ext2_write_block bd (set_write_buf buf w1) (i_block (finode w1 k) i) buf = Some (w2, 0)" "wrote w1 w2 k"
        "\<And>j. j < 12 \<Longrightarrow> fblock (blk w2) (finode w2 k) j = (if j = i then take 1024 buf else fblock (blk w1) (finode w1 k) j)"
      using put_block_ok [OF s1 i nz ov(2) [OF refl]] by blast
    have "file_byte (blk w2) (finode w2 k) p =
        (if 1024 * i + off \<le> p \<and> p < 1024 * i + off + length d then d ! (p - (1024 * i + off)) else file_byte (blk w) (finode w k) p)"
      if "p < 12288" for p
    proof (cases "p div 1024 = i")
      case here: True
      then show ?thesis
        using w2(3) [of i] i ov(1) [OF here] w1(4) True by (simp add: file_byte_def)
    next
      case False
      have "p div 1024 < 12" "\<not> (1024 * i + off \<le> p \<and> p < 1024 * i + off + length d)"
        using that False d by auto
      then show ?thesis
        using w2(3) w1(3) False by (auto simp: file_byte_def)
    qed
    note bytes = this
    show thesis
      by (rule written [OF _ buf w2(1) wrote_trans [OF w1(2) w2(2)]]) (use w1(1) True bytes in simp_all)
  qed
qed

end

end
