(* ===== verification/Ext2File.thy ===== *)
theory Ext2File
  imports Ext2Volume
begin

text \<open>
  Reading and writing files on a volume: writing updates an array of bytes, reading returns it,
  and a file keeps its contents when another one is written.
\<close>

section \<open>The loops\<close>

lemma file_block_no:
  assumes "unat (pos :: u64) < 2 ^ 42"
  shows "unat (ucast (pos div 1024) :: u32) = unat pos div 1024" "unat (pos mod 1024) = unat pos mod 1024"
proof -
  have "unat pos div 1024 < 2 ^ 32"
    using assms by (simp add: less_mult_imp_div_less)
  then show "unat (ucast (pos div 1024) :: u32) = unat pos div 1024"
    by (simp add: unsigned_ucast_eq take_bit_eq_mod unat_div_distrib)
  show "unat (pos mod 1024) = unat pos mod 1024"
    by (simp add: unat_mod_distrib)
qed

lemma chunk_1024:
  "chunk_at 1024 pos n = min (1024 - unat pos mod 1024) n" "n \<noteq> 0 \<Longrightarrow> 0 < chunk_at 1024 pos n" "chunk_at 1024 pos n \<le> n"
  "unat pos mod 1024 + chunk_at 1024 pos n \<le> 1024"
  by (auto simp: chunk_at_def)

lemma unat_pos_add:
  assumes "unat (pos :: u64) < 12288" and "c \<le> 1024"
  shows "unat (pos + of_nat c) = unat pos + c" "unat pos + c < 2 ^ 42"
proof -
  have "unat (of_nat c :: u64) = c"
    using assms(2) by (simp add: unat_of_nat)
  then show "unat (pos + of_nat c) = unat pos + c" "unat pos + c < 2 ^ 42"
    using assms unat_add_no_wrap [of pos "of_nat c"] by auto
qed

lemma sint_small: "n < 2 ^ 63 \<Longrightarrow> sint (of_nat n :: u64) = int n"
  by (simp add: signed_of_nat signed_take_bit_int_eq_self)

context volume
begin

text \<open>
  The number of bytes written is short only at the end of the direct blocks or when no group has
  a free block.
\<close>

definition write_outcome :: "'a ext2_scheme \<Rightarrow> 'a ext2_scheme \<Rightarrow> nat \<Rightarrow> nat \<Rightarrow> nat \<Rightarrow> bytes \<Rightarrow> nat \<Rightarrow> bool" where
  "write_outcome w w' k pos n data m \<longleftrightarrow> m \<le> n \<and> wrote w w' k \<and> (m = 0 \<or> pos + m \<le> 12288) \<and>
     (m = 0 \<longrightarrow> e2fs w' = e2fs w \<and> blk w' = blk w) \<and>
     (\<forall>p < 12288. file_byte (blk w') (finode w' k) p = (if pos \<le> p \<and> p < pos + m then data ! (p - pos) else file_byte (blk w) (finode w k) p)) \<and>
     (m < n \<longrightarrow> 12288 \<le> pos + m \<or> (\<forall>g < group_count (e2fs w'). group_full (e2fs w') (blk w') g))"

lemma write_outcome_none: "sound w k \<Longrightarrow> n = 0 \<or> 12288 \<le> pos \<Longrightarrow> write_outcome w w k pos n data 0"
  by (auto simp: write_outcome_def wrote_refl)

lemma write_outcome_step:
  assumes "write_outcome w1 w2 k (pos + c) (n - c) (drop c data) m" and "wrote w w1 k" and "0 < c" and "c \<le> n" and "n \<le> length data" and "pos + c \<le> 12288"
    and "\<forall>p < 12288. file_byte (blk w1) (finode w1 k) p = (if pos \<le> p \<and> p < pos + c then take c data ! (p - pos) else file_byte (blk w) (finode w k) p)"
  shows "write_outcome w w2 k pos n data (c + m)"
proof -
  have "file_byte (blk w2) (finode w2 k) p = (if pos \<le> p \<and> p < pos + (c + m) then data ! (p - pos) else file_byte (blk w) (finode w k) p)"
    if "p < 12288" for p
    using assms that by (auto simp: write_outcome_def)
  then show ?thesis
    using assms wrote_trans [of w w1 k w2] by (auto simp: write_outcome_def)
qed

lemma write_loop_ok:
  assumes "sound w k" and "n \<le> length data" and "unat pos < 2 ^ 42"
  shows "\<exists>w' m. ext2_write_loop bd k pos n data w = Some (w', m) \<and> write_outcome w w' k (unat pos) n data m"
  using assms
proof (induction n arbitrary: pos data w rule: less_induct)
  case (less n)
  define i where "i = unat pos div 1024"
  define c where "c = chunk_at 1024 pos n"
  note sl = sound_laws [OF less.prems(1)]
  note fb = file_block_no [OF less.prems(3), folded i_def]
  note step = ext2_write_loop.simps [of bd k pos n data w, unfolded sl(7), simplified Let_def, folded c_def]
  consider "n = 0" | "n \<noteq> 0" "12 \<le> i" | "n \<noteq> 0" "i < 12"
    by linarith
  then show ?case
  proof cases
    case 1
    then have "ext2_write_loop bd k pos n data w = Some (w, 0)"
      by (simp add: ext2_write_loop.simps)
    then show ?thesis
      using write_outcome_none [OF less.prems(1)] 1 by blast
  next
    case 2
    then have "12288 \<le> unat pos" "(12 :: u32) \<le> ucast (pos div 1024)"
      using fb(1) by (auto simp: i_def word_le_nat_alt)
    then show ?thesis
      using 2(1) write_outcome_none [OF less.prems(1)] by (simp add: step)
  next
    case 3
    have c: "0 < c" "c \<le> n" "unat pos mod 1024 + c \<le> 1024"
      using chunk_1024 3(1) by (simp_all add: c_def)
    have pos: "unat pos < 12288" "unat pos = 1024 * i + unat pos mod 1024"
      using 3(2) div_mult_mod_eq [of "unat pos" 1024] by (auto simp: i_def)
    then have pos3: "unat pos + c \<le> 12288"
      using 3(2) c(3) by linarith
    have not12: "\<not> 12 \<le> (ucast (pos div 1024) :: u32)"
      using fb(1) 3(2) by (simp add: word_le_nat_alt)
    have d: "slice data 0 c = Some (take c data)" "unat pos mod 1024 + length (take c data) \<le> 1024"
      using c less.prems(2) by (simp_all add: slice_def)
    show ?thesis
      using less.prems(1) 3(2) d(2)
    proof (cases rule: write_chunk_ok)
      case (full w1)
      then show ?thesis
        using 3 not12 by (auto simp: step fb write_outcome_def)
    next
      case (written w1 buf w2)
      have "sound w2 k" "n - c < n" "n - c \<le> length (drop c data)"
        using written(4) c less.prems(2) by (auto simp: wrote_def)
      then obtain w3 m where w3: "ext2_write_loop bd k (pos + of_nat c) (n - c) (drop c data) w2 = Some (w3, m)"
          "write_outcome w2 w3 k (unat (pos + of_nat c)) (n - c) (drop c data) m"
        using less.IH [of "n - c" w2 "drop c data" "pos + of_nat c"] unat_pos_add [OF pos(1), of c] c by auto
      have "ext2_write_loop bd k pos n data w = Some (w3, c + m)"
        using 3 not12 written(1-3) w3(1) d(1) by (simp add: step fb)
      moreover have "write_outcome w w3 k (unat pos) n data (c + m)"
      proof (rule write_outcome_step [OF _ written(4) c(1, 2) less.prems(2) pos3])
        show "write_outcome w2 w3 k (unat pos + c) (n - c) (drop c data) m"
          using w3(2) unat_pos_add [OF pos(1), of c] c by simp
        show "\<forall>p < 12288. file_byte (blk w2) (finode w2 k) p =
            (if unat pos \<le> p \<and> p < unat pos + c then take c data ! (p - unat pos) else file_byte (blk w) (finode w k) p)"
          using written(5) c(2) less.prems(2) unfolding pos(2) [symmetric] by (simp add: min_def)
      qed
      ultimately show ?thesis
        by blast
    qed
  qed
qed

end

section \<open>Inodes on the disk\<close>

lemma inode_offset:
  assumes "volume_ok dev capacity f B" and "inode_place f ino = Some (Some (b, off))"
  shows "off + 128 \<le> 1024" "b \<in> inode_blocks f"
proof -
  define s where "s = inode_size f"
  obtain idx where off: "off = unat (idx * s mod 1024)"
    using assms by (auto simp: inode_place_def volume_ok_def mounted_def Let_def s_def split: if_splits bind_splits)
  have s: "128 \<le> unat s" "unat s dvd 1024"
    using assms(1) by (simp_all add: volume_ok_def s_def)
  have "unat s dvd 2 ^ 32"
    using s(2) by (rule dvd_trans) simp
  then have "unat s dvd unat (idx * s)"
    by (simp add: unat_word_ariths dvd_mod)
  then have d: "unat s dvd off" "off < 1024"
    using s(2) by (simp_all add: off unat_mod_distrib dvd_mod)
  then obtain q r where qr: "off = unat s * q" "1024 = unat s * r"
    using s(2) by (auto simp: dvd_def)
  then have "q < r"
    using d(2) by (metis mult_less_cancel1)
  then have "unat s * (q + 1) \<le> unat s * r"
    by (intro mult_le_mono2) simp
  then show "off + 128 \<le> 1024"
    using qr s(1) by simp
  show "b \<in> inode_blocks f"
    using assms(2) by (auto simp: inode_blocks_def)
qed

context volume
begin

lemma write_inode_ok:
  assumes s: "sound w k" and place: "inode_place (e2fs w) ino = Some (Some (b, off))" and ino: "ino \<noteq> 0" and len: "length inode = 128"
  obtains w' x where "ext2_write_inode bd w ino inode = Some (w', 0)" "keeps w w'" "e2fs w' = e2fs w" "blk w' = (blk w)(b := x)" "take 128 (drop off x) = inode"
proof -
  note sl = sound_laws [OF s] and io = inode_offset [OF sound_laws(2) [OF s] place]
  have rng: "in_range capacity b"
    using sl(2) io(2) by (auto simp: volume_ok_def)
  obtain w1 where w1: "ext2_read_block bd w b (buf_write_inode (e2_bufs w)) = Some (w1, blk w b @ drop 1024 (buf_write_inode (e2_bufs w)), 0)"
      "ok w1" "sectors w1 = sectors w" "rest w1 = rest w"
    by (rule read_block_ok [OF sl(1, 6) rng]) (use sl(3) in \<open>auto simp: bufs_ok_def\<close>)
  define buf where "buf = blk w b @ drop 1024 (buf_write_inode (e2_bufs w))"
  define buf2 where "buf2 = take off buf @ inode @ drop (off + 128) buf"
  define w2 where "w2 = w1\<lparr>e2_bufs := (e2_bufs w1)\<lparr>buf_write_inode := buf2\<rparr>\<rparr>"
  have lb: "length buf = 4096" "length buf2 = 4096" "blit buf off inode = Some buf2"
    using sl(1, 3) io(1) len by (simp_all add: buf_def buf2_def bufs_ok_def blit_def)
  have w2: "ok w2" "e2fs w2 = e2fs w" "blk w2 = blk w" "keeps w w2"
    using w1 rest_law [OF w1(4)] lb by (auto simp: w2_def ext2_laws keeps_def bufs_ok_def)
  obtain w3 where w3: "ext2_write_block bd w2 b buf2 = Some (w3, 0)" "ok w3" "blk w3 = (blk w2)(b := take 1024 buf2)" "rest w3 = rest w2"
    by (rule write_block_ok [OF w2(1) _ rng]) (use sl(6) w2(2) lb in auto)
  have "take 128 (drop off (take 1024 buf2)) = inode"
    using io(1) len lb(1) by (simp add: buf2_def drop_take)
  moreover have "ext2_write_inode bd w ino inode = Some (w3, 0)"
    using ino place w1(1) w3(1) lb(3) by (simp add: ext2_write_inode_def buf_def w2_def)
  ultimately show thesis
    using that w3(3) keeps_trans [OF w2(4) keeps_rest [OF w3(2, 4)]] rest_law [OF w3(4)] w2(2, 3) by auto
qed

text \<open>What is written to an inode block has no effect on the files.\<close>

lemma sound_inode_block:
  assumes s: "sound w k" and b: "b \<in> inode_blocks (e2fs w)" and w': "keeps w w'" "e2fs w' = e2fs w" "blk w' = (blk w)(b := x)"
  shows "sound w' k" "i < 12 \<Longrightarrow> fblock (blk w') (finode w' k) i = fblock (blk w) (finode w k) i"
proof -
  note sl = sound_laws [OF s]
  have "b \<notin> bitmap_blocks (e2fs w)"
    using sl(2) b by (auto simp: volume_ok_def)
  note ob = other_block [OF sl(2) this]
  have pool: "node_pool w' = node_pool w" "ok w'" "bufs_ok (e2_bufs w')"
    using w'(1) sl(3) by (simp_all add: keeps_def)
  show "sound w' k"
    using s ob pool unfolding sound_def file_ok_def w' by auto
  show "fblock (blk w') (finode w' k) i = fblock (blk w) (finode w k) i" if "i < 12"
    using that sl(5) b by (auto simp: fblock_def w' pool file_ok_def)
qed

text \<open>Another file after a write to file \<open>k\<close>.\<close>

lemma wrote_other:
  assumes "wrote w w' k" and "sound w j" and "j \<noteq> k" and "file_blocks (finode w j) \<inter> file_blocks (finode w k) = {}"
  shows "sound w' j" "i < 12 \<Longrightarrow> fblock (blk w') (finode w' j) i = fblock (blk w) (finode w j) i"
    "file_blocks (finode w' j) \<inter> file_blocks (finode w' k) = {}"
proof -
  note sl = sound_laws [OF assms(2)]
  have j: "node_pool w' ! j = node_pool w ! j" "j < length (node_pool w')"
    using assms(1-3) sl(4) by (auto simp: wrote_def)
  have same: "blk w' (i_block (finode w j) i) = blk w (i_block (finode w j) i)" if "i < 12" "i_block (finode w j) i \<noteq> 0" for i
  proof -
    have "i_block (finode w j) i \<notin> file_blocks (finode w k)"
      using assms(4) that by (auto simp: file_blocks_def)
    then show ?thesis
      using assms(1) sl(5) that by (auto simp: wrote_def file_ok_def)
  qed
  show "sound w' j"
    using assms(1) sl(5) j by (auto simp: wrote_def sound_def file_ok_def)
  show "fblock (blk w') (finode w' j) i = fblock (blk w) (finode w j) i" if "i < 12"
    using same that j by (auto simp: fblock_def)
  have "block_used (e2fs w) (blk w) b" if "b \<in> file_blocks (finode w j)" for b
    using sl(5) that by (auto simp: file_blocks_def file_ok_def)
  then show "file_blocks (finode w' j) \<inter> file_blocks (finode w' k) = {}"
    using assms(1, 4) j by (auto simp: wrote_def)
qed

end

section \<open>Files\<close>

lemma map_file_byte_block:
  assumes "p mod 1024 + c \<le> 1024" and "length (fblock B inode (p div 1024)) = 1024"
  shows "map (file_byte B inode) [p..<p + c] = take c (drop (p mod 1024) (fblock B inode (p div 1024)))"
proof (rule nth_equalityI)
  fix j assume "j < length (map (file_byte B inode) [p..<p + c])"
  then have j: "j < c"
    by simp
  define q r where "q = p div 1024" and "r = p mod 1024"
  have p: "p + j = 1024 * q + (r + j)" "r + j < 1024"
    using div_mult_mod_eq [of p 1024] j assms(1) by (simp_all add: q_def r_def)
  have "(p + j) div 1024 = q" "(p + j) mod 1024 = r + j"
    unfolding p(1) using p(2) by simp_all
  then have "(p + j) div 1024 = p div 1024" "(p + j) mod 1024 = p mod 1024 + j"
    by (simp_all add: q_def r_def)
  then show "map (file_byte B inode) [p..<p + c] ! j = take c (drop (p mod 1024) (fblock B inode (p div 1024))) ! j"
    using j assms by (simp add: file_byte_def)
qed (use assms in simp)

context volume
begin

lemma read_chunk_ok:
  assumes "ok w" and "mounted dev (e2fs w)" and "file_ok capacity (e2fs w) (blk w) inode" and i: "i < 12" and c: "off + c \<le> 1024"
  obtains w' where "(if i_block inode i = 0 then Some (w, Some (replicate c 0))
      else (case ext2_read_block bd w (i_block inode i) (replicate 1024 0) of
          None \<Rightarrow> None
        | Some (w2, buf, r) \<Rightarrow>
            if r \<noteq> 0 then Some (w2, None)
            else (case slice buf off c of None \<Rightarrow> None | Some d \<Rightarrow> Some (w2, Some d)))) = Some (w', Some (take c (drop off (fblock (blk w) inode i))))"
    "ok w'" "sectors w' = sectors w" "rest w' = rest w"
proof (cases "i_block inode i = 0")
  case True
  then show thesis
    using that [of w] assms(1) c by (simp add: fblock_def)
next
  case False
  have "in_range capacity (i_block inode i)"
    using assms(3) i False by (simp add: file_ok_def)
  then obtain w' where w': "ext2_read_block bd w (i_block inode i) (replicate 1024 0) = Some (w', blk w (i_block inode i) @ drop 1024 (replicate 1024 0), 0)"
      "ok w'" "sectors w' = sectors w" "rest w' = rest w"
    by (rule read_block_ok [OF assms(1, 2), where buf = "replicate 1024 0"]) auto
  then show thesis
    using that [of w'] False c assms(1) by (simp add: fblock_def slice_def)
qed

lemma read_loop_ok:
  assumes "ok w" and "mounted dev (e2fs w)" and "file_ok capacity (e2fs w) (blk w) inode" and "unat pos + n \<le> 12288"
  shows "\<exists>w'. ext2_read_loop bd inode pos n w = Some (w', map (file_byte (blk w) inode) [unat pos..<unat pos + n]) \<and> ok w' \<and> sectors w' = sectors w \<and> rest w' = rest w"
  using assms
proof (induction n arbitrary: pos w rule: less_induct)
  case (less n)
  define i where "i = unat pos div 1024"
  define c where "c = chunk_at 1024 pos n"
  define off where "off = unat pos mod 1024"
  have bs: "block_size (e2fs w) = 1024"
    using less.prems(2) by (simp add: mounted_def)
  have p42: "unat pos < 2 ^ 42"
    using less.prems(4) by simp
  note fb = file_block_no [OF p42, folded i_def off_def]
  show ?case
  proof (cases "n = 0")
    case True
    then show ?thesis
      using less.prems(1) by (simp add: ext2_read_loop.simps)
  next
    case False
    have c: "0 < c" "c \<le> n" "off + c \<le> 1024"
      using chunk_1024 False by (simp_all add: c_def off_def)
    have i: "i < 12" and pos: "unat pos < 12288"
      using less.prems(4) False by (auto simp: i_def less_mult_imp_div_less)
    have gfb: "ext2_get_file_block bd w inode (ucast (pos div 1024)) = Some (w, i_block inode i)"
      using i fb(1) by (simp add: ext2_get_file_block_def word_less_nat_alt)
    obtain w1 where w1: "(if i_block inode i = 0 then Some (w, Some (replicate c 0))
      else (case ext2_read_block bd w (i_block inode i) (replicate 1024 0) of
          None \<Rightarrow> None
        | Some (w2, buf, r) \<Rightarrow>
            if r \<noteq> 0 then Some (w2, None)
            else (case slice buf off c of None \<Rightarrow> None | Some d \<Rightarrow> Some (w2, Some d)))) = Some (w1, Some (take c (drop off (fblock (blk w) inode i))))"
      "ok w1" "sectors w1 = sectors w" "rest w1 = rest w"
      by (rule read_chunk_ok [OF less.prems(1-3) i c(3)])
    have u: "(ucast (1024 :: u32) :: u64) = 1024" and b0: "(1024 :: u32) \<noteq> 0"
      by simp_all
    note step = ext2_read_loop.simps [of bd inode pos n w, unfolded bs Let_def u, folded c_def, unfolded fb(2)]
    have eq: "e2fs w1 = e2fs w" "blk w1 = blk w"
      using rest_law [OF w1(4)] w1(3) by simp_all
    note pc = unat_pos_add [OF pos, of c]
    have "n - c < n" "unat (pos + of_nat c) + (n - c) \<le> 12288"
      using c less.prems(4) pc by auto
    then obtain w2 where w2: "ext2_read_loop bd inode (pos + of_nat c) (n - c) w1 = Some (w2, map (file_byte (blk w1) inode) [unat (pos + of_nat c)..<unat (pos + of_nat c) + (n - c)])"
        "ok w2" "sectors w2 = sectors w1" "rest w2 = rest w1"
      using less.IH [of "n - c" w1 "pos + of_nat c"] w1(2) less.prems(2, 3) by (auto simp: eq)
    have len: "length (fblock (blk w) inode i) = 1024"
      using less.prems(1) by (simp add: fblock_def)
    have "take c (drop off (fblock (blk w) inode i)) = map (file_byte (blk w) inode) [unat pos..<unat pos + c]"
      using map_file_byte_block [of "unat pos" c "blk w" inode] c(3) len by (simp add: off_def i_def)
    moreover have "[unat pos..<unat pos + n] = [unat pos..<unat pos + c] @ [unat pos + c..<unat pos + n]"
      using upt_add_eq_append [of "unat pos" "unat pos + c" "n - c"] c(2) by (simp only: le_add1 add.assoc le_add_diff_inverse)
    moreover have "ext2_read_loop bd inode pos n w = Some (w2, take c (drop off (fblock (blk w) inode i)) @ map (file_byte (blk w) inode) [unat pos + c..<unat pos + n])"
      using False w2(1) pc c by (simp only: step b0 gfb w1(1) option.case prod.case if_False) (simp add: eq)
    ultimately have "ext2_read_loop bd inode pos n w = Some (w2, map (file_byte (blk w) inode) [unat pos..<unat pos + n])"
      by simp
    then show ?thesis
      using w2 w1 by auto
  qed
qed

end

context volume
begin

lemma vfs_read_ok:
  assumes s: "sound w k" and nd: "node_info w node = Some k" and size: "unat (i_size (finode w k)) \<le> 12288" and no_wrap: "unat offset + unat sz < 2 ^ 64"
  obtains w' m where "m = min (unat sz) (unat (i_size (finode w k)) - unat offset)"
    "ext2_vfs_read bd w node offset sz = Some (w', map (file_byte (blk w) (finode w k)) [unat offset..<unat offset + m], int m)"
    "ok w'" "sectors w' = sectors w" "rest w' = rest w"
proof -
  note sl = sound_laws [OF s]
  define fs where "fs = (ucast (i_size (finode w k)) :: u64)"
  have fs: "unat fs = unat (i_size (finode w k))"
    by (simp add: fs_def unat_ucast_widen)
  define m where "m = min (unat sz) (unat fs - unat offset)"
  show thesis
  proof (cases "fs \<le> offset")
    case True
    then have "m = 0"
      by (simp add: m_def word_le_nat_alt)
    then show thesis
      using that [of m w] True nd sl(1) fs by (simp add: ext2_vfs_read_def m_def fs_def [symmetric])
  next
    case False
    have add: "unat (offset + sz) = unat offset + unat sz"
      using no_wrap by (simp add: unat_add_no_wrap)
    have n: "unat (if fs < offset + sz then fs - offset else sz) = m"
      using False add by (auto simp: m_def word_less_nat_alt word_le_nat_alt unat_sub)
    have "unat offset + m \<le> 12288"
      using False size fs by (auto simp: m_def word_le_nat_alt)
    then obtain w' where w': "ext2_read_loop bd (finode w k) offset m w = Some (w', map (file_byte (blk w) (finode w k)) [unat offset..<unat offset + m])"
        "ok w'" "sectors w' = sectors w" "rest w' = rest w"
      using read_loop_ok [OF sl(1, 6, 5)] by blast
    have "sint (of_nat m :: u64) = int m"
      using \<open>unat offset + m \<le> 12288\<close> by (simp add: sint_small)
    then have "ext2_vfs_read bd w node offset sz = Some (w', map (file_byte (blk w) (finode w k)) [unat offset..<unat offset + m], int m)"
      using False nd w'(1) n by (simp add: ext2_vfs_read_def Let_def fs_def [symmetric] split: if_splits)
    moreover have "m = min (unat sz) (unat (i_size (finode w k)) - unat offset)"
      by (simp add: m_def fs)
    ultimately show thesis
      using that w' by blast
  qed
qed

text \<open>The state after a write to file \<open>k\<close>; in \<open>inode_at\<close> the inode is read from its place on the disk.\<close>

definition inode_at :: "'a ext2_scheme \<Rightarrow> u32 \<times> nat \<Rightarrow> bytes" where
  "inode_at w = (\<lambda>(b, off). take 128 (drop off (blk w b)))"

definition vfs_written :: "'a ext2_scheme \<Rightarrow> 'a ext2_scheme \<Rightarrow> nat \<Rightarrow> nat \<Rightarrow> bytes \<Rightarrow> nat \<Rightarrow> bool" where
  "vfs_written w w' k pos data m \<longleftrightarrow> sound w' k \<and> m \<le> length data \<and>
     (m < length data \<longrightarrow> (\<forall>g < group_count (e2fs w'). group_full (e2fs w') (blk w') g)) \<and>
     (m = 0 \<and> data \<noteq> [] \<longrightarrow> (\<forall>g < group_count (e2fs w). group_full (e2fs w) (blk w) g)) \<and>
     unat (i_size (finode w' k)) = max (unat (i_size (finode w k))) (pos + m) \<and>
     (\<forall>p < 12288. file_byte (blk w') (finode w' k) p = (if pos \<le> p \<and> p < pos + m then data ! (p - pos) else file_byte (blk w) (finode w k) p)) \<and>
     (\<forall>j. j \<noteq> k \<and> sound w j \<and> file_blocks (finode w j) \<inter> file_blocks (finode w k) = {} \<longrightarrow>
        sound w' j \<and> (\<forall>p < 12288. file_byte (blk w') (finode w' j) p = file_byte (blk w) (finode w j) p) \<and>
        i_size (finode w' j) = i_size (finode w j) \<and> file_blocks (finode w' j) \<inter> file_blocks (finode w' k) = {})"

lemma file_byte_cong: "(\<And>i. i < 12 \<Longrightarrow> fblock B f i = fblock B' f' i) \<Longrightarrow> p < 12288 \<Longrightarrow> file_byte B f p = file_byte B' f' p"
  by (simp add: file_byte_def less_mult_imp_div_less)

lemma vfs_written_loop:
  assumes "write_outcome w w' k pos (length data) data m" and "pos + length data \<le> 12288" and "pos + m \<le> unat (i_size (finode w k))"
  shows "vfs_written w w' k pos data m"
proof -
  have "sound w' j \<and> (\<forall>p < 12288. file_byte (blk w') (finode w' j) p = file_byte (blk w) (finode w j) p) \<and>
      i_size (finode w' j) = i_size (finode w j) \<and> file_blocks (finode w' j) \<inter> file_blocks (finode w' k) = {}"
    if "j \<noteq> k" "sound w j" "file_blocks (finode w j) \<inter> file_blocks (finode w k) = {}" for j
    using wrote_other [OF _ that(2, 1, 3), of w'] assms(1) that(1) by (auto simp: write_outcome_def wrote_def intro!: file_byte_cong)
  then show ?thesis
    using assms by (auto simp: write_outcome_def vfs_written_def wrote_def)
qed

end

context volume
begin

lemma set_size_ok:
  assumes s: "sound w k" and pos: "n \<le> 12288" and inode_def: "inode = set32 (finode w k) 4 (of_nat n)"
    and w'_def: "w' = (set_inode k inode w)\<lparr>vnodes := v\<rparr>"
  shows "sound w' k" "finode w' k = inode" "unat (i_size inode) = n" "fblock (blk w') (finode w' k) i = fblock (blk w) (finode w k) i"
    "file_blocks (finode w' k) = file_blocks (finode w k)" "blk w' = blk w" "length inode = 128"
    "j \<noteq> k \<Longrightarrow> node_pool w' ! j = node_pool w ! j" "ni_ino (node_pool w' ! k) = ni_ino (node_pool w ! k)"
    "j \<noteq> k \<Longrightarrow> sound w' j = sound w j"
proof -
  note sl = sound_laws [OF s]
  have len: "length (finode w k) = 128"
    using sl(5) by (simp add: file_ok_def)
  then show "length inode = 128"
    by (simp add: inode_def)
  have ib: "i_block inode j = i_block (finode w k) j" for j
    using i_block_low [OF len] by (simp add: inode_def)
  show fi: "finode w' k = inode" and bl: "blk w' = blk w" and "ni_ino (node_pool w' ! k) = ni_ino (node_pool w ! k)"
    using sl(4) by (simp_all add: w'_def ext2_laws)
  then show "fblock (blk w') (finode w' k) i = fblock (blk w) (finode w k) i" "file_blocks (finode w' k) = file_blocks (finode w k)"
    by (simp_all add: fblock_def file_blocks_def ib)
  show "unat (i_size inode) = n"
    using pos len by (simp add: inode_def i_size_def unat_of_nat)
  have fo: "file_ok capacity f B inode = file_ok capacity f B (finode w k)" for f B
    by (simp add: file_ok_def ib len \<open>length inode = 128\<close>)
  show "sound w' k"
    using s fo unfolding sound_def fi bl by (simp add: w'_def ext2_laws)
  show other: "node_pool w' ! j = node_pool w ! j" if "j \<noteq> k"
    using that by (simp add: w'_def)
  show "sound w' j = sound w j" if "j \<noteq> k"
    unfolding sound_def other [OF that] bl by (simp add: w'_def ext2_laws)
qed

lemma vfs_written_grown:
  assumes wo: "write_outcome w w1 k pos (length data) data m" and le: "pos + length data \<le> 12288" and grown: "unat (i_size (finode w k)) < pos + m"
    and w2: "w2 = (set_inode k (set32 (finode w1 k) 4 (of_nat (pos + m))) w1)\<lparr>vnodes := v\<rparr>"
    and b: "b \<in> inode_blocks (e2fs w)" and w3: "keeps w2 w3" "e2fs w3 = e2fs w2" "blk w3 = (blk w2)(b := x)"
  shows "vfs_written w w3 k pos data m"
proof -
  have wr: "wrote w w1 k" and s1: "sound w1 k" and m: "m \<le> length data" "pos + m \<le> 12288"
    using wo le by (auto simp: write_outcome_def wrote_def)
  note ss = set_size_ok [OF s1 m(2) refl w2]
  have eq: "e2fs w2 = e2fs w1" "inode_blocks (e2fs w2) = inode_blocks (e2fs w)" "node_pool w3 = node_pool w2"
    using wr w3(1) by (simp_all add: w2 wrote_def keeps_def)
  have b2: "b \<in> inode_blocks (e2fs w2)" "b \<notin> bitmap_blocks (e2fs w2)"
    using b sound_laws(2) [OF ss(1)] eq(2) by (auto simp: volume_ok_def)
  note si = sound_inode_block [OF _ b2(1) w3]
  have bytes: "file_byte (blk w3) (finode w3 k) p = file_byte (blk w1) (finode w1 k) p" if "p < 12288" for p
    using that si(2) [OF ss(1)] ss(4) by (intro file_byte_cong) auto
  have "unat (i_size (finode w3 k)) = pos + m"
    using ss(2, 3) by (simp add: eq)
  moreover have "sound w3 j \<and> (\<forall>p < 12288. file_byte (blk w3) (finode w3 j) p = file_byte (blk w) (finode w j) p) \<and>
      i_size (finode w3 j) = i_size (finode w j) \<and> file_blocks (finode w3 j) \<inter> file_blocks (finode w3 k) = {}"
    if j: "j \<noteq> k" "sound w j" "file_blocks (finode w j) \<inter> file_blocks (finode w k) = {}" for j
  proof -
    note wj = wrote_other [OF wr j(2, 1, 3)]
    have s2: "sound w2 j"
      using ss(10) [OF j(1)] wj(1) by simp
    have "fblock (blk w2) (finode w2 j) i = fblock (blk w1) (finode w1 j) i" for i
      using ss(6, 8) j(1) by simp
    then have "\<forall>p < 12288. file_byte (blk w3) (finode w3 j) p = file_byte (blk w) (finode w j) p"
      using si(2) [OF s2] wj(2) by (auto intro!: file_byte_cong)
    moreover have "node_pool w3 ! j = node_pool w1 ! j" "node_pool w1 ! j = node_pool w ! j" "file_blocks (finode w3 k) = file_blocks (finode w1 k)"
      using ss(5, 8) j(1) wr eq(3) by (auto simp: wrote_def)
    ultimately show ?thesis
      using si(1) [OF s2] wj(3) by simp
  qed
  moreover have "\<forall>g < group_count (e2fs w3). group_full (e2fs w3) (blk w3) g" if "m < length data"
    using wo that le other_block(3) [OF sound_laws(2) [OF ss(1)] b2(2)] ss(6) by (auto simp: write_outcome_def w3(2, 3) eq)
  moreover have "\<forall>g < group_count (e2fs w). group_full (e2fs w) (blk w) g" if "m = 0" "data \<noteq> []"
    using wo that le by (cases data) (auto simp: write_outcome_def)
  ultimately show ?thesis
    using si(1) [OF ss(1)] m wo grown bytes by (simp add: vfs_written_def write_outcome_def)
qed

end

context volume
begin

lemma inode_at_wrote:
  assumes "wrote w w' k" and "sound w k" and "inode_place (e2fs w) ino = Some (Some pl)"
  shows "inode_at w' pl = inode_at w pl"
proof -
  obtain b off where pl: "pl = (b, off)"
    by (cases pl) auto
  note sl = sound_laws [OF assms(2)] and io = inode_offset [OF sound_laws(2) [OF assms(2)] assms(3) [unfolded pl]]
  have "block_used (e2fs w) (blk w) b" "b \<notin> bitmap_blocks (e2fs w)" "b \<notin> file_blocks (finode w k)"
    using sl(2, 5) io(2) by (auto simp: volume_ok_def file_ok_def file_blocks_def)
  then show ?thesis
    using assms(1) by (simp add: wrote_def inode_at_def pl)
qed

lemma vfs_write_ok:
  assumes s: "sound w k" and nd: "node_info w node = Some k" and place: "inode_place (e2fs w) (ni_ino (node_pool w ! k)) = Some (Some pl)"
    and ino: "ni_ino (node_pool w ! k) \<noteq> 0" and len: "length data = unat sz" and le: "unat offset + unat sz \<le> 12288"
  obtains w' m where "ext2_vfs_write bd w node offset sz data = Some (w', int m)" "vfs_written w w' k (unat offset) data m" "node_info w' = node_info w"
    "inode_place (e2fs w') = inode_place (e2fs w)" "ni_ino (node_pool w' ! k) = ni_ino (node_pool w ! k)"
    "inode_at w' pl = (if unat (i_size (finode w k)) < unat offset + m then finode w' k else inode_at w pl)"
proof -
  obtain b off where pl: "pl = (b, off)"
    by (cases pl) auto
  have o42: "unat offset < 2 ^ 42"
    using le by simp
  obtain w1 m where w1: "ext2_write_loop bd k offset (unat sz) data w = Some (w1, m)" "write_outcome w w1 k (unat offset) (length data) data m"
    using write_loop_ok [OF s _ o42, of "unat sz" data] len by auto
  then have wr: "wrote w w1 k" and m: "m \<le> unat sz" and sz: "i_size (finode w1 k) = i_size (finode w k)" and s1: "sound w1 k"
      and same: "node_info w1 = node_info w" "inode_place (e2fs w1) = inode_place (e2fs w)" "ni_ino (node_pool w1 ! k) = ni_ino (node_pool w ! k)"
      and ib: "inode_blocks (e2fs w1) = inode_blocks (e2fs w)"
    using len by (auto simp: write_outcome_def wrote_def node_info_def fun_eq_iff)
  define last where "last = offset + of_nat m"
  have last: "unat last = unat offset + m"
    using m le unat_add_no_wrap [of offset "of_nat m"] by (simp add: last_def unat_of_nat)
  have lst: "unat last = unat offset + m" "ucast last = (of_nat (unat offset + m) :: u32)" "sint (of_nat m :: u64) = int m"
    using m le by (simp_all only: last of_nat_unat flip: last) (simp add: sint_small)
  have gr: "ucast (i_size (finode w1 k)) < last \<longleftrightarrow> unat (i_size (finode w k)) < unat offset + m"
    by (simp add: word_less_nat_alt lst(1) sz unat_ucast_widen)
  have le': "unat offset + length data \<le> 12288"
    using le len by simp
  show thesis
  proof (cases "unat (i_size (finode w k)) < unat offset + m")
    case False
    have "ext2_vfs_write bd w node offset sz data = Some (w1, int m)"
      using nd w1(1) False gr lst(3) by (simp add: ext2_vfs_write_def last_def Let_def)
    moreover have "vfs_written w w1 k (unat offset) data m"
      by (rule vfs_written_loop [OF w1(2) le']) (use False in simp)
    ultimately show thesis
      using that False same inode_at_wrote [OF wr s place] by auto
  next
    case True
    define inode where "inode = set32 (finode w1 k) 4 (of_nat (unat offset + m))"
    define w2 where "w2 = (set_inode k inode w1)\<lparr>vnodes := (vnodes w1)(node := (vnodes w1 node)\<lparr>vn_size := ucast (i_size inode)\<rparr>)\<rparr>"
    have "unat offset + m \<le> 12288"
      using m le by simp
    note ss = set_size_ok [OF s1 this inode_def w2_def]
    have e2: "e2fs w2 = e2fs w1"
      by (simp add: w2_def)
    then have place2: "inode_place (e2fs w2) (ni_ino (node_pool w2 ! k)) = Some (Some (b, off))" "ni_ino (node_pool w2 ! k) \<noteq> 0"
      using place ino same ss(9) pl by simp_all
    obtain w3 x where w3: "ext2_write_inode bd w2 (ni_ino (node_pool w2 ! k)) inode = Some (w3, 0)" "keeps w2 w3" "e2fs w3 = e2fs w2"
        "blk w3 = (blk w2)(b := x)" "take 128 (drop off x) = inode"
      by (rule write_inode_ok [OF ss(1) place2 ss(7)])
    have bi: "b \<in> inode_blocks (e2fs w)"
      using inode_offset(2) [OF sound_laws(2) [OF s] place [unfolded pl]] .
    have "vfs_written w w3 k (unat offset) data m"
      by (rule vfs_written_grown [OF w1(2) le' True w2_def [unfolded inode_def] bi w3(2-4)])
    moreover have "ext2_vfs_write bd w node offset sz data = Some (w3, int m)"
      using nd w1(1) True gr lst w3(1) ss(9)
      by (simp add: ext2_vfs_write_def Let_def last_def [symmetric] inode_def [symmetric] w2_def [symmetric])
        (simp add: w2_def inode_def)
    moreover have "node_info w3 = node_info w" "node_pool w3 = node_pool w2"
      using same(1) w3(2) by (auto simp: node_info_def keeps_def w2_def fun_eq_iff)
    moreover have "inode_at w3 pl = finode w3 k"
      using w3(4, 5) ss(2) \<open>node_pool w3 = node_pool w2\<close> by (simp add: inode_at_def pl)
    ultimately show thesis
      using that True same w3(3) e2 ss(9) by auto
  qed
qed

lemma read_inode_ok:
  assumes s: "sound w k" and place: "inode_place (e2fs w) ino = Some (Some pl)" and ino: "ino \<noteq> 0"
  obtains w' where "ext2_read_inode bd w ino = Some (w', inode_at w pl, 0)" "keeps w w'" "e2fs w' = e2fs w" "blk w' = blk w"
proof -
  obtain b off where pl: "pl = (b, off)"
    by (cases pl) auto
  note sl = sound_laws [OF s] and io = inode_offset [OF sound_laws(2) [OF s] place [unfolded pl]]
  have rng: "in_range capacity b"
    using sl(2) io(2) by (auto simp: volume_ok_def)
  obtain w1 where w1: "ext2_read_block bd w b (buf_read_inode (e2_bufs w)) = Some (w1, blk w b @ drop 1024 (buf_read_inode (e2_bufs w)), 0)"
      "ok w1" "sectors w1 = sectors w" "rest w1 = rest w"
    by (rule read_block_ok [OF sl(1, 6) rng]) (use sl(3) in \<open>auto simp: bufs_ok_def\<close>)
  define buf where "buf = blk w b @ drop 1024 (buf_read_inode (e2_bufs w))"
  define w2 where "w2 = w1\<lparr>e2_bufs := (e2_bufs w1)\<lparr>buf_read_inode := buf\<rparr>\<rparr>"
  have "slice buf off 128 = Some (inode_at w pl)"
    using io(1) sl(1, 3) by (simp add: slice_def buf_def inode_at_def pl bufs_ok_def)
  then have "ext2_read_inode bd w ino = Some (w2, inode_at w pl, 0)"
    using ino place w1(1) by (simp add: ext2_read_inode_def pl buf_def [symmetric] w2_def [symmetric])
  moreover have "keeps w w2" "e2fs w2 = e2fs w" "blk w2 = blk w"
    using w1 rest_law [OF w1(4)] sl(1, 3) by (auto simp: w2_def ext2_laws keeps_def bufs_ok_def buf_def)
  ultimately show thesis
    using that by blast
qed

end

end
