(* ===== verification/Ext2Files.thy ===== *)
theory Ext2Files
  imports Ext2File
begin

text \<open>
  The properties of the file system on an ATA disk: what is written to a file is read back, other
  files keep their contents, and the inode on the disk follows the one in memory only when the
  file grows.
\<close>

text \<open>A file with index \<open>k\<close> in the pool of nodes, on a consistent volume of \<open>n\<close> sectors on drive \<open>i\<close>.\<close>

abbreviation disk_blocks :: "(io list \<Rightarrow> nat \<Rightarrow> bytes) \<Rightarrow> 'a ext2_scheme \<Rightarrow> u32 \<Rightarrow> bytes" where
  "disk_blocks medium w \<equiv> block_at (medium (io_log w))"

definition ext2_ready :: "hardware \<Rightarrow> (io list \<Rightarrow> nat \<Rightarrow> bytes) \<Rightarrow> nat \<Rightarrow> nat \<Rightarrow> 'a ext2_scheme \<Rightarrow> nat \<Rightarrow> bool" where
  "ext2_ready hw medium i n w k \<longleftrightarrow> ata_ready hw medium i n w \<and> volume_ok (drive_ptr i) n (e2fs w) (disk_blocks medium w) \<and>
     bufs_ok (e2_bufs w) \<and> k < length (node_pool w) \<and> file_ok n (e2fs w) (disk_blocks medium w) (ni_inode (node_pool w ! k))"

lemma ext2_ready_sound: "ext2_ready hw medium i n w k = ata_vol.sound i hw medium n w k"
  by (simp add: ext2_ready_def ata_vol.sound_def)

text \<open>The inode of a node has a place in the tables on the disk.\<close>

definition placed :: "'a ext2_scheme \<Rightarrow> nat \<Rightarrow> u32 \<times> nat \<Rightarrow> bool" where
  "placed w k pl \<longleftrightarrow> ni_ino (node_pool w ! k) \<noteq> 0 \<and> inode_place (e2fs w) (ni_ino (node_pool w ! k)) = Some (Some pl)"

section \<open>Properties\<close>

text \<open>
  C19: what is written to a file is read back.  On a consistent volume, writing to the first 12 KiB of
  a file succeeds with the number of bytes written, which is short only when no group has a
  free block; reading them back through the node returns exactly those bytes, and the volume and the
  file are consistent again.
\<close>

theorem ext2_write_read:
  assumes "ext2_ready hw medium i n w k" and "node_info w node = Some k" and "placed w k pl" and "unat (i_size (ni_inode (node_pool w ! k))) \<le> 12288"
    and "length data = unat sz" and "unat offset + unat sz \<le> 12288"
  shows "\<exists>w' m w''. ext2_vfs_write (ata_blk hw) w node offset sz data = Some (w', int m) \<and> m \<le> unat sz \<and>
    (m < unat sz \<longrightarrow> (\<forall>g < group_count (e2fs w'). group_full (e2fs w') (disk_blocks medium w') g)) \<and>
    ext2_vfs_read (ata_blk hw) w' node offset (of_nat m) = Some (w'', take m data, int m) \<and> ext2_ready hw medium i n w'' k"
proof -
  have s: "ata_vol.sound i hw medium n w k"
    using assms(1) by (simp add: ext2_ready_sound)
  obtain w' m where w': "ext2_vfs_write (ata_blk hw) w node offset sz data = Some (w', int m)" "ata_vol.vfs_written i hw medium n w w' k (unat offset) data m"
      "node_info w' = node_info w"
    using ata_vol.vfs_write_ok [OF s assms(2) conjunct2 conjunct1, OF assms(3, 3) [unfolded placed_def] assms(5, 6)] by metis
  note wr = w'(2) [unfolded ata_vol.vfs_written_def]
  have s': "ata_vol.sound i hw medium n w' k" and m: "m \<le> unat sz" and size: "unat (i_size (ni_inode (node_pool w' ! k))) = max (unat (i_size (ni_inode (node_pool w ! k)))) (unat offset + m)"
    using wr assms(5) by auto
  have um: "unat (of_nat m :: u64) = m"
    using m assms(6) by (simp add: unat_of_nat)
  obtain w'' m' where w'': "m' = min m (unat (i_size (ni_inode (node_pool w' ! k))) - unat offset)"
      "ext2_vfs_read (ata_blk hw) w' node offset (of_nat m) = Some (w'', map (file_byte (disk_blocks medium w') (ni_inode (node_pool w' ! k))) [unat offset..<unat offset + m'], int m')"
      "ata_ready hw medium i n w''" "medium (io_log w'') = medium (io_log w')" "w''\<lparr>io_log := []\<rparr> = w'\<lparr>io_log := []\<rparr>"
    by (rule ata_vol.vfs_read_ok [OF s', of node offset "of_nat m"]) (use assms(2, 4, 6) m size w'(3) um in auto)
  have "m' = m"
    using w''(1) size by simp
  moreover have "map (file_byte (disk_blocks medium w') (ni_inode (node_pool w' ! k))) [unat offset..<unat offset + m] = take m data"
    using wr m assms(5, 6) by (intro nth_equalityI) auto
  moreover have "ext2_ready hw medium i n w'' k"
    using ata_vol.rest_law [OF w''(5)] w''(3, 4) s' by (simp add: ext2_ready_sound ata_vol.sound_def)
  ultimately show ?thesis
    using w'(1) w''(2) m wr assms(5) by auto
qed


text \<open>
  C35: a write that fills a hole is lost.  Writing a byte inside the size of a file, in a block
  the file does not have yet, allocates the block and stores the byte, but the inode on the disk is
  written only when the file grows: read from the disk, the inode still has the hole, and the
  byte is 0.
\<close>

theorem ext2_hole_not_saved:
  assumes "ext2_ready hw medium i n w k" and "node_info w node = Some k" and "placed w k (b, off)"
    and "take 128 (drop off (disk_blocks medium w b)) = ni_inode (node_pool w ! k)"
    and "unat offset < unat (i_size (ni_inode (node_pool w ! k)))" and "unat offset < 12288"
    and "i_block (ni_inode (node_pool w ! k)) (unat offset div 1024) = 0"
    and "g < group_count (e2fs w)" and "\<not> group_full (e2fs w) (disk_blocks medium w) g"
  shows "\<exists>w' w'' inode. ext2_vfs_write (ata_blk hw) w node offset 1 [v] = Some (w', 1) \<and>
    file_byte (disk_blocks medium w') (ni_inode (node_pool w' ! k)) (unat offset) = v \<and>
    ext2_read_inode (ata_blk hw) w' (ni_ino (node_pool w' ! k)) = Some (w'', inode, 0) \<and>
    i_block inode (unat offset div 1024) = 0 \<and> file_byte (disk_blocks medium w') inode (unat offset) = 0"
proof -
  have s: "ata_vol.sound i hw medium n w k"
    using assms(1) by (simp add: ext2_ready_sound)
  have pl: "inode_place (e2fs w) (ni_ino (node_pool w ! k)) = Some (Some (b, off))" "ni_ino (node_pool w ! k) \<noteq> 0"
    using assms(3) by (simp_all add: placed_def)
  have le: "unat offset + unat (1 :: u64) \<le> 12288" "length [v] = unat (1 :: u64)"
    using assms(6) by simp_all
  obtain w' m where w': "ext2_vfs_write (ata_blk hw) w node offset 1 [v] = Some (w', int m)" "ata_vol.vfs_written i hw medium n w w' k (unat offset) [v] m"
      "inode_place (e2fs w') = inode_place (e2fs w)" "ni_ino (node_pool w' ! k) = ni_ino (node_pool w ! k)"
      "ata_vol.inode_at medium w' (b, off) = (if unat (i_size (ni_inode (node_pool w ! k))) < unat offset + m then ni_inode (node_pool w' ! k) else ata_vol.inode_at medium w (b, off))"
    using ata_vol.vfs_write_ok [OF s assms(2) pl le(2, 1)] by metis
  note wr = w'(2) [unfolded ata_vol.vfs_written_def]
  have "m \<noteq> 0"
    using wr assms(8, 9) by auto
  then have m: "m = 1"
    using wr by simp
  have inode: "ata_vol.inode_at medium w' (b, off) = ni_inode (node_pool w ! k)"
    using w'(5) assms(4, 5) m by (simp add: ata_vol.inode_at_def)
  have "inode_place (e2fs w') (ni_ino (node_pool w' ! k)) = Some (Some (b, off))" "ni_ino (node_pool w' ! k) \<noteq> 0"
    using pl w'(3, 4) by simp_all
  then obtain w'' where "ext2_read_inode (ata_blk hw) w' (ni_ino (node_pool w' ! k)) = Some (w'', ni_inode (node_pool w ! k), 0)"
    using ata_vol.read_inode_ok [of i hw medium n w' k "ni_ino (node_pool w' ! k)" "(b, off)"] wr inode by metis
  moreover have "file_byte (disk_blocks medium w') (ni_inode (node_pool w' ! k)) (unat offset) = v"
    using wr m assms(6) by simp
  moreover have "file_byte (disk_blocks medium w') (ni_inode (node_pool w ! k)) (unat offset) = 0"
    using assms(7) by (simp add: file_byte_def fblock_def)
  ultimately show ?thesis
    using w'(1) m assms(7) by auto
qed

text \<open>
  C25: allocation stays on the disk.  On a consistent volume, \<open>ext2_alloc_block\<close> returns 0 only when no
  group has a free block; any other result is the number of a block that lies on the
  device and was free, it is in use afterwards, and every block that was in use
  still is.
\<close>

theorem ext2_alloc_block_bounds:
  assumes "ext2_ready hw medium i n w k"
  shows "\<exists>w' b. ext2_alloc_block (ata_blk hw) w = Some (w', b) \<and>
    (if b = 0 then \<forall>g < group_count (e2fs w). group_full (e2fs w) (disk_blocks medium w) g
     else 2 * unat b + 2 \<le> n \<and> \<not> block_used (e2fs w) (disk_blocks medium w) b \<and> block_used (e2fs w') (disk_blocks medium w') b \<and>
       (\<forall>c. block_used (e2fs w) (disk_blocks medium w) c \<longrightarrow> block_used (e2fs w') (disk_blocks medium w') c))"
proof -
  note sl = ata_vol.sound_laws [OF assms [unfolded ext2_ready_sound]]
  obtain w' b where w': "ext2_alloc_block (ata_blk hw) w = Some (w', b)" "ata_vol.alloc_outcome medium w w' b"
      "b = 0 \<Longrightarrow> \<forall>g < group_count (e2fs w). group_full (e2fs w) (disk_blocks medium w) g"
    using ata_vol.alloc_block_ok [OF sl(1-3)] by metis
  show ?thesis
  proof (cases "b = 0")
    case False
    then show ?thesis
      using w'(1) ata_vol.alloc_fresh [OF sl(1, 2) w'(2) False] by (auto simp: in_range_def)
  qed (use w' in auto)
qed

text \<open>
  C36: mounting a volume with blocks of 4096 bytes overruns a buffer.  The group descriptors
  are read as a whole block into a table of 64 descriptors, 2048 bytes, so that a valid superblock with
  the block size that is usual for larger volumes makes \<open>ext2_mount_device\<close> store past its end.
\<close>

theorem ext2_mount_overruns:
  assumes "ata_ready hw medium i n w" and "length (fs_bgds (e2fs w)) = 2048" and "16 \<le> n" and "bd_sector_size (block_dev_at w (drive_ptr i)) = 512"
    and "sb = disk_blocks medium w 1" and "s_magic sb = EXT2_SUPER_MAGIC" and "s_log_block_size sb = 2" and "s_blocks_per_group sb \<noteq> 0"
  shows "ext2_mount_device (ata_blk hw) w (drive_ptr i) mp = None"
proof -
  define w0 where "w0 = w\<lparr>primary_ext2 := (e2fs w)\<lparr>fs_dev := Some (drive_ptr i)\<rparr>\<rparr>"
  have r0: "ata_ready hw medium i n w0" "medium (io_log w0) = medium (io_log w)"
    using assms(1) by (simp_all add: w0_def ata_ready_def)
  obtain w1 where w1: "blk_read (ata_blk hw) w0 (drive_ptr i) 2 2 = (w1, concat (map (medium (io_log w)) [2..<4]), 0)"
      "ata_ready hw medium i n w1" "w1\<lparr>io_log := []\<rparr> = w0\<lparr>io_log := []\<rparr>"
    using ata_dev.read_law [OF r0(1), of 2 2] assms(3) r0(2) by auto
  have sb: "concat (map (medium (io_log w)) [2..<4]) = sb" "length sb = 1024"
    using assms(1, 5) ata_dev.sector_law [OF assms(1)] by (simp_all add: block_at_def upt_rec)
  have e1: "e2fs w1 = e2fs w0" "block_dev_at w1 = block_dev_at w"
    using ata_vol.rest_law [OF w1(3)] arg_cong [OF w1(3), of drives] by (simp_all add: w0_def block_dev_at_def fun_eq_iff)
  define f where "f = (e2fs w0)\<lparr>fs_sb := sb, fs_dev := Some (drive_ptr i), block_size := 4096, sectors_per_block := 8,
    inode_size := (let isize = (if 1 \<le> s_rev_level sb then ucast (s_inode_size sb) else 128) in if isize = 0 then 128 else isize),
    group_count := (s_blocks_count sb + s_blocks_per_group sb - 1) div s_blocks_per_group sb\<rparr>"
  have geo: "mount_geometry sb 512 (drive_ptr i) ((e2fs w0)\<lparr>fs_sb := sb\<rparr>) = Some f"
    using assms(7, 8) by (simp add: mount_geometry_def f_def Let_def)
  define w2 where "w2 = w1\<lparr>primary_ext2 := f\<rparr>"
  have r2: "ata_ready hw medium i n w2"
    using w1(2) by (simp add: w2_def ata_ready_def)
  obtain w3 bs where w3: "blk_read (ata_blk hw) w2 (drive_ptr i) 8 8 = (w3, bs, 0)" "length bs = 4096"
  proof -
    obtain w3 where w3: "blk_read (ata_blk hw) w2 (drive_ptr i) 8 8 = (w3, concat (map (medium (io_log w2)) [8..<16]), 0)"
      using ata_dev.read_law [OF r2, of 8 8] assms(3) by auto
    have "length (concat (map (medium (io_log w2)) [8..<16])) = 4096"
      using ata_dev.sector_law [OF r2] by (simp add: length_concat o_def sum_list_triv)
    then show thesis
      using that w3 by blast
  qed
  have "fs_bgds f = fs_bgds (e2fs w)"
    by (simp add: f_def w0_def)
  then have "ext2_read_block (ata_blk hw) w2 1 (fs_bgds f) = None"
    using w3 assms(2) by (simp add: ext2_read_block_def w2_def f_def blit_def)
  moreover have "bd_sector_size (block_dev_at (w1\<lparr>primary_ext2 := x\<rparr>) (drive_ptr i)) = 512" for x
    using assms(4) e1(2) by (simp add: block_dev_at_def fun_eq_iff)
  moreover have "block_size f = 4096"
    by (simp add: f_def)
  ultimately show ?thesis
    using w1(1) sb assms(6) geo e1(1) by (simp add: ext2_mount_device_def w0_def [symmetric] w2_def [symmetric] Let_def blit_def)
qed

section \<open>A volume for examples\<close>

text \<open>
  One group of 40 blocks on a disk of 100 sectors: the bitmap is block 3, the inode table block 5,
  and blocks 1 to 6 are in use.  Inode 2 is a file of 3000 bytes without blocks, inode 3 one of 100 bytes in block 6.
\<close>

definition demo_inode2 :: bytes where "demo_inode2 = set32 (replicate 128 0) 4 3000"
definition demo_inode3 :: bytes where "demo_inode3 = set32 (set32 (replicate 128 0) 4 100) 40 6"

definition demo_sectors :: "nat \<Rightarrow> bytes" where
  "demo_sectors l =
     (if l = 6 then 0x3F # replicate 511 0
      else if l = 10 then replicate 128 0 @ demo_inode2 @ demo_inode3 @ replicate 128 0 else replicate 512 0)"

definition demo_fs :: ext2_fs where
  "demo_fs = \<lparr>fs_dev = Some (drive_ptr 0), fs_sb = set32 (set32 (set32 (replicate 1024 0) 20 1) 32 40) 40 8, block_size = 1024, sectors_per_block = 2,
     group_count = 1, fs_bgds = put32 3 @ put32 4 @ put32 5 @ put16 34 @ put16 6 @ replicate 2032 0, inode_size = 128\<rparr>"

definition demo_ext2 :: ext2 where
  "demo_ext2 = \<lparr>mounts = [], mount_count = 0, vnodes = (\<lambda>p. vfs_node_zero\<lparr>vn_priv_data := Some (Static ''node_pool'' (static_idx p))\<rparr>),
     tar_archive_base = None, tar_archive_size = 0, tarfs_file_count = 0, io_log = [], drives = [demo_drive], total_drives = 1,
     registered_devices = [], device_count = 0, primary_ext2 = demo_fs, primary_ext2_initialized = True,
     node_pool = [\<lparr>ni_ino = 2, ni_inode = demo_inode2\<rparr>, \<lparr>ni_ino = 3, ni_inode = demo_inode3\<rparr>], pool_count = 2,
     e2_bufs = \<lparr>buf_read_inode = replicate 4096 0, buf_write_inode = replicate 4096 0, buf_block_bitmap = replicate 4096 0,
       buf_inode_bitmap = replicate 4096 0, buf_write = replicate 4096 0, buf_dir = replicate 1024 0\<rparr>\<rparr>"

abbreviation demo_blocks :: "u32 \<Rightarrow> bytes" where
  "demo_blocks \<equiv> block_at demo_sectors"

lemma length_demo_sectors: "length (demo_sectors l) = 512"
  by (simp add: demo_sectors_def demo_inode2_def demo_inode3_def)

lemma demo_super:
  "s_blocks_per_group (fs_sb demo_fs) = 40" "s_first_data_block (fs_sb demo_fs) = 1" "s_inodes_per_group (fs_sb demo_fs) = 8" "length (fs_sb demo_fs) = 1024"
  "length (fs_bgds demo_fs) = 2048" "group_count demo_fs = 1" "block_size demo_fs = 1024" "inode_size demo_fs = 128"
  by (simp_all add: demo_fs_def s_blocks_per_group_def s_first_data_block_def s_inodes_per_group_def get32_set32_other)

lemma demo_groups: "bitmap_of demo_fs 0 = 3" "bg_inode_table demo_fs 0 = Some 5" "bg_free_blocks_count demo_fs 0 = Some 34"
proof -
  show "bitmap_of demo_fs 0 = 3"
    by (simp add: bitmap_of_def demo_fs_def get32_def put32_def)
  have "get32 ((put32 3 @ put32 4) @ put32 5 @ put16 34 @ put16 6 @ replicate 2032 0) 8 = 5"
    by (simp add: get32_def put32_def nth_append)
  then show "bg_inode_table demo_fs 0 = Some 5"
    by (simp add: bg_inode_table_def demo_fs_def rd32_def)
  have "get16 ((put32 3 @ put32 4 @ put32 5) @ put16 34 @ put16 6 @ replicate 2032 0) 12 = 34"
    by (simp add: get16_def put32_def put16_def nth_append)
  then show "bg_free_blocks_count demo_fs 0 = Some 34"
    by (simp add: bg_free_blocks_count_def demo_fs_def rd16_def)
qed

lemma demo_place: "inode_place demo_fs ino = Some (if (ino - 1) div 8 = 0 then Some (5, 128 * unat ((ino - 1) mod 8)) else None)"
proof -
  define d where "d = ino - 1"
  define r where "r = d mod 8"
  have r: "unat r < 8"
    by (simp add: r_def unat_mod_distrib)
  then have "unat (r * 128) = 128 * unat r"
    by (simp add: unat_word_ariths)
  then have "r * 128 div 1024 = 0" "unat (r * 128 mod 1024) = 128 * unat r"
    using r by (simp_all add: word_unat_eq_iff unat_div_distrib unat_mod_distrib)
  moreover have "1 \<le> d div 8 \<longleftrightarrow> d div 8 \<noteq> 0"
    by (simp add: word_le_nat_alt word_unat_eq_iff Suc_le_eq)
  ultimately show ?thesis
    by (auto simp: inode_place_def demo_super demo_groups Let_def d_def [symmetric] r_def [symmetric])
qed

lemma demo_bit: "b < 40 \<Longrightarrow> bm_bit (demo_blocks 3) b \<longleftrightarrow> b < 6"
proof -
  assume b: "b < 40"
  have blk: "demo_blocks 3 = 0x3F # replicate 1023 0"
    using replicate_add [of 511 512 "0 :: u8"] by (simp add: block_at_def demo_sectors_def)
  show ?thesis
  proof (cases "b < 8")
    case True
    then have "b = 0 \<or> b = 1 \<or> b = 2 \<or> b = 3 \<or> b = 4 \<or> b = 5 \<or> b = 6 \<or> b = 7"
      by arith
    then show ?thesis
      by (auto simp: bm_bit_def blk bit_numeral_rec)
  next
    case False
    then have "1 \<le> b div 8" "b div 8 < 5"
      using b by auto
    then show ?thesis
      using False by (simp add: bm_bit_def blk nth_Cons')
  qed
qed

lemma demo_tables: "bitmap_blocks demo_fs = {3}" "inode_blocks demo_fs = {5}"
proof -
  have "(bg :: u32) < 1 \<longleftrightarrow> bg = 0" for bg
    by (simp add: word_less_nat_alt word_unat_eq_iff)
  then show "bitmap_blocks demo_fs = {3}"
    by (simp add: bitmap_blocks_def demo_super demo_groups)
  have "inode_place demo_fs 2 = Some (Some (5, 128))"
    by (simp add: demo_place)
  then show "inode_blocks demo_fs = {5}"
    by (auto simp: inode_blocks_def demo_place split: if_splits intro!: exI [of _ 2])
qed

lemma demo_used: "block_used demo_fs demo_blocks n \<longleftrightarrow> unat n \<in> {1..6}"
proof -
  have z: "(bg :: u32) < 1 \<longleftrightarrow> bg = 0" for bg
    by (simp add: word_less_nat_alt word_unat_eq_iff)
  have "block_used demo_fs demo_blocks n \<longleftrightarrow> (\<exists>b < 40. unat n = b + 1 \<and> bm_bit (demo_blocks 3) b)"
    by (auto simp: block_used_def demo_super demo_groups block_no_def z)
  also have "\<dots> \<longleftrightarrow> (\<exists>b < 6. unat n = b + 1)"
    by (auto simp: demo_bit)
  also have "\<dots> \<longleftrightarrow> unat n \<in> {1..6}"
    by (auto intro!: exI [of _ "unat n - 1"])
  finally show ?thesis .
qed

lemma demo_volume: "volume_ok (drive_ptr 0) 100 demo_fs demo_blocks"
proof -
  have z: "(bg :: u32) < 1 \<longleftrightarrow> bg = 0" for bg
    by (simp add: word_less_nat_alt word_unat_eq_iff)
  have "mounted (drive_ptr 0) demo_fs"
    using demo_super by (simp add: mounted_def) (simp add: demo_fs_def)
  moreover have "\<forall>b \<in> bitmap_blocks demo_fs \<union> inode_blocks demo_fs. in_range 100 b \<and> block_used demo_fs demo_blocks b"
    by (simp add: demo_tables demo_used in_range_def)
  moreover have "block_no demo_fs bg b < 2 ^ 32 \<and> 2 * block_no demo_fs bg b + 2 \<le> 100" if "bg < 1" "b < 40" for bg b
    using that by (simp add: z block_no_def demo_super)
  ultimately show ?thesis
    by (simp add: volume_ok_def demo_tables demo_super z)
qed

lemma demo_files: "file_ok 100 demo_fs demo_blocks demo_inode2" "file_ok 100 demo_fs demo_blocks demo_inode3"
  "file_blocks demo_inode2 = {}" "file_blocks demo_inode3 = {6}" "i_size demo_inode2 = 3000" "i_size demo_inode3 = 100"
  "\<And>i. i < 12 \<Longrightarrow> i_block demo_inode2 i = 0"
proof -
  have z: "get32 (replicate 128 0) (40 + 4 * i) = 0" if "i < 12" for i
    using that by (simp add: get32_def)
  show i2: "i_block demo_inode2 i = 0" if "i < 12" for i
    using i_block_low(1) [of "replicate 128 0" 4 3000 i] z [OF that] by (simp add: demo_inode2_def i_block_def)
  have i3: "i_block demo_inode3 i = (if i = 0 then 6 else 0)" if "i < 12" for i
    using i_block_set32 [of "set32 (replicate 128 0) 4 100" 0 i 6] i_block_low(1) [of "replicate 128 0" 4 100 i] z [OF that] that
    by (simp add: demo_inode3_def i_block_def)
  show "file_blocks demo_inode2 = {}" "file_blocks demo_inode3 = {6}"
    using i2 i3 by (auto simp: file_blocks_def image_def)
  show "file_ok 100 demo_fs demo_blocks demo_inode2"
    using i2 by (simp add: file_ok_def) (simp add: demo_inode2_def)
  show "file_ok 100 demo_fs demo_blocks demo_inode3"
    using i3 by (simp add: file_ok_def demo_tables demo_used in_range_def) (simp add: demo_inode3_def)
  show "i_size demo_inode2 = 3000" "i_size demo_inode3 = 100"
    by (simp_all add: i_size_def demo_inode2_def demo_inode3_def get32_set32_other)
qed

lemma demo_ready: "k < 2 \<Longrightarrow> ext2_ready (demo_hw demo_sectors demo_drive) (demo_medium demo_sectors demo_drive) 0 100 demo_ext2 k"
proof -
  assume k: "k < 2"
  have a: "ata_ready (demo_hw demo_sectors demo_drive) (demo_medium demo_sectors demo_drive) 0 100 demo_ext2"
    using demo_disk [OF length_demo_sectors] by (simp add: ata_ready_def demo_ext2_def) (simp add: demo_drive_def)
  have "k = 0 \<or> k = 1"
    using k by arith
  then have "file_ok 100 demo_fs demo_blocks (ni_inode (node_pool demo_ext2 ! k))"
    using demo_files by (auto simp: demo_ext2_def)
  moreover have "bufs_ok (e2_bufs demo_ext2)" "k < length (node_pool demo_ext2)" "e2fs demo_ext2 = demo_fs" "io_log demo_ext2 = []"
    using k by (simp_all add: demo_ext2_def bufs_ok_def)
  ultimately show ?thesis
    using a demo_volume by (simp add: ext2_ready_def)
qed

lemma demo_nodes:
  "node_info demo_ext2 (Static s k) = Some k" "ni_inode (node_pool demo_ext2 ! 0) = demo_inode2" "ni_inode (node_pool demo_ext2 ! 1) = demo_inode3"
  "placed demo_ext2 0 (5, 128)" "placed demo_ext2 1 (5, 256)" "e2fs demo_ext2 = demo_fs" "io_log demo_ext2 = []"
  "take 128 (drop 128 (demo_blocks 5)) = demo_inode2"
  by (simp_all add: demo_ext2_def node_info_def placed_def demo_place block_at_def demo_sectors_def demo_inode2_def)

theorem ext2_write_read_witness:
  "\<exists>w' m w''. ext2_vfs_write (ata_blk (demo_hw demo_sectors demo_drive)) demo_ext2 (Static ''vfs_node_pool'' 0) 2990 20 (replicate 20 7) = Some (w', int m) \<and> m \<le> 20 \<and>
    (m < 20 \<longrightarrow> (\<forall>g < group_count (e2fs w'). group_full (e2fs w') (disk_blocks (demo_medium demo_sectors demo_drive) w') g)) \<and>
    ext2_vfs_read (ata_blk (demo_hw demo_sectors demo_drive)) w' (Static ''vfs_node_pool'' 0) 2990 (of_nat m) = Some (w'', take m (replicate 20 7), int m) \<and>
    ext2_ready (demo_hw demo_sectors demo_drive) (demo_medium demo_sectors demo_drive) 0 100 w'' 0"
  using ext2_write_read [OF demo_ready [of 0] demo_nodes(1, 4), of "replicate 20 7" 20 2990 "''vfs_node_pool''"]
  by (simp add: demo_nodes demo_files)


theorem ext2_hole_not_saved_witness:
  "\<exists>w' w'' inode. ext2_vfs_write (ata_blk (demo_hw demo_sectors demo_drive)) demo_ext2 (Static ''vfs_node_pool'' 0) 1500 1 [9] = Some (w', 1) \<and>
    file_byte (disk_blocks (demo_medium demo_sectors demo_drive) w') (ni_inode (node_pool w' ! 0)) (unat (1500 :: u64)) = 9 \<and>
    ext2_read_inode (ata_blk (demo_hw demo_sectors demo_drive)) w' (ni_ino (node_pool w' ! 0)) = Some (w'', inode, 0) \<and>
    i_block inode (unat (1500 :: u64) div 1024) = 0 \<and> file_byte (disk_blocks (demo_medium demo_sectors demo_drive) w') inode (unat (1500 :: u64)) = 0"
proof (rule ext2_hole_not_saved [OF demo_ready [of 0] demo_nodes(1, 4), where g = 0])
  show "\<not> group_full (e2fs demo_ext2) (disk_blocks (demo_medium demo_sectors demo_drive) demo_ext2) 0"
    using demo_bit [of 10] by (auto simp: group_full_def demo_nodes demo_groups demo_super intro!: exI [of _ 10])
qed (simp_all add: demo_nodes demo_files demo_super)

theorem ext2_alloc_block_bounds_witness:
  "\<exists>w' b. ext2_alloc_block (ata_blk (demo_hw demo_sectors demo_drive)) demo_ext2 = Some (w', b) \<and>
    (if b = 0 then \<forall>g < group_count demo_fs. group_full demo_fs demo_blocks g
     else 2 * unat b + 2 \<le> 100 \<and> \<not> block_used demo_fs demo_blocks b \<and> block_used (e2fs w') (disk_blocks (demo_medium demo_sectors demo_drive) w') b \<and>
       (\<forall>c. block_used demo_fs demo_blocks c \<longrightarrow> block_used (e2fs w') (disk_blocks (demo_medium demo_sectors demo_drive) w') c))"
  using ext2_alloc_block_bounds [OF demo_ready [of 0], unfolded demo_nodes demo_medium.simps] by simp

text \<open>A superblock with blocks of 4096 bytes.\<close>

definition demo_super4k :: bytes where
  "demo_super4k = set16 (set32 (set32 (replicate 1024 0) 24 2) 32 8192) 56 EXT2_SUPER_MAGIC"

definition demo_sectors4k :: "nat \<Rightarrow> bytes" where
  "demo_sectors4k l = (if l = 2 then take 512 demo_super4k else if l = 3 then drop 512 demo_super4k else replicate 512 0)"

theorem ext2_mount_overruns_witness:
  "ext2_mount_device (ata_blk (demo_hw demo_sectors4k demo_drive)) demo_ext2 (drive_ptr 0) [47, 0] = None"
proof (rule ext2_mount_overruns [where medium = "demo_medium demo_sectors4k demo_drive" and n = 100])
  have len: "length demo_super4k = 1024"
    by (simp add: demo_super4k_def)
  have blk: "disk_blocks (demo_medium demo_sectors4k demo_drive) demo_ext2 1 = demo_super4k"
    by (simp add: block_at_def demo_nodes demo_sectors4k_def)
  have "length (demo_sectors4k l) = 512" for l
    by (simp add: demo_sectors4k_def len)
  then show "ata_ready (demo_hw demo_sectors4k demo_drive) (demo_medium demo_sectors4k demo_drive) 0 100 demo_ext2"
    using demo_disk [of demo_sectors4k] by (simp add: ata_ready_def demo_ext2_def) (simp add: demo_drive_def)
  show "demo_super4k = disk_blocks (demo_medium demo_sectors4k demo_drive) demo_ext2 1"
    by (simp add: blk)
  have "get16 (set16 bs 56 v) 56 = v" if "length bs = 1024" for bs v
    using that by (simp add: set16_def get16_put16)
  then show "s_magic demo_super4k = EXT2_SUPER_MAGIC"
    by (simp add: s_magic_def demo_super4k_def)
  show "s_log_block_size demo_super4k = 2" "s_blocks_per_group demo_super4k \<noteq> 0"
    by (simp_all add: s_log_block_size_def s_blocks_per_group_def demo_super4k_def get32_set16_other get32_set32_other)
  show "bd_sector_size (block_dev_at demo_ext2 (drive_ptr 0)) = 512"
    by (simp add: block_dev_at_def demo_ext2_def drive_ptr_def) (simp add: demo_drive_def)
qed (simp_all add: demo_nodes demo_super)

end
