(* ===== verification/Synch.thy ===== *)
theory Synch
  imports Lifecycle
begin

text \<open>
  The locks of user programs, \<^verbatim>\<open>userland/include/synch.h\<close>: spin lock, mutex and semaphore, run
  by threads whose atomic actions interleave in any order.

  Each thread has a program point in the lock's code; one rule of a step relation is one atomic
  action: an atomic instruction, a store or a system call.  System calls are atomic because the
  kernel enters them with interrupts masked.  The futex calls act on the list of threads as the
  kernel's \<open>futex_wait\<close> and \<open>futex_wake\<close> act on the process table, which is the contract \<open>futex\<close> below.
\<close>

section \<open>Sleeping and waking\<close>

text \<open>\<open>FUTEX_WAKE\<close> with count 1: the first sleeper.\<close>

fun wake_first :: "('a \<Rightarrow> bool) \<Rightarrow> ('a \<Rightarrow> 'a) \<Rightarrow> 'a list \<Rightarrow> 'a list" where
  "wake_first P f [] = []"
| "wake_first P f (p # ps) = (if P p then f p # ps else p # wake_first P f ps)"

lemma length_wake_first [simp]: "length (wake_first P f ps) = length ps"
  by (induction ps) auto

lemma wake_first_nth:
  assumes "i < length ps"
  shows "wake_first P f ps ! i = (if P (ps ! i) \<and> (\<forall>j < i. \<not> P (ps ! j)) then f (ps ! i) else ps ! i)"
  using assms
proof (induction ps arbitrary: i)
  case (Cons p ps)
  then show ?case
    by (cases i) (auto simp: All_less_Suc2)
qed simp

lemma wake_first_none: "(\<And>p. p \<in> set ps \<Longrightarrow> \<not> P p) \<Longrightarrow> wake_first P f ps = ps"
  by (induction ps) auto

lemma wake_first_some:
  assumes "i < length ps" and "P (ps ! i)"
  obtains j where "j < length ps" "P (ps ! j)" "wake_first P f ps = ps[j := f (ps ! j)]"
  using assms
proof (induction ps arbitrary: i thesis)
  case (Cons p ps)
  show ?case
  proof (cases "P p")
    case True
    then show ?thesis
      using Cons.prems(1) [of 0] by simp
  next
    case False
    then obtain i' where "i = Suc i'" "i' < length ps" "P (ps ! i')"
      using Cons.prems(2, 3) by (cases i) auto
    then obtain j where "j < length ps" "P (ps ! j)" "wake_first P f ps = ps[j := f (ps ! j)]"
      using Cons.IH by blast
    then show ?thesis
      using Cons.prems(1) [of "Suc j"] False by simp
  qed
qed simp

section \<open>Mutex\<close>

text \<open>
  What the lock needs of the kernel, for one word in user memory: the word, an atomic store to it, the
  threads that are asleep in \<open>FUTEX_WAIT\<close> on it, the thread that runs, and the two calls;
  the flag of a wait says that the caller sleeps.
\<close>

record 'k futex_ops =
  word_at :: "'k \<Rightarrow> u32 option"
  set_word :: "'k \<Rightarrow> u32 \<Rightarrow> 'k option"
  in_wait :: "'k \<Rightarrow> bool list"
  caller :: "'k \<Rightarrow> nat"
  wait_call :: "'k \<Rightarrow> u32 \<Rightarrow> ('k \<times> bool) option"
  wake_call :: "'k \<Rightarrow> 'k"

text \<open>
  Where a thread is: before the compare-and-exchange and the exchange of \<open>mutex_lock\<close>, before and in its system
  call, after it, and after the subtraction and the store of \<open>mutex_unlock\<close>.
\<close>

datatype mutex_pc = Outside | Lock_cas | Lock_exchange | Lock_wait | Lock_blocked | Holding | Unlock_store | Unlock_wake

inductive mutex_step :: "'k futex_ops \<Rightarrow> ('k \<Rightarrow> bool) \<Rightarrow> 'k \<times> mutex_pc list \<Rightarrow> 'k \<times> mutex_pc list \<Rightarrow> bool" for F live where
  lock_call: "i < length pcs \<Longrightarrow> pcs ! i = Outside \<Longrightarrow> mutex_step F live (k, pcs) (k, pcs[i := Lock_cas])"
| lock_cas: "i < length pcs \<Longrightarrow> pcs ! i = Lock_cas \<Longrightarrow> word_at F k = Some 0 \<Longrightarrow> set_word F k 1 = Some k' \<Longrightarrow>
    mutex_step F live (k, pcs) (k', pcs[i := Holding])"
| lock_cas_fails: "i < length pcs \<Longrightarrow> pcs ! i = Lock_cas \<Longrightarrow> word_at F k = Some c \<Longrightarrow> c \<noteq> 0 \<Longrightarrow>
    mutex_step F live (k, pcs) (k, pcs[i := if c \<noteq> 2 then Lock_exchange else Lock_wait])"
| lock_exchange: "i < length pcs \<Longrightarrow> pcs ! i = Lock_exchange \<Longrightarrow> word_at F k = Some c \<Longrightarrow> set_word F k 2 = Some k' \<Longrightarrow>
    mutex_step F live (k, pcs) (k', pcs[i := if c \<noteq> 0 then Lock_wait else Holding])"
| lock_wait: "i < length pcs \<Longrightarrow> pcs ! i = Lock_wait \<Longrightarrow> caller F k = i \<Longrightarrow> wait_call F k 2 = Some (k', blocks) \<Longrightarrow>
    mutex_step F live (k, pcs) (k', pcs[i := if blocks then Lock_blocked else Lock_exchange])"
| lock_resume: "i < length pcs \<Longrightarrow> pcs ! i = Lock_blocked \<Longrightarrow> \<not> in_wait F k ! i \<Longrightarrow> mutex_step F live (k, pcs) (k, pcs[i := Lock_exchange])"
| unlock: "i < length pcs \<Longrightarrow> pcs ! i = Holding \<Longrightarrow> word_at F k = Some c \<Longrightarrow> set_word F k (c - 1) = Some k' \<Longrightarrow>
    mutex_step F live (k, pcs) (k', pcs[i := if c \<noteq> 1 then Unlock_store else Outside])"
| unlock_store: "i < length pcs \<Longrightarrow> pcs ! i = Unlock_store \<Longrightarrow> set_word F k 0 = Some k' \<Longrightarrow>
    mutex_step F live (k, pcs) (k', pcs[i := Unlock_wake])"
| unlock_wake: "i < length pcs \<Longrightarrow> pcs ! i = Unlock_wake \<Longrightarrow> mutex_step F live (k, pcs) (wake_call F k, pcs[i := Outside])"
| elsewhere: "live k' \<Longrightarrow> word_at F k' = word_at F k \<Longrightarrow> in_wait F k' = in_wait F k \<Longrightarrow> mutex_step F live (k, pcs) (k', pcs)"

inductive_cases mutex_stepE: "mutex_step F live (k, pcs) (k', pcs')"

text \<open>
  A thread holds the mutex from the end of \<open>mutex_lock\<close> until the word is 0 again.  A thread rouses if it is about to
  wake a sleeper or to set the word to 2; \<open>b\<close> says whether it is asleep.
\<close>

definition holds :: "mutex_pc \<Rightarrow> bool" where
  "holds p \<longleftrightarrow> p = Holding \<or> p = Unlock_store"

definition rouses :: "mutex_pc \<Rightarrow> bool \<Rightarrow> bool" where
  "rouses p b \<longleftrightarrow> p = Unlock_store \<or> p = Unlock_wake \<or> p = Lock_exchange \<or> p = Lock_blocked \<and> \<not> b"

definition holders :: "mutex_pc list \<Rightarrow> nat set" where
  "holders pcs = {i. i < length pcs \<and> holds (pcs ! i)}"

definition sleepers :: "bool list \<Rightarrow> nat set" where
  "sleepers a = {i. i < length a \<and> a ! i}"

definition rousers :: "bool list \<Rightarrow> mutex_pc list \<Rightarrow> nat set" where
  "rousers a pcs = {i. i < length pcs \<and> rouses (pcs ! i) (a ! i)}"

definition lock_inv :: "bool list \<Rightarrow> u32 \<Rightarrow> mutex_pc list \<Rightarrow> bool" where
  "lock_inv a v pcs \<longleftrightarrow> length pcs = length a \<and> v \<in> {0, 1, 2} \<and> (\<forall>i \<in> holders pcs. \<forall>j \<in> holders pcs. i = j) \<and> (v = 0 \<longleftrightarrow> holders pcs = {}) \<and>
     (\<forall>i \<in> sleepers a. pcs ! i = Lock_blocked) \<and> (sleepers a \<noteq> {} \<longrightarrow> v = 2 \<or> rousers a pcs \<noteq> {})"

lemma holders_update [simp]: "i < length pcs \<Longrightarrow> holders (pcs[i := p]) = (if holds p then insert i (holders pcs) else holders pcs - {i})"
  by (auto simp: holders_def nth_list_update)

lemma rousers_update [simp]: "i < length pcs \<Longrightarrow> rousers a (pcs[i := p]) = (if rouses p (a ! i) then insert i (rousers a pcs) else rousers a pcs - {i})"
  by (auto simp: rousers_def nth_list_update)

lemma sleepers_update [simp]: "i < length a \<Longrightarrow> sleepers (a[i := b]) = (if b then insert i (sleepers a) else sleepers a - {i})"
  by (auto simp: sleepers_def nth_list_update)

lemma pc_simps [simp]:
  "holds Holding" "holds Unlock_store" "\<not> holds Outside" "\<not> holds Lock_cas" "\<not> holds Lock_exchange" "\<not> holds Lock_wait" "\<not> holds Lock_blocked" "\<not> holds Unlock_wake"
  "rouses Unlock_store b" "rouses Unlock_wake b" "rouses Lock_exchange b" "rouses Lock_blocked b = (\<not> b)"
  "\<not> rouses Outside b" "\<not> rouses Lock_cas b" "\<not> rouses Lock_wait b" "\<not> rouses Holding b"
  by (auto simp: holds_def rouses_def)

lemma in_holders: "i < length pcs \<Longrightarrow> i \<in> holders pcs \<longleftrightarrow> holds (pcs ! i)"
  by (simp add: holders_def)

lemma in_rousers: "i < length pcs \<Longrightarrow> i \<in> rousers a pcs \<longleftrightarrow> rouses (pcs ! i) (a ! i)"
  by (simp add: rousers_def)

text \<open>A thread that does not hold, sleep or rouse, before and after a step that keeps the word.\<close>

lemma lock_inv_move:
  assumes "lock_inv a v pcs" and "i < length pcs" and "holds (pcs ! i) = holds p" and "\<not> rouses (pcs ! i) (a ! i) \<or> rouses p (a ! i)" and "\<not> a ! i"
  shows "lock_inv a v (pcs[i := p])"
proof -
  have "holders (pcs[i := p]) = holders pcs"
    using assms(2, 3) in_holders [of i pcs] by auto
  moreover have "rousers a (pcs[i := p]) \<noteq> {}" if "rousers a pcs \<noteq> {}"
    using that assms(2, 4) in_rousers [of i pcs a] by auto
  moreover have "pcs[i := p] ! j = Lock_blocked" if "j \<in> sleepers a" for j
    using that assms(1, 2, 5) by (auto simp: lock_inv_def nth_list_update sleepers_def)
  ultimately show ?thesis
    using assms(1) by (simp add: lock_inv_def del: holders_update rousers_update) blast
qed

lemma lock_inv_awake: "lock_inv a v pcs \<Longrightarrow> i < length pcs \<Longrightarrow> pcs ! i \<noteq> Lock_blocked \<Longrightarrow> \<not> a ! i"
  by (auto simp: lock_inv_def sleepers_def)

lemma lock_inv_rouse: "lock_inv a v pcs \<Longrightarrow> sleepers a \<noteq> {} \<Longrightarrow> v = 2 \<or> rousers a pcs \<noteq> {}"
  by (simp add: lock_inv_def)

lemma lock_inv_holder:
  assumes "lock_inv a v pcs" and "i < length pcs" and "holds (pcs ! i)"
  shows "holders pcs = {i}" "v = 1 \<or> v = 2"
proof -
  have "\<forall>x \<in> holders pcs. \<forall>y \<in> holders pcs. x = y" "v = 0 \<longleftrightarrow> holders pcs = {}" "v \<in> {0, 1, 2}"
    using assms(1) unfolding lock_inv_def by blast+
  moreover have "i \<in> holders pcs"
    using assms(2, 3) by (simp add: in_holders)
  ultimately show "holders pcs = {i}" "v = 1 \<or> v = 2"
    by blast+
qed

text \<open>A step that changes the word.\<close>

lemma lock_inv_word:
  assumes "lock_inv a v pcs" and "i < length pcs" and "\<not> a ! i" and "v' \<in> {0, 1, 2}" and "holders (pcs[i := p]) \<subseteq> {h}" and "v' = 0 \<longleftrightarrow> holders (pcs[i := p]) = {}"
    and "sleepers a \<noteq> {} \<Longrightarrow> v' = 2 \<or> rousers a (pcs[i := p]) \<noteq> {}"
  shows "lock_inv a v' (pcs[i := p])"
proof -
  have "pcs[i := p] ! j = Lock_blocked" if "j \<in> sleepers a" for j
    using that assms(1-3) by (auto simp: lock_inv_def nth_list_update sleepers_def)
  moreover have "\<forall>x \<in> holders (pcs[i := p]). \<forall>y \<in> holders (pcs[i := p]). x = y"
    using assms(5) by blast
  ultimately show ?thesis
    using assms(1, 4, 6, 7) by (simp add: lock_inv_def del: holders_update rousers_update)
qed

lemma lock_inv_cas:
  assumes "lock_inv a 0 pcs" and "i < length pcs" and "pcs ! i = Lock_cas"
  shows "lock_inv a 1 (pcs[i := Holding])"
proof (rule lock_inv_word [OF assms(1, 2), where h = i])
  have "i \<notin> rousers a pcs"
    using assms by (simp add: in_rousers)
  then show "1 = (2 :: u32) \<or> rousers a (pcs[i := Holding]) \<noteq> {}" if "sleepers a \<noteq> {}"
    using that assms by (auto simp: lock_inv_def)
qed (use assms lock_inv_awake [OF assms(1, 2)] in \<open>auto simp: lock_inv_def\<close>)

lemma lock_inv_exchange:
  assumes "lock_inv a v pcs" and "i < length pcs" and "pcs ! i = Lock_exchange"
  shows "lock_inv a 2 (pcs[i := if v \<noteq> 0 then Lock_wait else Holding])"
proof -
  have "i \<notin> holders pcs" "\<not> a ! i"
    using assms lock_inv_awake [OF assms(1, 2)] by (auto simp: in_holders)
  moreover obtain h where "holders pcs \<subseteq> {h}" "v = 0 \<Longrightarrow> holders pcs = {}" "v \<noteq> 0 \<Longrightarrow> holders pcs \<noteq> {}"
    using assms(1) by (cases "holders pcs = {}") (auto simp: lock_inv_def)
  ultimately show ?thesis
    using assms by (intro lock_inv_word [OF assms(1, 2), where h = "if v = 0 then i else h"]) auto
qed

lemma lock_inv_sleep:
  assumes "lock_inv a 2 pcs" and "i < length pcs" and "pcs ! i = Lock_wait"
  shows "lock_inv (a[i := True]) 2 (pcs[i := Lock_blocked])"
proof -
  have "i \<notin> holders pcs" "i < length a"
    using assms by (auto simp: in_holders lock_inv_def)
  then show ?thesis
    using assms by (auto simp: lock_inv_def nth_list_update)
qed

lemma lock_inv_unlock:
  assumes "lock_inv a v pcs" and "i < length pcs" and "pcs ! i = Holding"
  shows "lock_inv a (v - 1) (pcs[i := if v \<noteq> 1 then Unlock_store else Outside])"
proof -
  have h: "holders pcs = {i}" and v: "v = 1 \<or> v = 2"
    using lock_inv_holder [OF assms(1, 2)] assms(3) by simp_all
  have r: "i \<notin> rousers a pcs" "\<not> a ! i"
    using assms lock_inv_awake [OF assms(1, 2)] by (auto simp: in_rousers)
  show ?thesis
  proof (rule lock_inv_word [OF assms(1, 2), where h = i])
    show "v - 1 = 2 \<or> rousers a (pcs[i := if v \<noteq> 1 then Unlock_store else Outside]) \<noteq> {}" if "sleepers a \<noteq> {}"
      using lock_inv_rouse [OF assms(1) that] assms(2) r(1) v by auto
  qed (use v h r assms(2) in auto)
qed

lemma lock_inv_store:
  assumes "lock_inv a v pcs" and "i < length pcs" and "pcs ! i = Unlock_store"
  shows "lock_inv a 0 (pcs[i := Unlock_wake])"
proof -
  have "holders pcs = {i}" "\<not> a ! i"
    using lock_inv_holder(1) [OF assms(1, 2)] assms(3) lock_inv_awake [OF assms(1, 2)] by simp_all
  then show ?thesis
    using assms by (intro lock_inv_word [OF assms(1, 2), where h = i]) auto
qed

lemma lock_inv_wake:
  assumes "lock_inv a v pcs" and "i < length pcs" and "pcs ! i = Unlock_wake"
  shows "lock_inv (wake_first (\<lambda>b. b) (\<lambda>_. False) a) v (pcs[i := Outside])"
proof -
  have i: "i \<notin> holders pcs" "\<not> a ! i"
    using assms lock_inv_awake [OF assms(1, 2)] by (auto simp: in_holders)
  show ?thesis
  proof (cases "sleepers a = {}")
    case True
    then have "wake_first (\<lambda>b. b) (\<lambda>_. False) a = a"
      by (auto simp: sleepers_def in_set_conv_nth intro!: wake_first_none)
    then show ?thesis
      using True assms(1, 2) i by (auto simp: lock_inv_def)
  next
    case False
    then obtain j0 where "j0 < length a" "a ! j0"
      by (auto simp: sleepers_def)
    then obtain j where j: "j < length a" "a ! j" "wake_first (\<lambda>b. b) (\<lambda>_. False) a = a[j := False]"
      by (rule wake_first_some [where P = "\<lambda>b. b" and f = "\<lambda>_. False"]) auto
    have len: "length pcs = length a" and blocked: "pcs ! x = Lock_blocked" if "x \<in> sleepers a" for x
      using assms(1) that by (auto simp: lock_inv_def)
    have "pcs ! j = Lock_blocked" "j < length pcs" "j \<noteq> i"
      using j assms blocked [of j] len [of j] by (auto simp: sleepers_def)
    then have "j \<in> rousers (a[j := False]) (pcs[i := Outside])"
      using j(1) by (simp add: in_rousers)
    then have "rousers (a[j := False]) (pcs[i := Outside]) \<noteq> {}"
      by blast
    moreover have "pcs[i := Outside] ! x = Lock_blocked" if "x \<in> sleepers (a[j := False])" for x
      using that j(1) blocked [of x] i(2) assms(2) by (cases "x = i") (auto simp: sleepers_def nth_list_update split: if_splits)
    ultimately show ?thesis
      using assms(1, 2) i(1) unfolding j(3) by (simp add: lock_inv_def del: rousers_update) blast
  qed
qed

text \<open>The contract of the kernel, and the lock on it.\<close>

locale futex =
  fixes F :: "'k futex_ops" and live :: "'k \<Rightarrow> bool"
  assumes word_law: "live k \<Longrightarrow> \<exists>v. word_at F k = Some v"
    and set_law: "live k \<Longrightarrow> \<exists>k'. set_word F k v = Some k' \<and> live k' \<and> word_at F k' = Some v \<and> in_wait F k' = in_wait F k"
    and wait_law: "live k \<Longrightarrow> caller F k < length (in_wait F k) \<Longrightarrow>
      (if word_at F k = Some v then \<exists>k'. wait_call F k v = Some (k', True) \<and> live k' \<and> word_at F k' = word_at F k \<and> in_wait F k' = (in_wait F k)[caller F k := True]
       else wait_call F k v = Some (k, False))"
    and wake_law: "live k \<Longrightarrow> live (wake_call F k) \<and> word_at F (wake_call F k) = word_at F k \<and>
      in_wait F (wake_call F k) = wake_first (\<lambda>b. b) (\<lambda>_. False) (in_wait F k)"
begin

definition mutex_inv :: "'k \<times> mutex_pc list \<Rightarrow> bool" where
  "mutex_inv = (\<lambda>(k, pcs). live k \<and> (\<exists>v. word_at F k = Some v \<and> lock_inv (in_wait F k) v pcs))"

lemma mutex_invI: "live k \<Longrightarrow> word_at F k = Some v \<Longrightarrow> lock_inv (in_wait F k) v pcs \<Longrightarrow> mutex_inv (k, pcs)"
  by (simp add: mutex_inv_def)

lemma set_word_cases:
  assumes "live k" and "set_word F k v = Some k'"
  shows "live k'" "word_at F k' = Some v" "in_wait F k' = in_wait F k"
  using set_law [OF assms(1), of v] assms(2) by auto

lemma mutex_inv_set:
  assumes "live k" and "set_word F k v = Some k'" and "lock_inv (in_wait F k) v pcs"
  shows "mutex_inv (k', pcs)"
  using set_word_cases [OF assms(1, 2)] assms(3) by (auto intro: mutex_invI)

lemma mutex_inv_step:
  assumes "mutex_step F live s t" and "mutex_inv s"
  shows "mutex_inv t"
  using assms
proof cases
  case (lock_call i pcs k)
  then show ?thesis
    using assms(2) lock_inv_awake by (auto simp: mutex_inv_def intro!: lock_inv_move)
next
  case (lock_cas i pcs k k')
  then have "lock_inv (in_wait F k) 1 (pcs[i := Holding])"
    using assms(2) by (auto simp: mutex_inv_def intro: lock_inv_cas)
  then show ?thesis
    using lock_cas assms(2) mutex_inv_set by (auto simp: mutex_inv_def)
next
  case (lock_cas_fails i pcs k c)
  then show ?thesis
    using assms(2) lock_inv_awake by (auto simp: mutex_inv_def intro!: lock_inv_move)
next
  case (lock_exchange i pcs k c k')
  then have "lock_inv (in_wait F k) 2 (pcs[i := if c \<noteq> 0 then Lock_wait else Holding])"
    using lock_inv_exchange [of "in_wait F k" c pcs i] assms(2) by (simp only: mutex_inv_def) auto
  then show ?thesis
    using lock_exchange assms(2) mutex_inv_set [OF _ lock_exchange(6)] by (simp add: mutex_inv_def)
next
  case (lock_wait i pcs k k' blocks)
  then obtain v where v: "live k" "word_at F k = Some v" "lock_inv (in_wait F k) v pcs"
    using assms(2) by (auto simp: mutex_inv_def)
  have i: "caller F k < length (in_wait F k)"
    using lock_wait v(3) by (auto simp: lock_inv_def)
  show ?thesis
  proof (cases "v = 2")
    case True
    then have "blocks" "live k'" "word_at F k' = Some 2" "in_wait F k' = (in_wait F k)[i := True]"
      using wait_law [OF v(1) i, of 2] lock_wait v(2) by auto
    then show ?thesis
      using lock_inv_sleep [of "in_wait F k" pcs i] lock_wait v True by (auto intro: mutex_invI)
  next
    case False
    then have "\<not> blocks" "k' = k"
      using wait_law [OF v(1) i, of 2] lock_wait v(2) by auto
    then show ?thesis
      using lock_wait v lock_inv_awake [OF v(3)] by (auto intro!: mutex_invI lock_inv_move)
  qed
next
  case (lock_resume i pcs k)
  then show ?thesis
    using assms(2) by (auto simp: mutex_inv_def intro!: lock_inv_move)
next
  case (unlock i pcs k c k')
  then have "lock_inv (in_wait F k) (c - 1) (pcs[i := if c \<noteq> 1 then Unlock_store else Outside])"
    using lock_inv_unlock [of "in_wait F k" c pcs i] assms(2) by (simp only: mutex_inv_def) auto
  then show ?thesis
    using unlock assms(2) mutex_inv_set [OF _ unlock(6)] by (simp add: mutex_inv_def)
next
  case (unlock_store i pcs k k')
  then have "lock_inv (in_wait F k) 0 (pcs[i := Unlock_wake])"
    using assms(2) by (auto simp: mutex_inv_def intro: lock_inv_store)
  then show ?thesis
    using unlock_store assms(2) mutex_inv_set by (auto simp: mutex_inv_def)
next
  case (unlock_wake i pcs k)
  then show ?thesis
    using assms(2) wake_law [of k] by (auto simp: mutex_inv_def intro!: lock_inv_wake)
next
  case (elsewhere k' k pcs)
  then show ?thesis
    using assms(2) by (auto simp: mutex_inv_def)
qed

end

section \<open>On the kernel\<close>

text \<open>The calls of the kernel on the word at address \<open>u\<close> of the address space that the threads share.\<close>

definition kernel_futex :: "u64 \<Rightarrow> 'a kernel_scheme futex_ops" where
  "kernel_futex u = \<lparr>word_at = (\<lambda>k. vld32 (mem k) u), set_word = (\<lambda>k v. map_option (\<lambda>m. k\<lparr>mem := m\<rparr>) (vst32 (mem k) u v)),
     in_wait = (\<lambda>k. map (\<lambda>p. wait_channel p = u) (process_table k)), caller = current_proc_idx,
     wait_call = (\<lambda>k v. map_option (\<lambda>(k, r). (k, r = None)) (futex_wait k u v)), wake_call = (\<lambda>k. fst (futex_wake k u 1))\<rparr>"

text \<open>The four bytes of the word are mapped to memory that is not part of the page tables that map them.\<close>

definition word_mapped :: "u64 \<Rightarrow> mm \<Rightarrow> bool" where
  "word_mapped u m \<longleftrightarrow> (\<exists>p0 p1 p2 p3. distinct [p0, p1, p2, p3] \<and>
     (\<forall>b0 b1 b2 b3. let m' = m\<lparr>ram := (ram m)(p0 := b0, p1 := b1, p2 := b2, p3 := b3)\<rparr> in
        vphys m' u = Some p0 \<and> vphys m' (u + 1) = Some p1 \<and> vphys m' (u + 2) = Some p2 \<and> vphys m' (u + 3) = Some p3))"

text \<open>Every process that waits on the word is marked as sleeping, and a live process runs.\<close>

definition futex_live :: "u64 \<Rightarrow> 'a kernel_scheme \<Rightarrow> bool" where
  "futex_live u k \<longleftrightarrow> u \<noteq> 0 \<and> word_mapped u (mem k) \<and> current_proc_idx k < length (process_table k) \<and> active (proc k (current_proc_idx k)) \<and>
     (\<forall>p \<in> set (process_table k). wait_channel p = u \<longrightarrow> waits_on u p)"

lemma word_mapped_access:
  assumes "word_mapped u m"
  shows "\<exists>v. vld32 m u = Some v" "\<exists>m'. vst32 m u v = Some m' \<and> word_mapped u m' \<and> vld32 m' u = Some v"
proof -
  obtain p0 p1 p2 p3 where d: "distinct [p0, p1, p2, p3]"
    and p: "\<And>b0 b1 b2 b3 m'. m' = m\<lparr>ram := (ram m)(p0 := b0, p1 := b1, p2 := b2, p3 := b3)\<rparr> \<Longrightarrow>
      vphys m' u = Some p0 \<and> vphys m' (u + 1) = Some p1 \<and> vphys m' (u + 2) = Some p2 \<and> vphys m' (u + 3) = Some p3"
    using assms by (auto simp: word_mapped_def Let_def)
  have now: "vphys m u = Some p0" "vphys m (u + 1) = Some p1" "vphys m (u + 2) = Some p2" "vphys m (u + 3) = Some p3"
    using p [of m "ram m p0" "ram m p1" "ram m p2" "ram m p3"] by simp_all
  then show "\<exists>v. vld32 m u = Some v"
    by (simp add: vld32_def)
  define m' where "m' = m\<lparr>ram := (ram m)(p0 := ucast v, p1 := ucast (drop_bit 8 v), p2 := ucast (drop_bit 16 v), p3 := ucast (drop_bit 24 v))\<rparr>"
  have st: "vst32 m u v = Some m'"
    using now by (simp add: vst32_def m'_def)
  have over: "m'\<lparr>ram := (ram m')(p0 := b0, p1 := b1, p2 := b2, p3 := b3)\<rparr> = m\<lparr>ram := (ram m)(p0 := b0, p1 := b1, p2 := b2, p3 := b3)\<rparr>" for b0 b1 b2 b3
    by (auto simp: m'_def fun_eq_iff)
  have "word_mapped u m'"
    unfolding word_mapped_def
  proof (rule exI [of _ p0], rule exI [of _ p1], rule exI [of _ p2], rule exI [of _ p3], intro conjI d allI)
    fix b0 b1 b2 b3
    show "let m'' = m'\<lparr>ram := (ram m')(p0 := b0, p1 := b1, p2 := b2, p3 := b3)\<rparr> in
        vphys m'' u = Some p0 \<and> vphys m'' (u + 1) = Some p1 \<and> vphys m'' (u + 2) = Some p2 \<and> vphys m'' (u + 3) = Some p3"
      unfolding Let_def over using p [OF refl] .
  qed
  moreover have "vld32 m' u = Some v"
  proof -
    have "vphys m' u = Some p0" "vphys m' (u + 1) = Some p1" "vphys m' (u + 2) = Some p2" "vphys m' (u + 3) = Some p3"
      using p [OF m'_def] by simp_all
    moreover have "get32 (put32 v) 0 = v"
      using get32_put32 [of "[]" 0 v "[]"] by simp
    ultimately show ?thesis
      using d by (simp add: vld32_def m'_def get32_def put32_def)
  qed
  ultimately show "\<exists>m'. vst32 m u v = Some m' \<and> word_mapped u m' \<and> vld32 m' u = Some v"
    using st by blast
qed

lemma futex_wake_table:
  assumes "u \<noteq> 0"
  shows "process_table (fst (futex_wake k u 1)) = wake_first (waits_on u) woken (process_table k)"
proof -
  have "fst (wake_loop u 1 0 ps) = wake_first (waits_on u) woken ps" for ps
    by (induction ps) (simp_all add: wake_loop_Cons del: wake_loop.simps(2))
  then show ?thesis
    using assms by (auto simp: futex_wake_def split: prod.splits) (metis fst_conv)
qed

lemma map_wake_first:
  "(\<And>p. p \<in> set ps \<Longrightarrow> P p = Q (g p)) \<Longrightarrow> (\<And>p. P p \<Longrightarrow> g (f p) = h (g p)) \<Longrightarrow> map g (wake_first P f ps) = wake_first Q h (map g ps)"
  by (induction ps) auto

lemma set_wake_first: "p \<in> set (wake_first P f ps) \<Longrightarrow> p \<in> set ps \<or> (\<exists>q \<in> set ps. P q \<and> p = f q)"
  by (induction ps) (auto split: if_splits)

interpretation kf: futex "kernel_futex u" "futex_live u" for u
proof
  fix k :: "'a kernel_scheme" and v :: u32
  assume l: "futex_live u k"
  note wm = word_mapped_access [of u "mem k"]
  show "\<exists>v. word_at (kernel_futex u) k = Some v"
    using wm(1) l by (simp add: kernel_futex_def futex_live_def)
  show "\<exists>k'. set_word (kernel_futex u) k v = Some k' \<and> futex_live u k' \<and> word_at (kernel_futex u) k' = Some v \<and> in_wait (kernel_futex u) k' = in_wait (kernel_futex u) k"
    using wm(2) [of v] l by (auto simp: kernel_futex_def futex_live_def)
  show "if word_at (kernel_futex u) k = Some v
      then \<exists>k'. wait_call (kernel_futex u) k v = Some (k', True) \<and> futex_live u k' \<and> word_at (kernel_futex u) k' = word_at (kernel_futex u) k \<and>
        in_wait (kernel_futex u) k' = (in_wait (kernel_futex u) k)[caller (kernel_futex u) k := True]
      else wait_call (kernel_futex u) k v = Some (k, False)"
  proof -
    obtain x where x: "vld32 (mem k) u = Some x"
      using wm(1) l by (auto simp: futex_live_def)
    define p' where "p' = (proc k (current_proc_idx k))\<lparr>wait_channel := u, pstate := SLEEPING\<rparr>"
    have p': "waits_on u p'" "active p'" "wait_channel p' = u"
      using l by (simp_all add: p'_def futex_live_def waits_on_def)
    have "\<forall>p \<in> set ((process_table k)[current_proc_idx k := p']). wait_channel p = u \<longrightarrow> waits_on u p"
      using l p'(1) set_update_subset_insert [of "process_table k" "current_proc_idx k" p'] by (auto simp: futex_live_def)
    then have "futex_live u (set_proc (current_proc_idx k) p' k)"
      using l p'(2) by (simp add: futex_live_def set_proc_def)
    then show ?thesis
      using l x p'(3) by (auto simp: kernel_futex_def futex_wait_def futex_live_def Let_def set_proc_def map_update p'_def [symmetric])
  qed
  have u: "u \<noteq> 0" and sl: "\<And>p. p \<in> set (process_table k) \<Longrightarrow> waits_on u p = (wait_channel p = u)"
    using l by (auto simp: futex_live_def waits_on_def)
  have keep: "mem (fst (futex_wake k u 1)) = mem k" "current_proc_idx (fst (futex_wake k u 1)) = current_proc_idx k"
    by (simp_all add: futex_wake_def split: prod.splits)
  have act: "active (wake_first (waits_on u) woken ps ! i) = active (ps ! i)" if "i < length ps" for i ps
    using that by (simp add: wake_first_nth woken_def)
  have "map (\<lambda>p. wait_channel p = u) (wake_first (waits_on u) woken (process_table k)) = wake_first (\<lambda>b. b) (\<lambda>_. False) (map (\<lambda>p. wait_channel p = u) (process_table k))"
    using sl u by (intro map_wake_first) (auto simp: woken_def)
  moreover have "\<forall>p \<in> set (wake_first (waits_on u) woken (process_table k)). wait_channel p = u \<longrightarrow> waits_on u p"
    using sl u by (auto dest!: set_wake_first simp: woken_def)
  ultimately show "futex_live u (wake_call (kernel_futex u) k) \<and> word_at (kernel_futex u) (wake_call (kernel_futex u) k) = word_at (kernel_futex u) k \<and>
      in_wait (kernel_futex u) (wake_call (kernel_futex u) k) = wake_first (\<lambda>b. b) (\<lambda>_. False) (in_wait (kernel_futex u) k)"
    using l keep act by (simp add: kernel_futex_def futex_live_def futex_wake_table [OF u])
qed

section \<open>Spin lock\<close>

text \<open>The lock byte, and per thread whether it is outside, in the loop or inside.\<close>

datatype spin_pc = Spin_outside | Spin_trying | Spin_inside

inductive spin_step :: "bool \<times> spin_pc list \<Rightarrow> bool \<times> spin_pc list \<Rightarrow> bool" where
  spin_call: "i < length pcs \<Longrightarrow> pcs ! i = Spin_outside \<Longrightarrow> spin_step (l, pcs) (l, pcs[i := Spin_trying])"
| spin_test_and_set: "i < length pcs \<Longrightarrow> pcs ! i = Spin_trying \<Longrightarrow> spin_step (l, pcs) (True, pcs[i := if l then Spin_trying else Spin_inside])"
| spin_clear: "i < length pcs \<Longrightarrow> pcs ! i = Spin_inside \<Longrightarrow> spin_step (l, pcs) (False, pcs[i := Spin_outside])"

definition spin_init :: "nat \<Rightarrow> bool \<times> spin_pc list" where
  "spin_init n = (False, replicate n Spin_outside)"

text \<open>How many threads are at a point.\<close>

definition tally :: "('a \<Rightarrow> bool) \<Rightarrow> 'a list \<Rightarrow> int" where
  "tally P xs = int (length (filter P xs))"

lemma tally_update:
  assumes "i < length xs"
  shows "tally P (xs[i := x]) = tally P xs - of_bool (P (xs ! i)) + of_bool (P x)"
  using assms
proof (induction xs arbitrary: i)
  case (Cons y ys)
  then show ?case
    by (cases i) (auto simp: tally_def)
qed simp

lemma tally_pos: "i < length xs \<Longrightarrow> P (xs ! i) \<Longrightarrow> 1 \<le> tally P xs"
  by (auto simp: tally_def Suc_le_eq filter_empty_conv intro: nth_mem)

lemma tally_zero: "tally P xs = 0 \<longleftrightarrow> (\<forall>i < length xs. \<not> P (xs ! i))"
  by (auto simp: tally_def filter_empty_conv all_set_conv_all_nth)

lemma tally_two:
  assumes "i < length xs" and "j < length xs" and "P (xs ! i)" and "P (xs ! j)" and "tally P xs \<le> 1"
  shows "i = j"
proof (rule ccontr)
  assume "i \<noteq> j"
  define ys where "ys = map P xs"
  have t: "tally (\<lambda>b. b) ys = tally P xs"
    by (simp add: tally_def ys_def filter_map o_def)
  have "tally (\<lambda>b. b) (ys[i := False]) = tally P xs - 1"
    using assms(1, 3) by (simp add: tally_update ys_def flip: t)
  moreover have "1 \<le> tally (\<lambda>b. b) (ys[i := False])"
    using assms(2, 4) \<open>i \<noteq> j\<close> by (intro tally_pos [of j]) (auto simp: ys_def)
  ultimately show False
    using assms(5) by simp
qed

definition spin_inv :: "bool \<times> spin_pc list \<Rightarrow> bool" where
  "spin_inv = (\<lambda>(l, pcs). tally (\<lambda>p. p = Spin_inside) pcs = of_bool l)"

lemma spin_inv_step: "spin_step s t \<Longrightarrow> spin_inv s \<Longrightarrow> spin_inv t"
proof (induction rule: spin_step.induct)
  case (spin_clear i pcs l)
  then show ?case
    using tally_pos [of i pcs "\<lambda>p. p = Spin_inside"] by (cases l) (simp_all add: spin_inv_def tally_update)
qed (simp_all add: spin_inv_def tally_update)

lemma spin_reach: "spin_step\<^sup>*\<^sup>* (spin_init n) s \<Longrightarrow> spin_inv s"
proof (induction rule: rtranclp_induct)
  case base
  then show ?case
    by (simp add: spin_init_def spin_inv_def tally_def)
qed (rule spin_inv_step)

section \<open>Semaphore\<close>

text \<open>
  The semaphore on its mutex, which one thread holds at a time by the result above: \<open>sem_lock\<close> is the holder.  The
  increment and decrement of the counter are a load and a store.  The two last fields count the completed
  posts and waits.
\<close>

record sem_sys =
  sem_count :: int
  sem_lock :: "nat option"
  posted :: int
  taken :: int

datatype sem_pc = Sem_outside | Wait_lock | Wait_test | Wait_store int | Wait_done | Wait_unlock | Wait_futex | Wait_asleep
  | Post_lock | Post_load | Post_store int | Post_unlock | Post_wake

inductive sem_step :: "sem_sys \<times> sem_pc list \<Rightarrow> sem_sys \<times> sem_pc list \<Rightarrow> bool" where
  wait_call: "i < length pcs \<Longrightarrow> pcs ! i = Sem_outside \<Longrightarrow> sem_step (s, pcs) (s, pcs[i := Wait_lock])"
| wait_lock: "i < length pcs \<Longrightarrow> pcs ! i = Wait_lock \<Longrightarrow> sem_lock s = None \<Longrightarrow> sem_step (s, pcs) (s\<lparr>sem_lock := Some i\<rparr>, pcs[i := Wait_test])"
| wait_test: "i < length pcs \<Longrightarrow> pcs ! i = Wait_test \<Longrightarrow>
    sem_step (s, pcs) (s, pcs[i := if 0 < sem_count s then Wait_store (sem_count s - 1) else Wait_unlock])"
| wait_store: "i < length pcs \<Longrightarrow> pcs ! i = Wait_store v \<Longrightarrow> sem_step (s, pcs) (s\<lparr>sem_count := v, taken := taken s + 1\<rparr>, pcs[i := Wait_done])"
| wait_done: "i < length pcs \<Longrightarrow> pcs ! i = Wait_done \<Longrightarrow> sem_step (s, pcs) (s\<lparr>sem_lock := None\<rparr>, pcs[i := Sem_outside])"
| wait_unlock: "i < length pcs \<Longrightarrow> pcs ! i = Wait_unlock \<Longrightarrow> sem_step (s, pcs) (s\<lparr>sem_lock := None\<rparr>, pcs[i := Wait_futex])"
| wait_futex: "i < length pcs \<Longrightarrow> pcs ! i = Wait_futex \<Longrightarrow> sem_step (s, pcs) (s, pcs[i := if sem_count s = 0 then Wait_asleep else Wait_lock])"
| post_call: "i < length pcs \<Longrightarrow> pcs ! i = Sem_outside \<Longrightarrow> sem_step (s, pcs) (s, pcs[i := Post_lock])"
| post_lock: "i < length pcs \<Longrightarrow> pcs ! i = Post_lock \<Longrightarrow> sem_lock s = None \<Longrightarrow> sem_step (s, pcs) (s\<lparr>sem_lock := Some i\<rparr>, pcs[i := Post_load])"
| post_load: "i < length pcs \<Longrightarrow> pcs ! i = Post_load \<Longrightarrow> sem_step (s, pcs) (s, pcs[i := Post_store (sem_count s + 1)])"
| post_store: "i < length pcs \<Longrightarrow> pcs ! i = Post_store v \<Longrightarrow> sem_step (s, pcs) (s\<lparr>sem_count := v, posted := posted s + 1\<rparr>, pcs[i := Post_unlock])"
| post_unlock: "i < length pcs \<Longrightarrow> pcs ! i = Post_unlock \<Longrightarrow> sem_step (s, pcs) (s\<lparr>sem_lock := None\<rparr>, pcs[i := Post_wake])"
| post_wake: "i < length pcs \<Longrightarrow> pcs ! i = Post_wake \<Longrightarrow>
    sem_step (s, pcs) (s, (wake_first (\<lambda>p. p = Wait_asleep) (\<lambda>_. Wait_lock) pcs)[i := Sem_outside])"

definition sem_init :: "int \<Rightarrow> nat \<Rightarrow> sem_sys \<times> sem_pc list" where
  "sem_init v n = (\<lparr>sem_count = v, sem_lock = None, posted = 0, taken = 0\<rparr>, replicate n Sem_outside)"

text \<open>The points inside the lock, and those from which a thread takes a unit, goes to sleep on 0 or wakes a sleeper.\<close>

fun in_lock :: "sem_pc \<Rightarrow> bool" where
  "in_lock Wait_test = True" | "in_lock (Wait_store v) = True" | "in_lock Wait_done = True" | "in_lock Wait_unlock = True"
| "in_lock Post_load = True" | "in_lock (Post_store v) = True" | "in_lock Post_unlock = True" | "in_lock p = False"

fun on_the_way :: "sem_pc \<Rightarrow> bool" where
  "on_the_way Wait_lock = True" | "on_the_way Wait_test = True" | "on_the_way (Wait_store v) = True" | "on_the_way Wait_unlock = True"
| "on_the_way Wait_futex = True" | "on_the_way Post_unlock = True" | "on_the_way Post_wake = True" | "on_the_way p = False"

abbreviation sleeping :: "sem_pc \<Rightarrow> bool" where
  "sleeping p \<equiv> p = Wait_asleep"

text \<open>The invariant in parts: exclusion, the values about to be stored, the number of units, and the sleepers.\<close>

definition sem_excl :: "sem_sys \<Rightarrow> sem_pc list \<Rightarrow> bool" where
  "sem_excl s pcs \<longleftrightarrow> (\<forall>i < length pcs. in_lock (pcs ! i) \<longrightarrow> sem_lock s = Some i)"

fun store_ok :: "int \<Rightarrow> sem_pc \<Rightarrow> bool" where
  "store_ok c (Wait_store v) \<longleftrightarrow> c = v + 1 \<and> 0 \<le> v"
| "store_ok c (Post_store v) \<longleftrightarrow> c = v - 1"
| "store_ok c p \<longleftrightarrow> True"

definition sem_inv :: "int \<Rightarrow> sem_sys \<times> sem_pc list \<Rightarrow> bool" where
  "sem_inv v0 = (\<lambda>(s, pcs). sem_excl s pcs \<and> (\<forall>i < length pcs. store_ok (sem_count s) (pcs ! i)) \<and>
     sem_count s = v0 + posted s - taken s \<and> 0 \<le> sem_count s \<and> (0 < tally sleeping pcs \<longrightarrow> sem_count s \<le> tally on_the_way pcs))"

lemma not_in_lock: "\<not> in_lock p \<Longrightarrow> store_ok c p"
  by (cases p) auto

text \<open>A thread inside the lock is the only one there, so that no other one is about to store.\<close>

lemma sem_excl_other:
  assumes "sem_excl s pcs" and "i < length pcs" and "in_lock (pcs ! i)" and "j < length pcs" and "j \<noteq> i"
  shows "\<not> in_lock (pcs ! j)"
  using assms unfolding sem_excl_def by (metis option.inject)

lemma sem_excl_free:
  assumes "sem_excl s pcs" and "sem_lock s = None" and "j < length pcs"
  shows "\<not> in_lock (pcs ! j)"
  using assms by (auto simp: sem_excl_def)

lemma sem_inv_other: "sem_inv v0 (s, pcs) \<Longrightarrow> i < length pcs \<Longrightarrow> in_lock (pcs ! i) \<Longrightarrow> j < length pcs \<Longrightarrow> j \<noteq> i \<Longrightarrow> \<not> in_lock (pcs ! j)"
  using sem_excl_other [of s pcs i j] by (simp add: sem_inv_def)

lemma sem_inv_wake:
  assumes "sem_inv v0 (s, pcs)" and "i < length pcs" and "pcs ! i = Post_wake"
  shows "sem_inv v0 (s, (wake_first sleeping (\<lambda>_. Wait_lock) pcs)[i := Sem_outside])"
proof (cases "\<exists>j < length pcs. sleeping (pcs ! j)")
  case True
  then obtain j where j: "j < length pcs" "pcs ! j = Wait_asleep" "wake_first sleeping (\<lambda>_. Wait_lock) pcs = pcs[j := Wait_lock]"
    using wake_first_some [where P = sleeping and f = "\<lambda>_. Wait_lock"] by blast
  have "j \<noteq> i"
    using j(2) assms(3) by auto
  then have "tally on_the_way (pcs[j := Wait_lock, i := Sem_outside]) = tally on_the_way pcs" "tally sleeping (pcs[j := Wait_lock, i := Sem_outside]) = tally sleeping pcs - 1"
    using j(1, 2) assms(2, 3) by (simp_all add: tally_update)
  then show ?thesis
    using assms j by (auto simp: sem_inv_def sem_excl_def nth_list_update)
next
  case False
  then have "wake_first sleeping (\<lambda>_. Wait_lock) pcs = pcs"
    by (intro wake_first_none) (auto simp: in_set_conv_nth)
  moreover have "tally sleeping (pcs[i := Sem_outside]) = 0"
    using False assms(2) by (auto simp: tally_zero nth_list_update)
  ultimately show ?thesis
    using assms by (auto simp: sem_inv_def sem_excl_def nth_list_update)
qed

lemmas sem_simps = sem_inv_def sem_excl_def nth_list_update tally_update not_in_lock

lemma sem_inv_step: "sem_step s t \<Longrightarrow> sem_inv v0 s \<Longrightarrow> sem_inv v0 t"
proof (induction rule: sem_step.induct)
  case (wait_store i pcs v s)
  moreover have "store_ok (sem_count s) (Wait_store v)"
    using wait_store by (auto simp: sem_inv_def)
  ultimately show ?case
    using sem_inv_other [OF wait_store(3, 1)] by (auto simp: sem_simps)
next
  case (post_store i pcs v s)
  moreover have "store_ok (sem_count s) (Post_store v)"
    using post_store by (auto simp: sem_inv_def)
  ultimately show ?case
    using sem_inv_other [OF post_store(3, 1)] by (auto simp: sem_simps)
next
  case (wait_test i pcs s)
  then show ?case
    using sem_inv_other [OF wait_test(3, 1)] by (auto simp: sem_simps)
next
  case (wait_done i pcs s)
  then show ?case
    using sem_inv_other [OF wait_done(3, 1)] by (auto simp: sem_simps)
next
  case (wait_unlock i pcs s)
  then show ?case
    using sem_inv_other [OF wait_unlock(3, 1)] by (auto simp: sem_simps)
next
  case (post_load i pcs s)
  then show ?case
    using sem_inv_other [OF post_load(3, 1)] by (auto simp: sem_simps)
next
  case (post_unlock i pcs s)
  then show ?case
    using sem_inv_other [OF post_unlock(3, 1)] by (auto simp: sem_simps)
next
  case (wait_futex i pcs s)
  then show ?case
    using tally_pos [of i pcs on_the_way] by (auto simp: sem_simps)
next
  case (post_wake i pcs s)
  then show ?case
    by (rule sem_inv_wake [rotated])
qed (auto simp: sem_simps)

section \<open>Properties\<close>

text \<open>All threads are outside the lock and nobody sleeps on it.\<close>

definition mutex_start :: "u64 \<Rightarrow> 'a kernel_scheme \<Rightarrow> bool" where
  "mutex_start u k \<longleftrightarrow> futex_live u k \<and> vld32 (mem k) u = Some 0 \<and> (\<forall>p \<in> set (process_table k). wait_channel p \<noteq> u)"

abbreviation mutex_run :: "u64 \<Rightarrow> 'a kernel_scheme \<Rightarrow> 'a kernel_scheme \<times> mutex_pc list \<Rightarrow> bool" where
  "mutex_run u k0 \<equiv> (mutex_step (kernel_futex u) (futex_live u))\<^sup>*\<^sup>* (k0, replicate (length (process_table k0)) Outside)"

lemma mutex_reach:
  assumes "mutex_start u k0" and "mutex_run u k0 s"
  shows "kf.mutex_inv u s"
  using assms(2)
proof (induction rule: rtranclp_induct)
  case base
  have "holders (replicate n Outside) = {}" for n
    by (simp add: holders_def)
  moreover have "sleepers (in_wait (kernel_futex u) k0) = {}"
    using assms(1) by (auto simp: sleepers_def kernel_futex_def mutex_start_def)
  ultimately have "lock_inv (in_wait (kernel_futex u) k0) 0 (replicate (length (process_table k0)) Outside)"
    by (simp add: lock_inv_def) (simp add: kernel_futex_def)
  then show ?case
    using assms(1) by (intro kf.mutex_invI [where v = 0]) (simp_all add: mutex_start_def kernel_futex_def)
qed (rule kf.mutex_inv_step)

text \<open>
  C11: mutual exclusion.  However the atomic actions of the threads interleave, with the kernel's
  own \<open>futex_wait\<close> and \<open>futex_wake\<close>, no two threads hold a mutex at once.
\<close>

theorem mutex_exclusion:
  assumes "mutex_start u k0" and "mutex_run u k0 (k, pcs)" and "i < length pcs" and "j < length pcs" and "holds (pcs ! i)" and "holds (pcs ! j)"
  shows "i = j"
proof -
  obtain v where "lock_inv (in_wait (kernel_futex u) k) v pcs"
    using mutex_reach [OF assms(1, 2)] by (auto simp: kf.mutex_inv_def)
  then show ?thesis
    using assms(3-6) lock_inv_holder(1) [of _ v pcs i] lock_inv_holder(1) [of _ v pcs j] by auto
qed



text \<open>The spin lock is exclusive too.\<close>

lemma spin_exclusion:
  assumes "spin_step\<^sup>*\<^sup>* (spin_init n) (l, pcs)" and "i < length pcs" and "j < length pcs" and "pcs ! i = Spin_inside" and "pcs ! j = Spin_inside"
  shows "i = j"
proof -
  have "tally (\<lambda>p. p = Spin_inside) pcs \<le> 1"
    using spin_reach [OF assms(1)] by (simp add: spin_inv_def)
  then show ?thesis
    using tally_two [of i pcs j "\<lambda>p. p = Spin_inside"] assms(2-5) by simp
qed


section \<open>Examples\<close>

text \<open>A page of 2 MiB at \<open>0x200000\<close>, mapped at the same address.\<close>

definition demo_page_ram :: memory where
  "demo_page_ram x = (if x = 0x1000 then 7 else if x = 0x1001 then 0x20 else if x = 0x2000 then 7 else if x = 0x2001 then 0x30
     else if x = 0x3008 then 0x87 else if x = 0x300A then 0x20 else 0)"

definition demo_shared :: kernel where
  "demo_shared = (demo_kernel [demo_proc 1 RUNNING, demo_proc 2 READY])\<lparr>mem := mm_empty\<lparr>cr3 := 0x1000, ram := demo_page_ram\<rparr>\<rparr>"

lemma demo_vphys:
  assumes "r = demo_page_ram(0x200000 := b0, 0x200001 := b1, 0x200002 := b2, 0x200003 := b3)"
  shows "vphys (mm_empty\<lparr>cr3 := 0x1000, ram := r\<rparr>) 0x200000 = Some 0x200000" "vphys (mm_empty\<lparr>cr3 := 0x1000, ram := r\<rparr>) 0x200001 = Some 0x200001"
    "vphys (mm_empty\<lparr>cr3 := 0x1000, ram := r\<rparr>) 0x200002 = Some 0x200002" "vphys (mm_empty\<lparr>cr3 := 0x1000, ram := r\<rparr>) 0x200003 = Some 0x200003"
proof -
  have e: "ld64 r 0x1000 = 0x2007" "ld64 r 0x2000 = 0x3007" "ld64 r 0x3008 = 0x200087"
    by (simp_all add: assms ld64_def demo_page_ram_def)
  show "vphys (mm_empty\<lparr>cr3 := 0x1000, ram := r\<rparr>) 0x200000 = Some 0x200000" "vphys (mm_empty\<lparr>cr3 := 0x1000, ram := r\<rparr>) 0x200001 = Some 0x200001"
    "vphys (mm_empty\<lparr>cr3 := 0x1000, ram := r\<rparr>) 0x200002 = Some 0x200002" "vphys (mm_empty\<lparr>cr3 := 0x1000, ram := r\<rparr>) 0x200003 = Some 0x200003"
    using e by (simp_all add: vphys_def walk_def pml4_idx_def pdpt_idx_def pd_idx_def ent_def present_def PAGE_PRESENT_def huge_def pte_addr_def leaf_huge_def)
qed

lemma demo_shared_start: "mutex_start 0x200000 demo_shared"
proof -
  have "word_mapped 0x200000 (mem demo_shared)"
    unfolding word_mapped_def
  proof (rule exI [of _ "0x200000"], rule exI [of _ "0x200001"], rule exI [of _ "0x200002"], rule exI [of _ "0x200003"], intro conjI allI)
    fix b0 b1 b2 b3
    show "let m' = (mem demo_shared)\<lparr>ram := (ram (mem demo_shared))(0x200000 := b0, 0x200001 := b1, 0x200002 := b2, 0x200003 := b3)\<rparr> in
        vphys m' 0x200000 = Some 0x200000 \<and> vphys m' (0x200000 + 1) = Some 0x200001 \<and> vphys m' (0x200000 + 2) = Some 0x200002 \<and> vphys m' (0x200000 + 3) = Some 0x200003"
      using demo_vphys [OF refl, of b0 b1 b2 b3] by (simp add: demo_shared_def)
  qed simp
  moreover have "vld32 (mem demo_shared) 0x200000 = Some 0"
  proof -
    have "demo_page_ram = demo_page_ram(0x200000 := 0, 0x200001 := 0, 0x200002 := 0, 0x200003 := 0)"
      by (auto simp: demo_page_ram_def fun_eq_iff)
    from demo_vphys [OF this] show ?thesis
      by (simp add: vld32_def demo_shared_def) (simp add: demo_page_ram_def)
  qed
  ultimately show ?thesis
    by (simp add: mutex_start_def futex_live_def demo_shared_def) (auto simp: demo_proc_def process_zero_def)
qed

text \<open>Thread 0 takes the mutex, thread 1 finds it taken and goes to sleep.\<close>

lemma demo_contended:
  obtains k pcs where "mutex_run 0x200000 demo_shared (k, pcs)" "length pcs = 32" "pcs ! 0 = Holding" "futex_waiting k 1 0x200000"
proof -
  define F where "F = (kernel_futex 0x200000 :: kernel futex_ops)"
  let ?step = "mutex_step F (futex_live 0x200000)"
  define pcs :: "mutex_pc list" where "pcs = replicate 32 Outside"
  have live: "futex_live 0x200000 demo_shared" and w0: "word_at F demo_shared = Some 0"
    using demo_shared_start by (simp_all add: mutex_start_def F_def kernel_futex_def)
  have tab: "length (process_table demo_shared) = 32" "active (proc demo_shared 1)"
    by (simp_all add: demo_shared_def MAX_PROCESSES_def demo_proc_def)
  obtain k1 where k1: "set_word F demo_shared 1 = Some k1" "futex_live 0x200000 k1" "word_at F k1 = Some 1"
    using kf.set_law [OF live, of 1] by (auto simp: F_def)
  obtain k2 where k2: "set_word F k1 2 = Some k2" "futex_live 0x200000 k2" "word_at F k2 = Some 2"
    using kf.set_law [OF k1(2), of 2] by (auto simp: F_def)
  have same: "process_table k2 = process_table demo_shared"
    using k1(1) k2(1) by (auto simp: F_def kernel_futex_def)
  define k3 where "k3 = k2\<lparr>current_proc_idx := 1\<rparr>"
  have k3: "futex_live 0x200000 k3" "word_at F k3 = word_at F k2" "in_wait F k3 = in_wait F k2" "caller F k3 = 1"
    using k2(2) tab same by (simp_all add: futex_live_def k3_def F_def kernel_futex_def)
  have "caller F k3 < length (in_wait F k3)"
    using k3 tab same by (simp add: F_def kernel_futex_def k3_def)
  then obtain k4 where k4: "wait_call F k3 2 = Some (k4, True)" "in_wait F k4 = (in_wait F k3)[1 := True]"
    using kf.wait_law [OF k3(1), of 2] k3 k2(3) by (auto simp: F_def)
  have s1: "?step (demo_shared, pcs) (demo_shared, pcs[0 := Lock_cas])"
    by (rule lock_call) (simp_all add: pcs_def)
  have s2: "?step (demo_shared, pcs[0 := Lock_cas]) (k1, pcs[0 := Lock_cas, 0 := Holding])"
    by (rule lock_cas) (simp_all add: pcs_def w0 k1(1))
  have s3: "?step (k1, pcs[0 := Lock_cas, 0 := Holding]) (k1, pcs[0 := Lock_cas, 0 := Holding, 1 := Lock_cas])"
    by (rule lock_call) (simp_all add: pcs_def)
  have s4: "?step (k1, pcs[0 := Lock_cas, 0 := Holding, 1 := Lock_cas]) (k1, pcs[0 := Lock_cas, 0 := Holding, 1 := Lock_cas, 1 := Lock_exchange])"
    using lock_cas_fails [of 1 "pcs[0 := Lock_cas, 0 := Holding, 1 := Lock_cas]" F k1 1] by (simp add: pcs_def k1(3))
  have s5: "?step (k1, pcs[0 := Lock_cas, 0 := Holding, 1 := Lock_cas, 1 := Lock_exchange]) (k2, pcs[0 := Holding, 1 := Lock_wait])"
    using lock_exchange [of 1 "pcs[0 := Lock_cas, 0 := Holding, 1 := Lock_cas, 1 := Lock_exchange]" F k1 1 k2] by (simp add: pcs_def k1(3) k2(1))
  have s6: "?step (k2, pcs[0 := Holding, 1 := Lock_wait]) (k3, pcs[0 := Holding, 1 := Lock_wait])"
    by (rule elsewhere) (simp_all add: k3)
  have s7: "?step (k3, pcs[0 := Holding, 1 := Lock_wait]) (k4, pcs[0 := Holding, 1 := Lock_blocked])"
    using lock_wait [of 1 "pcs[0 := Holding, 1 := Lock_wait]" F k3 k4 True] k3(4) k4(1) by (simp add: pcs_def)
  note rtr = converse_rtranclp_into_rtranclp [where r = ?step] and one = r_into_rtranclp [where r = ?step]
  have path: "?step\<^sup>*\<^sup>* (demo_shared, pcs) (k4, pcs[0 := Holding, 1 := Lock_blocked])"
    by (rule rtr [OF s1 rtr [OF s2 rtr [OF s3 rtr [OF s4 rtr [OF s5 rtr [OF s6 one [OF s7]]]]]]])
  then have "mutex_run 0x200000 demo_shared (k4, pcs[0 := Holding, 1 := Lock_blocked])"
    using tab(1) by (simp add: F_def pcs_def)
  moreover have "futex_waiting k4 1 0x200000"
  proof -
    have len: "length (process_table k4) = 32" "in_wait F k4 ! 1"
      using arg_cong [OF k4(2), of length] k4(2) k3(3) same tab(1) by (simp_all add: F_def kernel_futex_def k3_def)
    then show ?thesis
      by (simp add: F_def kernel_futex_def futex_waiting_def)
  qed
  ultimately show thesis
    using that by (simp add: pcs_def)
qed

theorem mutex_exclusion_witness:
  "\<exists>k pcs. mutex_run 0x200000 demo_shared (k, pcs) \<and> holds (pcs ! 0) \<and> (\<forall>j < length pcs. holds (pcs ! j) \<longrightarrow> j = 0)"
proof -
  obtain k pcs where run: "mutex_run 0x200000 demo_shared (k, pcs)" "length pcs = 32" "pcs ! 0 = Holding"
    by (rule demo_contended)
  then have "j = 0" if "j < length pcs" "holds (pcs ! j)" for j
    using mutex_exclusion [OF demo_shared_start run(1), of j 0] that by simp
  then show ?thesis
    using run by (metis pc_simps(1))
qed


text \<open>Process 1 waits on a word while its child exits.\<close>

definition demo_waiting :: kernel where
  "demo_waiting = (demo_kernel [(demo_proc 5 SLEEPING)\<lparr>wait_channel := 64\<rparr>, (demo_proc 6 RUNNING)\<lparr>ppid := 5\<rparr>])\<lparr>current_proc_idx := 1\<rparr>"


text \<open>Thread 0 finds the semaphore at 0 and sleeps; thread 1 has added a unit and is about to unlock.\<close>

definition demo_sem :: "int \<Rightarrow> nat option \<Rightarrow> int \<Rightarrow> sem_sys" where
  "demo_sem c l p = \<lparr>sem_count = c, sem_lock = l, posted = p, taken = 0\<rparr>"

lemma demo_sem_run: "sem_step\<^sup>*\<^sup>* (sem_init 0 2) (demo_sem 1 (Some 1) 1, [Wait_asleep, Post_unlock])"
proof -
  note rtr = converse_rtranclp_into_rtranclp [where r = sem_step]
  have s1: "sem_step (sem_init 0 2) (demo_sem 0 None 0, [Wait_lock, Sem_outside])"
    using wait_call [of 0 "[Sem_outside, Sem_outside]" "demo_sem 0 None 0"] by (simp add: sem_init_def demo_sem_def numeral_2_eq_2)
  have s2: "sem_step (demo_sem 0 None 0, [Wait_lock, Sem_outside]) (demo_sem 0 (Some 0) 0, [Wait_test, Sem_outside])"
    using wait_lock [of 0 "[Wait_lock, Sem_outside]" "demo_sem 0 None 0"] by (simp add: demo_sem_def)
  have s3: "sem_step (demo_sem 0 (Some 0) 0, [Wait_test, Sem_outside]) (demo_sem 0 (Some 0) 0, [Wait_unlock, Sem_outside])"
    using wait_test [of 0 "[Wait_test, Sem_outside]" "demo_sem 0 (Some 0) 0"] by (simp add: demo_sem_def)
  have s4: "sem_step (demo_sem 0 (Some 0) 0, [Wait_unlock, Sem_outside]) (demo_sem 0 None 0, [Wait_futex, Sem_outside])"
    using wait_unlock [of 0 "[Wait_unlock, Sem_outside]" "demo_sem 0 (Some 0) 0"] by (simp add: demo_sem_def)
  have s5: "sem_step (demo_sem 0 None 0, [Wait_futex, Sem_outside]) (demo_sem 0 None 0, [Wait_asleep, Sem_outside])"
    using wait_futex [of 0 "[Wait_futex, Sem_outside]" "demo_sem 0 None 0"] by (simp add: demo_sem_def)
  have s6: "sem_step (demo_sem 0 None 0, [Wait_asleep, Sem_outside]) (demo_sem 0 None 0, [Wait_asleep, Post_lock])"
    using post_call [of 1 "[Wait_asleep, Sem_outside]" "demo_sem 0 None 0"] by (simp add: demo_sem_def)
  have s7: "sem_step (demo_sem 0 None 0, [Wait_asleep, Post_lock]) (demo_sem 0 (Some 1) 0, [Wait_asleep, Post_load])"
    using post_lock [of 1 "[Wait_asleep, Post_lock]" "demo_sem 0 None 0"] by (simp add: demo_sem_def)
  have s8: "sem_step (demo_sem 0 (Some 1) 0, [Wait_asleep, Post_load]) (demo_sem 0 (Some 1) 0, [Wait_asleep, Post_store 1])"
    using post_load [of 1 "[Wait_asleep, Post_load]" "demo_sem 0 (Some 1) 0"] by (simp add: demo_sem_def)
  have s9: "sem_step (demo_sem 0 (Some 1) 0, [Wait_asleep, Post_store 1]) (demo_sem 1 (Some 1) 1, [Wait_asleep, Post_unlock])"
    using post_store [of 1 "[Wait_asleep, Post_store 1]" 1 "demo_sem 0 (Some 1) 0"] by (simp add: demo_sem_def)
  show ?thesis
    by (rule rtr [OF s1 rtr [OF s2 rtr [OF s3 rtr [OF s4 rtr [OF s5 rtr [OF s6 rtr [OF s7 rtr [OF s8 r_into_rtranclp [where r = sem_step, OF s9]]]]]]]]])
qed


end
