(* ===== verification/Pci.thy ===== *)
theory Pci
  imports Ports
begin

text \<open>
  The PCI bus driver (\<^verbatim>\<open>kernel/drivers/pci.c\<close>, \<^verbatim>\<open>pci.h\<close>): reading and writing the configuration
  space through the two ports of configuration mechanism 1, enumerating the functions of
  the first eight buses into \<open>pci_device_list\<close>, and looking devices up there.

  The configuration space of the machine is a parameter \<open>cs\<close>, the byte that a register of
  a function holds; \<open>pci_bus\<close> is what the mechanism documents of the ports.
\<close>

section \<open>Configuration space\<close>

definition PCI_CONFIG_ADDRESS :: u16 where "PCI_CONFIG_ADDRESS = 0xCF8"
definition PCI_CONFIG_DATA :: u16 where "PCI_CONFIG_DATA = 0xCFC"
definition PCI_VENDOR_NONE :: u16 where "PCI_VENDOR_NONE = 0xFFFF"
definition PCI_REG_VENDOR_ID :: u8 where "PCI_REG_VENDOR_ID = 0x00"
definition PCI_REG_DEVICE_ID :: u8 where "PCI_REG_DEVICE_ID = 0x02"
definition PCI_REG_COMMAND :: u8 where "PCI_REG_COMMAND = 0x04"
definition PCI_REG_REVISION :: u8 where "PCI_REG_REVISION = 0x08"
definition PCI_REG_PROG_IF :: u8 where "PCI_REG_PROG_IF = 0x09"
definition PCI_REG_SUBCLASS :: u8 where "PCI_REG_SUBCLASS = 0x0A"
definition PCI_REG_CLASS :: u8 where "PCI_REG_CLASS = 0x0B"
definition PCI_REG_HEADER_TYPE :: u8 where "PCI_REG_HEADER_TYPE = 0x0E"
definition PCI_REG_BAR0 :: u8 where "PCI_REG_BAR0 = 0x10"
definition PCI_REG_SUBSYS_VEN :: u8 where "PCI_REG_SUBSYS_VEN = 0x2C"
definition PCI_REG_SUBSYS_ID :: u8 where "PCI_REG_SUBSYS_ID = 0x2E"
definition PCI_REG_IRQ_LINE :: u8 where "PCI_REG_IRQ_LINE = 0x3C"
definition PCI_REG_IRQ_PIN :: u8 where "PCI_REG_IRQ_PIN = 0x3D"
definition PCI_COMMAND_IO :: u16 where "PCI_COMMAND_IO = 1"
definition PCI_COMMAND_MASTER :: u16 where "PCI_COMMAND_MASTER = 4"
definition PCI_MAX_DEVICES :: nat where "PCI_MAX_DEVICES = 32"

lemmas pci_regs = PCI_REG_VENDOR_ID_def PCI_REG_DEVICE_ID_def PCI_REG_REVISION_def PCI_REG_PROG_IF_def
  PCI_REG_SUBCLASS_def PCI_REG_CLASS_def PCI_REG_HEADER_TYPE_def PCI_REG_BAR0_def PCI_REG_SUBSYS_VEN_def
  PCI_REG_SUBSYS_ID_def PCI_REG_IRQ_LINE_def PCI_REG_IRQ_PIN_def

record pci_device =
  pd_bus :: u8
  pd_slot :: u8
  pd_func :: u8
  pd_vendor_id :: u16
  pd_device_id :: u16
  pd_class_id :: u8
  pd_subclass_id :: u8
  pd_prog_if :: u8
  pd_revision :: u8
  pd_subsys_vendor_id :: u16
  pd_subsys_device_id :: u16
  pd_bar :: "u32 list"
  pd_bar_type :: "u8 list"
  pd_irq_line :: u8
  pd_irq_pin :: u8

definition pci_device_zero :: pci_device where
  "pci_device_zero = \<lparr>pd_bus = 0, pd_slot = 0, pd_func = 0, pd_vendor_id = 0, pd_device_id = 0, pd_class_id = 0,
     pd_subclass_id = 0, pd_prog_if = 0, pd_revision = 0, pd_subsys_vendor_id = 0, pd_subsys_device_id = 0,
     pd_bar = replicate 6 0, pd_bar_type = replicate 6 0, pd_irq_line = 0, pd_irq_pin = 0\<rparr>"

record pci = ports +
  pci_device_list :: "pci_device list"
  pci_device_count :: nat

definition pci_config_addr :: "u8 \<Rightarrow> u8 \<Rightarrow> u8 \<Rightarrow> u8 \<Rightarrow> u32" where
  "pci_config_addr bus slot func offset =
     push_bit 31 1 OR push_bit 16 (ucast bus) OR push_bit 11 (ucast slot) OR push_bit 8 (ucast func) OR
     ucast (offset AND 0xFC)"

definition pci_read_config_32 :: "hardware \<Rightarrow> 'a ports_scheme \<Rightarrow> u8 \<Rightarrow> u8 \<Rightarrow> u8 \<Rightarrow> u8 \<Rightarrow> 'a ports_scheme \<times> u32" where
  "pci_read_config_32 hw w bus slot func offset =
     inl hw (outl w PCI_CONFIG_ADDRESS (pci_config_addr bus slot func offset)) PCI_CONFIG_DATA"

definition pci_read_config_16 :: "hardware \<Rightarrow> 'a ports_scheme \<Rightarrow> u8 \<Rightarrow> u8 \<Rightarrow> u8 \<Rightarrow> u8 \<Rightarrow> 'a ports_scheme \<times> u16" where
  "pci_read_config_16 hw w bus slot func offset =
     inw hw (outl w PCI_CONFIG_ADDRESS (pci_config_addr bus slot func offset)) (PCI_CONFIG_DATA + ucast (offset AND 2))"

definition pci_read_config_8 :: "hardware \<Rightarrow> 'a ports_scheme \<Rightarrow> u8 \<Rightarrow> u8 \<Rightarrow> u8 \<Rightarrow> u8 \<Rightarrow> 'a ports_scheme \<times> u8" where
  "pci_read_config_8 hw w bus slot func offset =
     inb hw (outl w PCI_CONFIG_ADDRESS (pci_config_addr bus slot func offset)) (PCI_CONFIG_DATA + ucast (offset AND 3))"

definition pci_write_config_32 :: "'a ports_scheme \<Rightarrow> u8 \<Rightarrow> u8 \<Rightarrow> u8 \<Rightarrow> u8 \<Rightarrow> u32 \<Rightarrow> 'a ports_scheme" where
  "pci_write_config_32 w bus slot func offset val =
     outl (outl w PCI_CONFIG_ADDRESS (pci_config_addr bus slot func offset)) PCI_CONFIG_DATA val"

definition pci_write_config_16 :: "'a ports_scheme \<Rightarrow> u8 \<Rightarrow> u8 \<Rightarrow> u8 \<Rightarrow> u8 \<Rightarrow> u16 \<Rightarrow> 'a ports_scheme" where
  "pci_write_config_16 w bus slot func offset val =
     outw (outl w PCI_CONFIG_ADDRESS (pci_config_addr bus slot func offset)) (PCI_CONFIG_DATA + ucast (offset AND 2)) val"

definition pci_write_config_8 :: "'a ports_scheme \<Rightarrow> u8 \<Rightarrow> u8 \<Rightarrow> u8 \<Rightarrow> u8 \<Rightarrow> u8 \<Rightarrow> 'a ports_scheme" where
  "pci_write_config_8 w bus slot func offset val =
     outb (outl w PCI_CONFIG_ADDRESS (pci_config_addr bus slot func offset)) (PCI_CONFIG_DATA + ucast (offset AND 3)) val"

section \<open>Enumeration\<close>

text \<open>The loop over the base address registers; the result is the two arrays it fills.\<close>

definition decode_bar :: "u32 \<Rightarrow> u32 \<times> u8" where
  "decode_bar bar_val = (if bar_val AND 1 \<noteq> 0 then (bar_val AND NOT 0x3, 1) else (bar_val AND NOT 0xF, 0))"

fun scan_bars :: "hardware \<Rightarrow> u8 \<Rightarrow> u8 \<Rightarrow> u8 \<Rightarrow> nat list \<Rightarrow> 'a ports_scheme \<Rightarrow> 'a ports_scheme \<times> (u32 \<times> u8) list" where
  "scan_bars hw bus slot func [] w = (w, [])"
| "scan_bars hw bus slot func (b # bs) w =
     (case pci_read_config_32 hw w bus slot func (PCI_REG_BAR0 + of_nat b * 4) of (w, bar_val) \<Rightarrow>
      case scan_bars hw bus slot func bs w of (w, rest) \<Rightarrow> (w, decode_bar bar_val # rest))"

definition pci_scan_device :: "hardware \<Rightarrow> u8 \<Rightarrow> u8 \<Rightarrow> u8 \<Rightarrow> 'a pci_scheme \<Rightarrow> 'a pci_scheme" where
  "pci_scan_device hw bus slot func w =
     (case pci_read_config_16 hw w bus slot func PCI_REG_VENDOR_ID of (w, vendor_id) \<Rightarrow>
      if vendor_id = PCI_VENDOR_NONE \<or> vendor_id = 0 then w
      else if PCI_MAX_DEVICES \<le> pci_device_count w then w
      else
        case pci_read_config_16 hw w bus slot func PCI_REG_DEVICE_ID of (w, device_id) \<Rightarrow>
        case pci_read_config_8 hw w bus slot func PCI_REG_REVISION of (w, revision) \<Rightarrow>
        case pci_read_config_8 hw w bus slot func PCI_REG_PROG_IF of (w, prog_if) \<Rightarrow>
        case pci_read_config_8 hw w bus slot func PCI_REG_SUBCLASS of (w, subclass_id) \<Rightarrow>
        case pci_read_config_8 hw w bus slot func PCI_REG_CLASS of (w, class_id) \<Rightarrow>
        case pci_read_config_16 hw w bus slot func PCI_REG_SUBSYS_VEN of (w, subsys_vendor_id) \<Rightarrow>
        case pci_read_config_16 hw w bus slot func PCI_REG_SUBSYS_ID of (w, subsys_device_id) \<Rightarrow>
        case pci_read_config_8 hw w bus slot func PCI_REG_IRQ_LINE of (w, irq_line) \<Rightarrow>
        case pci_read_config_8 hw w bus slot func PCI_REG_IRQ_PIN of (w, irq_pin) \<Rightarrow>
        case scan_bars hw bus slot func [0..<6] w of (w, bars) \<Rightarrow>
          w\<lparr>pci_device_list := (pci_device_list w)[pci_device_count w :=
               \<lparr>pd_bus = bus, pd_slot = slot, pd_func = func, pd_vendor_id = vendor_id, pd_device_id = device_id,
                pd_class_id = class_id, pd_subclass_id = subclass_id, pd_prog_if = prog_if, pd_revision = revision,
                pd_subsys_vendor_id = subsys_vendor_id, pd_subsys_device_id = subsys_device_id,
                pd_bar = map fst bars, pd_bar_type = map snd bars, pd_irq_line = irq_line, pd_irq_pin = irq_pin\<rparr>],
             pci_device_count := pci_device_count w + 1\<rparr>)"

definition pci_scan_slot :: "hardware \<Rightarrow> u8 \<Rightarrow> u8 \<Rightarrow> 'a pci_scheme \<Rightarrow> 'a pci_scheme" where
  "pci_scan_slot hw bus slot w =
     (case pci_read_config_16 hw w bus slot 0 PCI_REG_VENDOR_ID of (w, vendor) \<Rightarrow>
      if vendor = PCI_VENDOR_NONE \<or> vendor = 0 then w
      else
        case pci_read_config_8 hw (pci_scan_device hw bus slot 0 w) bus slot 0 PCI_REG_HEADER_TYPE of (w, header_type) \<Rightarrow>
        if header_type AND 0x80 \<noteq> 0 then fold (\<lambda>func. pci_scan_device hw bus slot (of_nat func)) [1..<8] w else w)"

definition pci_init :: "hardware \<Rightarrow> 'a pci_scheme \<Rightarrow> 'a pci_scheme" where
  "pci_init hw w =
     fold (\<lambda>bus. fold (\<lambda>slot. pci_scan_slot hw (of_nat bus) (of_nat slot)) [0..<32]) [0..<8]
       (w\<lparr>pci_device_count := 0, pci_device_list := replicate PCI_MAX_DEVICES pci_device_zero\<rparr>)"

section \<open>Looking devices up\<close>

text \<open>A device pointer is an index into \<open>pci_device_list\<close>.\<close>

definition pci_find_device :: "'a pci_scheme \<Rightarrow> u16 \<Rightarrow> u16 \<Rightarrow> nat option" where
  "pci_find_device w vendor_id device_id =
     scan (\<lambda>d. pd_vendor_id d = vendor_id \<and> (device_id = 0xFFFF \<or> pd_device_id d = device_id))
       (take (pci_device_count w) (pci_device_list w))"

definition pci_find_class :: "'a pci_scheme \<Rightarrow> u8 \<Rightarrow> u8 \<Rightarrow> nat option" where
  "pci_find_class w class_id subclass_id =
     scan (\<lambda>d. pd_class_id d = class_id \<and> (subclass_id = 0xFF \<or> pd_subclass_id d = subclass_id))
       (take (pci_device_count w) (pci_device_list w))"

definition pci_get_device_count :: "'a pci_scheme \<Rightarrow> nat" where
  "pci_get_device_count w = pci_device_count w"

definition pci_get_device :: "'a pci_scheme \<Rightarrow> int \<Rightarrow> nat option" where
  "pci_get_device w index = (if 0 \<le> index \<and> index < int (pci_device_count w) then Some (nat index) else None)"

section \<open>What the bus documents\<close>

text \<open>
  Configuration mechanism 1: after a write of an address with the enable bit, a read of the
  data port gives bytes of the register the address selects (bus in bits 16 to 23, slot in bits 11
  to 15, function in bits 8 to 10, register in bits 2 to 7).  The
  configuration space only keeps its contents as long as nothing is written to it: \<open>quiet\<close> are the
  accesses that at most select an address.
\<close>

type_synonym config_space = "u8 \<Rightarrow> u8 \<Rightarrow> u8 \<Rightarrow> u8 \<Rightarrow> u8"

definition selected :: "config_space \<Rightarrow> u32 \<Rightarrow> u8 \<Rightarrow> u8" where
  "selected cs a k =
     cs (ucast (drop_bit 16 a)) (ucast (drop_bit 11 a AND 31)) (ucast (drop_bit 8 a AND 7)) (ucast (a AND 0xFC) + k)"

definition quiet :: "io list \<Rightarrow> bool" where
  "quiet l = (\<forall>e \<in> set l. case e of In n p \<Rightarrow> True | Out n p v \<Rightarrow> p = 0xCF8)"

definition pci_bus :: "config_space \<Rightarrow> hardware \<Rightarrow> io list \<Rightarrow> bool" where
  "pci_bus cs hw log0 =
     (\<forall>l a. quiet l \<longrightarrow> bit a 31 \<longrightarrow>
       (\<forall>k \<in> {0, 1, 2, 3}. ucast (hw (Out 32 0xCF8 a # l @ log0) 8 (0xCFC + ucast k)) = selected cs a k) \<and>
       (\<forall>k \<in> {0, 2}. ucast (hw (Out 32 0xCF8 a # l @ log0) 16 (0xCFC + ucast k)) =
          get16 [selected cs a k, selected cs a (k + 1)] 0) \<and>
       hw (Out 32 0xCF8 a # l @ log0) 32 0xCFC = get32 (map (selected cs a) [0, 1, 2, 3]) 0)"

definition config8 :: "config_space \<Rightarrow> u8 \<times> u8 \<times> u8 \<Rightarrow> u8 \<Rightarrow> u8" where
  "config8 cs = (\<lambda>(bus, slot, func) reg. cs bus slot func reg)"

definition config16 :: "config_space \<Rightarrow> u8 \<times> u8 \<times> u8 \<Rightarrow> u8 \<Rightarrow> u16" where
  "config16 cs f reg = get16 [config8 cs f reg, config8 cs f (reg + 1)] 0"

definition config32 :: "config_space \<Rightarrow> u8 \<times> u8 \<times> u8 \<Rightarrow> u8 \<Rightarrow> u32" where
  "config32 cs f reg = get32 (map (\<lambda>i. config8 cs f (reg + i)) [0, 1, 2, 3]) 0"

definition function_present :: "config_space \<Rightarrow> u8 \<times> u8 \<times> u8 \<Rightarrow> bool" where
  "function_present cs f \<longleftrightarrow> config16 cs f PCI_REG_VENDOR_ID \<noteq> PCI_VENDOR_NONE \<and> config16 cs f PCI_REG_VENDOR_ID \<noteq> 0"

definition device_of :: "config_space \<Rightarrow> u8 \<times> u8 \<times> u8 \<Rightarrow> pci_device" where
  "device_of cs f =
     \<lparr>pd_bus = fst f, pd_slot = fst (snd f), pd_func = snd (snd f), pd_vendor_id = config16 cs f PCI_REG_VENDOR_ID,
      pd_device_id = config16 cs f PCI_REG_DEVICE_ID, pd_class_id = config8 cs f PCI_REG_CLASS,
      pd_subclass_id = config8 cs f PCI_REG_SUBCLASS, pd_prog_if = config8 cs f PCI_REG_PROG_IF,
      pd_revision = config8 cs f PCI_REG_REVISION, pd_subsys_vendor_id = config16 cs f PCI_REG_SUBSYS_VEN,
      pd_subsys_device_id = config16 cs f PCI_REG_SUBSYS_ID,
      pd_bar = map (\<lambda>b. fst (decode_bar (config32 cs f (PCI_REG_BAR0 + of_nat b * 4)))) [0..<6],
      pd_bar_type = map (\<lambda>b. snd (decode_bar (config32 cs f (PCI_REG_BAR0 + of_nat b * 4)))) [0..<6],
      pd_irq_line = config8 cs f PCI_REG_IRQ_LINE, pd_irq_pin = config8 cs f PCI_REG_IRQ_PIN\<rparr>"

text \<open>The functions of the machine, in the order of bus, slot and function number.\<close>

definition slot_functions :: "config_space \<Rightarrow> u8 \<Rightarrow> u8 \<Rightarrow> (u8 \<times> u8 \<times> u8) list" where
  "slot_functions cs bus slot =
     (if function_present cs (bus, slot, 0) then
        (bus, slot, 0) #
        (if bit (config8 cs (bus, slot, 0) PCI_REG_HEADER_TYPE) 7
         then filter (function_present cs) (map (\<lambda>f. (bus, slot, of_nat f)) [1..<8]) else [])
      else [])"

definition pci_functions :: "config_space \<Rightarrow> (u8 \<times> u8 \<times> u8) list" where
  "pci_functions cs = concat (map (\<lambda>bus. concat (map (\<lambda>slot. slot_functions cs (of_nat bus) (of_nat slot)) [0..<32])) [0..<8])"

section \<open>The address round trip\<close>

lemma bit_low: "unat w < 2 ^ k \<Longrightarrow> bit w n \<Longrightarrow> n < k" for w :: "'a::len word"
proof (rule ccontr)
  assume w: "unat w < 2 ^ k" "bit w n" "\<not> n < k"
  then have "unat w < 2 ^ n"
    by (meson less_le_trans not_less one_le_numeral power_increasing)
  moreover have "bit (unat w) n"
    using w(2) by (simp add: bit_unsigned_iff bit_imp_le_length)
  ultimately show False
    by (simp add: bit_iff_odd)
qed

lemma pci_config_addr_fields:
  assumes "slot < 32" and "func < 8"
  shows "bit (pci_config_addr bus slot func offset) 31"
    and "selected cs (pci_config_addr bus slot func offset) k = cs bus slot func ((offset AND 0xFC) + k)"
proof -
  let ?a = "pci_config_addr bus slot func offset"
  have low: "bit slot n \<Longrightarrow> n < 5" "bit func n \<Longrightarrow> n < 3" "bit (offset AND 0xFC) n \<Longrightarrow> n < 8" for n
    using bit_low [of slot 5 n] bit_low [of func 3 n] bit_imp_le_length [of "offset AND 0xFC" n] assms
    by (simp_all add: word_less_nat_alt)
  have masks: "(31 :: u32) = mask 5" "(7 :: u32) = mask 3" "(0xFC :: u32) = push_bit 2 (mask 6)" "(0xFC :: u8) = push_bit 2 (mask 6)"
    by (simp_all add: mask_eq_exp_minus_1)
  define top where "top = push_bit 31 (1 :: u32)"
  have top: "bit top n \<longleftrightarrow> n = 31" for n
    unfolding top_def by (subst bit_push_bit_iff) (auto simp: bit_1_iff)
  have f0: "bit ?a n \<longleftrightarrow> n = 31 \<or> 16 \<le> n \<and> bit bus (n - 16) \<or> 11 \<le> n \<and> bit slot (n - 11) \<or> 8 \<le> n \<and> bit func (n - 8) \<or>
      bit (offset AND 0xFC) n" if "n < 32" for n
    using that unfolding pci_config_addr_def top_def [symmetric] by (auto simp: bit_simps top)
  show "bit ?a 31" by (simp add: f0)
  have "(ucast (drop_bit 16 ?a) :: u8) = bus"
    by (rule bit_word_eqI) (auto simp: bit_simps f0 dest: low)
  moreover have "(ucast (drop_bit 11 ?a AND 31) :: u8) = slot"
    unfolding masks by (rule bit_word_eqI) (auto simp: bit_simps f0 dest: low)
  moreover have "(ucast (drop_bit 8 ?a AND 7) :: u8) = func"
    unfolding masks by (rule bit_word_eqI) (auto simp: bit_simps f0 dest: low)
  moreover have "(ucast (?a AND 0xFC) :: u8) = offset AND 0xFC"
    unfolding masks by (rule bit_word_eqI) (auto simp: bit_simps f0 [unfolded masks] dest: low)
  ultimately show "selected cs ?a k = cs bus slot func ((offset AND 0xFC) + k)"
    by (simp add: selected_def)
qed

section \<open>Reading registers\<close>

definition scanning :: "'b ports_scheme \<Rightarrow> 'a ports_scheme \<Rightarrow> bool" where
  "scanning w0 w = (\<exists>l. quiet l \<and> io_log w = l @ io_log w0)"

text \<open>The trace a register read leaves.\<close>

definition touched :: "nat \<Rightarrow> u16 \<Rightarrow> u32 \<Rightarrow> 'a ports_scheme \<Rightarrow> 'a ports_scheme" where
  "touched n p a w = w\<lparr>io_log := In n p # Out 32 0xCF8 a # io_log w\<rparr>"

lemma scanning_touched [simp]: "scanning w0 w \<Longrightarrow> scanning w0 (touched n p a w)"
proof -
  assume "scanning w0 w"
  then obtain l where "quiet l" "io_log w = l @ io_log w0" by (auto simp: scanning_def)
  then show ?thesis
    unfolding scanning_def by (intro exI [of _ "In n p # Out 32 0xCF8 a # l"]) (simp add: touched_def quiet_def)
qed

lemma touched_fields [simp]:
  "pci_device_list (touched n p a w) = pci_device_list w" "pci_device_count (touched n p a w) = pci_device_count w"
  by (simp_all add: touched_def)

lemma read_config:
  assumes bus: "pci_bus cs hw (io_log w0)" and w: "scanning w0 w" and sf: "slot < 32" "func < 8"
  shows "offset AND 3 \<in> {0, 1, 2, 3} \<Longrightarrow> (offset AND 0xFC) + (offset AND 3) = offset \<Longrightarrow>
      pci_read_config_8 hw w bus slot func offset =
        (touched 8 (PCI_CONFIG_DATA + ucast (offset AND 3)) (pci_config_addr bus slot func offset) w, config8 cs (bus, slot, func) offset)"
    and "offset AND 2 \<in> {0, 2} \<Longrightarrow> (offset AND 0xFC) + (offset AND 2) = offset \<Longrightarrow>
      pci_read_config_16 hw w bus slot func offset =
        (touched 16 (PCI_CONFIG_DATA + ucast (offset AND 2)) (pci_config_addr bus slot func offset) w, config16 cs (bus, slot, func) offset)"
    and "offset AND 0xFC = offset \<Longrightarrow>
      pci_read_config_32 hw w bus slot func offset =
        (touched 32 PCI_CONFIG_DATA (pci_config_addr bus slot func offset) w, config32 cs (bus, slot, func) offset)"
proof -
  obtain l where l: "quiet l" "io_log w = l @ io_log w0"
    using w by (auto simp: scanning_def)
  note sel = pci_config_addr_fields [OF sf]
  note hw = bus [unfolded pci_bus_def, rule_format, OF l(1) sel(1), of bus offset]
  note io = inb_def inw_def inl_def outl_def PCI_CONFIG_ADDRESS_def PCI_CONFIG_DATA_def touched_def l(2) [symmetric]
  have next3: "(offset AND 0xFC) + 3 = offset + 1" if "(offset AND 0xFC) + 2 = offset"
    using arg_cong [OF that, of "\<lambda>x. x + 1"] by simp
  show "pci_read_config_8 hw w bus slot func offset =
      (touched 8 (PCI_CONFIG_DATA + ucast (offset AND 3)) (pci_config_addr bus slot func offset) w, config8 cs (bus, slot, func) offset)"
    if "offset AND 3 \<in> {0, 1, 2, 3}" "(offset AND 0xFC) + (offset AND 3) = offset"
    using hw that by (auto simp: pci_read_config_8_def io config8_def sel)
  show "pci_read_config_16 hw w bus slot func offset =
      (touched 16 (PCI_CONFIG_DATA + ucast (offset AND 2)) (pci_config_addr bus slot func offset) w, config16 cs (bus, slot, func) offset)"
    if "offset AND 2 \<in> {0, 2}" "(offset AND 0xFC) + (offset AND 2) = offset"
    using hw that by (auto simp: pci_read_config_16_def io config16_def config8_def sel next3)
  show "pci_read_config_32 hw w bus slot func offset =
      (touched 32 PCI_CONFIG_DATA (pci_config_addr bus slot func offset) w, config32 cs (bus, slot, func) offset)"
    if "offset AND 0xFC = offset"
    using hw that by (auto simp: pci_read_config_32_def io config32_def config8_def sel)
qed

section \<open>The scan lists the functions\<close>

definition devices :: "'a pci_scheme \<Rightarrow> pci_device list" where
  "devices w = take (pci_device_count w) (pci_device_list w)"

definition pci_ok :: "'a pci_scheme \<Rightarrow> bool" where
  "pci_ok w \<longleftrightarrow> pci_device_count w \<le> PCI_MAX_DEVICES \<and> length (pci_device_list w) = PCI_MAX_DEVICES"

text \<open>A part of the scan that finds the functions \<open>fs\<close>, of which the list takes what fits.\<close>

definition finds :: "config_space \<Rightarrow> 'a pci_scheme \<Rightarrow> ('a pci_scheme \<Rightarrow> 'a pci_scheme) \<Rightarrow> (u8 \<times> u8 \<times> u8) list \<Rightarrow> bool" where
  "finds cs w0 f fs \<longleftrightarrow> (\<forall>w. scanning w0 w \<and> pci_ok w \<longrightarrow> scanning w0 (f w) \<and> pci_ok (f w) \<and>
     devices (f w) = take PCI_MAX_DEVICES (devices w @ map (device_of cs) fs))"

lemma take_append_take: "take n (take n xs @ ys) = take n (xs @ ys)"
  by (simp add: min_def)

lemma findsD:
  assumes "finds cs w0 f fs" and "scanning w0 w" and "pci_ok w"
  shows "scanning w0 (f w)" and "pci_ok (f w)" and "devices (f w) = take PCI_MAX_DEVICES (devices w @ map (device_of cs) fs)"
  using assms by (auto simp: finds_def)

lemma finds_comp:
  fixes w0 :: "'a pci_scheme"
  assumes f: "finds cs w0 f fs" and g: "finds cs w0 g gs"
  shows "finds cs w0 (g \<circ> f) (fs @ gs)"
proof (unfold finds_def, intro allI impI)
  fix w :: "'a pci_scheme" assume w: "scanning w0 w \<and> pci_ok w"
  note fw = findsD [OF f, of w]
  have "devices (g (f w)) = take PCI_MAX_DEVICES (take PCI_MAX_DEVICES (devices w @ map (device_of cs) fs) @ map (device_of cs) gs)"
    using findsD(3) [OF g] fw w by simp
  then show "scanning w0 ((g \<circ> f) w) \<and> pci_ok ((g \<circ> f) w) \<and>
      devices ((g \<circ> f) w) = take PCI_MAX_DEVICES (devices w @ map (device_of cs) (fs @ gs))"
    unfolding take_append_take using findsD [OF g] fw w by simp
qed

lemma finds_fold:
  assumes "\<And>x. x \<in> set xs \<Longrightarrow> finds cs w0 (h x) (k x)"
  shows "finds cs w0 (fold h xs) (concat (map k xs))"
  using assms
proof (induction xs)
  case Nil
  then show ?case
    by (auto simp: finds_def devices_def pci_ok_def)
next
  case (Cons x xs)
  then show ?case
    using finds_comp [of cs w0 "h x" "k x" "fold h xs"] by (simp add: comp_def)
qed

lemma scan_bars_spec:
  assumes bus: "pci_bus cs hw (io_log w0)" and sf: "slot < 32" "func < 8"
  shows "scanning w0 w \<Longrightarrow> set bs \<subseteq> {0..<6} \<Longrightarrow>
    \<exists>w'. scan_bars hw bus slot func bs w =
        (w', map (\<lambda>b. decode_bar (config32 cs (bus, slot, func) (PCI_REG_BAR0 + of_nat b * 4))) bs) \<and>
      scanning w0 w' \<and> pci_device_list w' = pci_device_list w \<and> pci_device_count w' = pci_device_count w"
proof (induction bs arbitrary: w)
  case Nil
  then show ?case by simp
next
  case (Cons b bs)
  have "b \<in> {0, 1, 2, 3, 4, 5}" using Cons.prems(2) by auto
  then have "(PCI_REG_BAR0 + of_nat b * 4) AND 0xFC = PCI_REG_BAR0 + of_nat b * 4"
    by (auto simp: PCI_REG_BAR0_def)
  note rd = read_config(3) [OF bus Cons.prems(1) sf this]
  show ?case
    using Cons.IH [OF scanning_touched [OF Cons.prems(1), of 32 PCI_CONFIG_DATA "pci_config_addr bus slot func (PCI_REG_BAR0 + of_nat b * 4)"]]
      Cons.prems(2) by (auto simp: rd)
qed

lemma finds_scan_device:
  fixes w0 :: "'a pci_scheme"
  assumes bus: "pci_bus cs hw (io_log w0)" and sf: "slot < 32" "func < 8"
  shows "finds cs w0 (pci_scan_device hw bus slot func) (filter (function_present cs) [(bus, slot, func)])"
proof (unfold finds_def, intro allI impI)
  fix w :: "'a pci_scheme" assume w: "scanning w0 w \<and> pci_ok w"
  let ?f = "(bus, slot, func)"
  note r8 = read_config(1) [OF bus _ sf] and r16 = read_config(2) [OF bus _ sf]
  define w1 where "w1 = fst (pci_read_config_16 hw w bus slot func PCI_REG_VENDOR_ID)"
  have w1: "pci_read_config_16 hw w bus slot func PCI_REG_VENDOR_ID = (w1, config16 cs ?f PCI_REG_VENDOR_ID)" "scanning w0 w1"
      "pci_device_list w1 = pci_device_list w" "pci_device_count w1 = pci_device_count w"
    using w by (simp_all add: w1_def r16 pci_regs)
  define wa where "wa =
    fst (pci_read_config_8 hw (fst (pci_read_config_8 hw (fst (pci_read_config_16 hw (fst (pci_read_config_16 hw
    (fst (pci_read_config_8 hw (fst (pci_read_config_8 hw (fst (pci_read_config_8 hw (fst (pci_read_config_8 hw
    (fst (pci_read_config_16 hw w1 bus slot func PCI_REG_DEVICE_ID)) bus slot func PCI_REG_REVISION)) bus slot func PCI_REG_PROG_IF))
    bus slot func PCI_REG_SUBCLASS)) bus slot func PCI_REG_CLASS)) bus slot func PCI_REG_SUBSYS_VEN)) bus slot func PCI_REG_SUBSYS_ID))
    bus slot func PCI_REG_IRQ_LINE)) bus slot func PCI_REG_IRQ_PIN)"
  have wa: "scanning w0 wa" "pci_device_list wa = pci_device_list w" "pci_device_count wa = pci_device_count w"
    using w1 by (simp_all add: wa_def r8 r16 pci_regs)
  obtain wb where wb: "scan_bars hw bus slot func [0..<6] wa =
        (wb, map (\<lambda>b. decode_bar (config32 cs ?f (PCI_REG_BAR0 + of_nat b * 4))) [0..<6])"
      "scanning w0 wb" "pci_device_list wb = pci_device_list w" "pci_device_count wb = pci_device_count w"
    using scan_bars_spec [OF bus sf wa(1), of "[0..<6]" bus] wa(2, 3) by auto
  let ?w' = "pci_scan_device hw bus slot func w"
  let ?d = "wb\<lparr>pci_device_list := (pci_device_list wb)[pci_device_count wb := device_of cs ?f], pci_device_count := pci_device_count wb + 1\<rparr>"
  have "?w' = (if \<not> function_present cs ?f \<or> PCI_MAX_DEVICES \<le> pci_device_count w then w1 else ?d)"
    using w1 wb(1) [unfolded wa_def] 
    by (simp add: pci_scan_device_def function_present_def device_of_def r8 r16 pci_regs comp_def)
  moreover have "scanning w0 ?d" using wb(2) by (simp add: scanning_def)
  ultimately show "scanning w0 ?w' \<and> pci_ok ?w' \<and>
      devices ?w' = take PCI_MAX_DEVICES (devices w @ map (device_of cs) (filter (function_present cs) [?f]))"
    using w w1 wb(3, 4)
    by (auto simp: pci_ok_def devices_def min_def take_Suc_conv_app_nth)
qed

lemma finds_scan_slot:
  fixes w0 :: "'a pci_scheme"
  assumes bus: "pci_bus cs hw (io_log w0)" and slot: "slot < 32"
  shows "finds cs w0 (pci_scan_slot hw bus slot) (slot_functions cs bus slot)"
proof (unfold finds_def, intro allI impI)
  fix w :: "'a pci_scheme" assume w: "scanning w0 w \<and> pci_ok w"
  let ?f = "(bus, slot, 0)"
  note r8 = read_config(1) [OF bus _ slot] and r16 = read_config(2) [OF bus _ slot]
  define w1 where "w1 = fst (pci_read_config_16 hw w bus slot 0 PCI_REG_VENDOR_ID)"
  have w1: "pci_read_config_16 hw w bus slot 0 PCI_REG_VENDOR_ID = (w1, config16 cs ?f PCI_REG_VENDOR_ID)"
      "scanning w0 w1" "pci_ok w1" "devices w1 = devices w"
    using w by (simp_all add: w1_def r16 pci_regs pci_ok_def devices_def)
  note d = findsD [OF finds_scan_device [OF bus slot, of 0 bus] w1(2, 3)]
  let ?w2 = "pci_scan_device hw bus slot 0 w1"
  define w3 where "w3 = fst (pci_read_config_8 hw ?w2 bus slot 0 PCI_REG_HEADER_TYPE)"
  have w3: "pci_read_config_8 hw ?w2 bus slot 0 PCI_REG_HEADER_TYPE = (w3, config8 cs ?f PCI_REG_HEADER_TYPE)"
      "scanning w0 w3" "pci_ok w3" "devices w3 = devices ?w2"
    using d by (simp_all add: w3_def r8 pci_regs pci_ok_def devices_def)
  have "finds cs w0 (fold (\<lambda>func. pci_scan_device hw bus slot (of_nat func)) [1..<8])
      (concat (map (\<lambda>f. filter (function_present cs) [(bus, slot, of_nat f)]) [1..<8]))"
    by (rule finds_fold, rule finds_scan_device [OF bus slot]) (auto simp: word_less_nat_alt unat_of_nat)
  moreover have "concat (map (\<lambda>f. filter (function_present cs) [g f]) xs) = filter (function_present cs) (map g xs)" for g and xs :: "nat list"
    by (induction xs) auto
  ultimately have rest: "finds cs w0 (fold (\<lambda>func. pci_scan_device hw bus slot (of_nat func)) [1..<8])
      (filter (function_present cs) (map (\<lambda>f. (bus, slot, of_nat f)) [1..<8]))"
    by (simp only:)
  have hb: "h AND 0x80 \<noteq> 0 \<longleftrightarrow> bit h 7" for h :: u8
    using and_push_bit_1_iff [of h 7] by simp
  have dev: "devices w3 = take PCI_MAX_DEVICES (devices w @ [device_of cs ?f])" if "function_present cs ?f"
    using d(3) w3(4) w1(4) that by simp
  show "scanning w0 (pci_scan_slot hw bus slot w) \<and> pci_ok (pci_scan_slot hw bus slot w) \<and>
      devices (pci_scan_slot hw bus slot w) = take PCI_MAX_DEVICES (devices w @ map (device_of cs) (slot_functions cs bus slot))"
  proof (cases "function_present cs ?f")
    case False
    then show ?thesis
      using w w1 by (auto simp: pci_scan_slot_def slot_functions_def function_present_def devices_def pci_ok_def)
  next
    case True
    then have s: "pci_scan_slot hw bus slot w =
        (if bit (config8 cs ?f PCI_REG_HEADER_TYPE) 7 then fold (\<lambda>func. pci_scan_device hw bus slot (of_nat func)) [1..<8] w3 else w3)"
      by (simp add: pci_scan_slot_def w1(1) w3(1) hb function_present_def)
    show ?thesis
      unfolding s using findsD [OF rest w3(2, 3)] w3(2, 3) dev [OF True] take_append_take [of PCI_MAX_DEVICES "devices w @ [device_of cs ?f]"] True
      by (simp add: slot_functions_def)
  qed
qed

lemma pci_init_devices:
  fixes w :: "'a pci_scheme"
  assumes bus: "pci_bus cs hw (io_log w)"
  shows "devices (pci_init hw w) = map (device_of cs) (take PCI_MAX_DEVICES (pci_functions cs))"
proof -
  define w0 where "w0 = w\<lparr>pci_device_count := 0, pci_device_list := replicate PCI_MAX_DEVICES pci_device_zero\<rparr>"
  have bus0: "pci_bus cs hw (io_log w0)" using bus by (simp add: w0_def)
  have "finds cs w0 (fold (\<lambda>bus. fold (\<lambda>slot. pci_scan_slot hw (of_nat bus) (of_nat slot)) [0..<32]) [0..<8]) (pci_functions cs)"
    unfolding pci_functions_def
    by (rule finds_fold, rule finds_fold, rule finds_scan_slot [OF bus0]) (auto simp: word_less_nat_alt unat_of_nat)
  moreover have "scanning w0 w0"
    unfolding scanning_def by (rule exI [of _ "[]"]) (simp add: quiet_def)
  moreover have "pci_ok w0" "devices w0 = []"
    by (simp_all add: w0_def pci_ok_def devices_def)
  ultimately show ?thesis
    using findsD(3) by (fastforce simp: pci_init_def w0_def take_map)
qed


text \<open>A machine with given configuration spaces, and one with a network card in slot 3 of bus 0.\<close>

definition bus_of :: "config_space \<Rightarrow> hardware" where
  "bus_of cs log n p =
     (case log of
        Out _ _ a # _ \<Rightarrow>
          (let k = ucast (p - 0xCFC) in
           if n = 8 then ucast (selected cs a k)
           else if n = 16 then ucast (get16 [selected cs a k, selected cs a (k + 1)] 0)
           else get32 (map (selected cs a) [0, 1, 2, 3]) 0)
      | _ \<Rightarrow> 0)"

lemma pci_bus_of: "pci_bus cs (bus_of cs) log0"
proof -
  have "ucast (ucast x :: u32) = x" "ucast (ucast y :: u32) = y" for x :: u8 and y :: u16
    by (rule bit_word_eqI; simp add: bit_simps)+
  then show ?thesis
    by (auto simp: pci_bus_def bus_of_def)
qed

definition demo_config :: config_space where
  "demo_config bus slot func reg =
     (if bus = 0 \<and> slot = 3 \<and> func = 0
      then (if reg = 0 then 0xF4 else if reg = 1 then 0x1A else if reg = 3 then 0x10 else if reg = 0x0B then 2
            else if reg = 0x10 then 0x01 else if reg = 0x11 then 0xC0 else 0)
      else 0xFF)"

definition blank_pci :: pci where
  "blank_pci = \<lparr>mounts = [], mount_count = 0, vnodes = (\<lambda>_. vfs_node_zero), tar_archive_base = None, tar_archive_size = 0,
     tarfs_file_count = 0, io_log = [], pci_device_list = [], pci_device_count = 0\<rparr>"

lemma demo_functions: "pci_functions demo_config = [(0, 3, 0)]"
  by code_simp


end
