(* ===== verification/Virtio.thy ===== *)
theory Virtio
  imports Pci PhysMem
begin

text \<open>
  The driver of the virtio network card (\<^verbatim>\<open>kernel/drivers/virtio_net.c\<close>, \<^verbatim>\<open>virtio_net.h\<close>).  The
  rings and packet buffers are where the code has them, in the physical memory that
  \<open>alloc_pages\<close> hands out, and are read and written at the addresses that the packed structs give.

  The card is not kernel code.  What its registers return is the parameter \<open>hw\<close> of the port accesses,
  and what it writes to memory is the parameter \<open>dma\<close>: the memory as the card leaves it
  when the driver looks at a used index for the n-th time.  Between two such looks the
  driver reads nothing that the card may write, so all its writes can be placed there.
\<close>

section \<open>Ring memory\<close>

definition poke :: "memory \<Rightarrow> u64 \<Rightarrow> bytes \<Rightarrow> memory" where
  "poke m a bs = (\<lambda>x. if unat (x - a) < length bs then bs ! unat (x - a) else m x)"

definition peek :: "memory \<Rightarrow> u64 \<Rightarrow> nat \<Rightarrow> bytes" where
  "peek m a n = map (\<lambda>i. m (a + of_nat i)) [0..<n]"

definition ld16 :: "memory \<Rightarrow> u64 \<Rightarrow> u16" where
  "ld16 m a = get16 (peek m a 2) 0"

definition ldw32 :: "memory \<Rightarrow> u64 \<Rightarrow> u32" where
  "ldw32 m a = get32 (peek m a 4) 0"

definition st16 :: "memory \<Rightarrow> u64 \<Rightarrow> u16 \<Rightarrow> memory" where
  "st16 m a v = poke m a (put16 v)"

text \<open>The fields of \<open>struct vring_desc\<close>, \<open>struct vring_avail\<close> and \<open>struct vring_used\<close>.\<close>

definition put_desc :: "u64 \<Rightarrow> u32 \<Rightarrow> u16 \<Rightarrow> u16 \<Rightarrow> bytes" where
  "put_desc addr len flags nxt =
     put32 (ucast addr) @ put32 (ucast (drop_bit 32 addr)) @ put32 len @ put16 flags @ put16 nxt"

record virtqueue =
  queue_index :: u16
  queue_size :: u16
  raw_pages :: u64
  pfn :: u64
  desc :: u64
  avail :: u64
  used :: u64
  last_used_idx :: u16
  free_head :: u16
  num_free :: u16

definition desc_at :: "virtqueue \<Rightarrow> nat \<Rightarrow> u64" where
  "desc_at q i = desc q + of_nat (16 * i)"

definition avail_flags :: "virtqueue \<Rightarrow> u64" where "avail_flags q = avail q"
definition avail_idx :: "virtqueue \<Rightarrow> u64" where "avail_idx q = avail q + 2"

definition avail_ring :: "virtqueue \<Rightarrow> nat \<Rightarrow> u64" where
  "avail_ring q i = avail q + of_nat (4 + 2 * i)"

definition used_idx :: "virtqueue \<Rightarrow> u64" where "used_idx q = used q + 2"

definition used_ring :: "virtqueue \<Rightarrow> nat \<Rightarrow> u64" where
  "used_ring q i = used q + of_nat (4 + 8 * i)"

section \<open>The driver\<close>

definition VIRTIO_VENDOR_ID :: u16 where "VIRTIO_VENDOR_ID = 0x1AF4"
definition VIRTIO_DEV_NET_LEGACY :: u16 where "VIRTIO_DEV_NET_LEGACY = 0x1000"
definition VIRTIO_PCI_HOST_FEATURES :: u16 where "VIRTIO_PCI_HOST_FEATURES = 0x00"
definition VIRTIO_PCI_GUEST_FEATURES :: u16 where "VIRTIO_PCI_GUEST_FEATURES = 0x04"
definition VIRTIO_PCI_QUEUE_PFN :: u16 where "VIRTIO_PCI_QUEUE_PFN = 0x08"
definition VIRTIO_PCI_QUEUE_NUM :: u16 where "VIRTIO_PCI_QUEUE_NUM = 0x0C"
definition VIRTIO_PCI_QUEUE_SEL :: u16 where "VIRTIO_PCI_QUEUE_SEL = 0x0E"
definition VIRTIO_PCI_QUEUE_NOTIFY :: u16 where "VIRTIO_PCI_QUEUE_NOTIFY = 0x10"
definition VIRTIO_PCI_STATUS :: u16 where "VIRTIO_PCI_STATUS = 0x12"
definition VIRTIO_PCI_CONFIG_OFFSET :: u16 where "VIRTIO_PCI_CONFIG_OFFSET = 0x14"
definition VIRTIO_STATUS_ACKNOWLEDGE :: u8 where "VIRTIO_STATUS_ACKNOWLEDGE = 1"
definition VIRTIO_STATUS_DRIVER :: u8 where "VIRTIO_STATUS_DRIVER = 2"
definition VIRTIO_STATUS_DRIVER_OK :: u8 where "VIRTIO_STATUS_DRIVER_OK = 4"
definition VRING_DESC_F_WRITE :: u16 where "VRING_DESC_F_WRITE = 2"
definition VIRTIO_NET_F_MAC :: u32 where "VIRTIO_NET_F_MAC = push_bit 5 1"
definition VIRTIO_NET_F_STATUS :: u32 where "VIRTIO_NET_F_STATUS = push_bit 16 1"
definition VIRTIO_NET_HDR_SIZE :: nat where "VIRTIO_NET_HDR_SIZE = 10"
definition VIRTIO_NET_RX_BUFFERS :: nat where "VIRTIO_NET_RX_BUFFERS = 16"
definition MAX_PKT_SIZE :: nat where "MAX_PKT_SIZE = 1536"

text \<open>\<open>sizeof(virtio_net_rx_buf_t)\<close>: header and data, padded to the alignment of 16 bytes.\<close>

definition sizeof_rx_buf :: nat where "sizeof_rx_buf = 1552"

text \<open>
  The statics of the driver.  \<open>net_present\<close> and \<open>net_mac\<close> are called \<open>card_present\<close> and \<open>card_mac\<close>.
\<close>

record virtio = pci +
  kmm :: mm
  card_present :: bool
  net_iobase :: u16
  card_mac :: bytes
  net_pci_dev :: "nat option"
  rx_queue :: virtqueue
  tx_queue :: virtqueue
  rx_buffers :: u64
  tx_buffer :: u64
  looks :: nat

abbreviation vmem :: "'a virtio_scheme \<Rightarrow> memory" where
  "vmem w \<equiv> ram (kmm w)"

definition set_mem :: "'a virtio_scheme \<Rightarrow> memory \<Rightarrow> 'a virtio_scheme" where
  "set_mem w m = w\<lparr>kmm := (kmm w)\<lparr>ram := m\<rparr>\<rparr>"

type_synonym dma = "nat \<Rightarrow> memory \<Rightarrow> memory"

definition look :: "dma \<Rightarrow> 'a virtio_scheme \<Rightarrow> 'a virtio_scheme" where
  "look dma w = (set_mem w (dma (looks w) (vmem w)))\<lparr>looks := looks w + 1\<rparr>"

text \<open>
  \<open>init_virtqueue\<close> fills a queue structure that the caller stores back; \<open>place_virtqueue\<close> is its part
  from the computation of the memory layout on.  \<open>None\<close> is a read outside the page bitmap in
  \<open>alloc_pages\<close>.
\<close>

definition place_virtqueue :: "'a virtio_scheme \<Rightarrow> virtqueue \<Rightarrow> ('a virtio_scheme \<times> virtqueue \<times> int) option" where
  "place_virtqueue w vq =
     (let desc_size = ucast (queue_size vq) * 16 :: u64;
          avail_size = 4 + 2 * ucast (queue_size vq) :: u64;
          desc_avail = desc_size + avail_size;
          used_offset = (desc_avail + 4095) AND NOT 4095;
          used_size = 4 + 8 * ucast (queue_size vq) :: u64;
          total_size = used_offset + used_size;
          pages_needed = (total_size + of_nat PAGE_SIZE - 1) div of_nat PAGE_SIZE in
      case alloc_pages (kmm w) pages_needed of
        None \<Rightarrow> None
      | Some (m, p) \<Rightarrow>
          if p = 0 then Some (w\<lparr>kmm := m\<rparr>, vq\<lparr>raw_pages := p\<rparr>, - 1)
          else Some (outl (w\<lparr>kmm := m\<rparr>) (net_iobase w + VIRTIO_PCI_QUEUE_PFN) (ucast (drop_bit 12 p)),
                 vq\<lparr>raw_pages := p, pfn := drop_bit 12 p, desc := p, avail := p + desc_size, used := p + used_offset,
                    last_used_idx := 0, free_head := 0, num_free := queue_size vq\<rparr>, 0))"

definition init_virtqueue :: "hardware \<Rightarrow> 'a virtio_scheme \<Rightarrow> virtqueue \<Rightarrow> u16 \<Rightarrow> ('a virtio_scheme \<times> virtqueue \<times> int) option" where
  "init_virtqueue hw w vq index =
     (let w = outw w (net_iobase w + VIRTIO_PCI_QUEUE_SEL) index in
      case inw hw w (net_iobase w + VIRTIO_PCI_QUEUE_NUM) of (w, n) \<Rightarrow>
      let vq = vq\<lparr>queue_index := index, queue_size := n\<rparr> in
      if n = 0 then Some (w, vq, - 1)
      else place_virtqueue w (if 256 < n then vq\<lparr>queue_size := 256\<rparr> else vq))"

fun read_mac :: "hardware \<Rightarrow> nat list \<Rightarrow> 'a virtio_scheme \<Rightarrow> 'a virtio_scheme" where
  "read_mac hw [] w = w"
| "read_mac hw (i # is) w =
     (case inb hw w (net_iobase w + VIRTIO_PCI_CONFIG_OFFSET + of_nat i) of (w, b) \<Rightarrow>
      read_mac hw is (w\<lparr>card_mac := (card_mac w)[i := b]\<rparr>))"

definition arm_rx :: "'a virtio_scheme \<Rightarrow> nat \<Rightarrow> memory \<Rightarrow> memory" where
  "arm_rx w i m =
     st16 (poke m (desc_at (rx_queue w) i)
             (put_desc (rx_buffers w + of_nat (sizeof_rx_buf * i)) (of_nat sizeof_rx_buf) VRING_DESC_F_WRITE 0))
       (avail_ring (rx_queue w) i) (of_nat i)"

definition num_rx :: "virtqueue \<Rightarrow> nat" where
  "num_rx q = (if unat (queue_size q) < VIRTIO_NET_RX_BUFFERS then unat (queue_size q) else VIRTIO_NET_RX_BUFFERS)"

definition rx_pages :: nat where
  "rx_pages = (sizeof_rx_buf * VIRTIO_NET_RX_BUFFERS + PAGE_SIZE - 1) div PAGE_SIZE"

text \<open>The second half of \<open>virtio_net_init\<close>, after both queues are set up.\<close>

definition init_buffers :: "'a virtio_scheme \<Rightarrow> ('a virtio_scheme \<times> int) option" where
  "init_buffers w =
     (case alloc_pages (kmm w) (of_nat rx_pages) of
        None \<Rightarrow> None
      | Some (m, p) \<Rightarrow>
     (case alloc_pages m 1 of
        None \<Rightarrow> None
      | Some (m, t) \<Rightarrow>
         (let w = w\<lparr>kmm := m, rx_buffers := p, tx_buffer := t\<rparr> in
          if p = 0 \<or> t = 0 then Some (w, - 1)
          else
            let w = set_mem w (kmemset (kmemset (vmem w) p 0 (rx_pages * PAGE_SIZE)) t 0 PAGE_SIZE);
                q = rx_queue w;
                w = set_mem w (fold (arm_rx w) [0..<num_rx q] (vmem w));
                w = set_mem w (st16 (st16 (vmem w) (avail_flags q) 0) (avail_idx q) (of_nat (num_rx q)));
                w = outw w (net_iobase w + VIRTIO_PCI_QUEUE_NOTIFY) 0;
                w = outb w (net_iobase w + VIRTIO_PCI_STATUS)
                      (VIRTIO_STATUS_ACKNOWLEDGE OR VIRTIO_STATUS_DRIVER OR VIRTIO_STATUS_DRIVER_OK) in
            Some (w\<lparr>card_present := True\<rparr>, 0))))"

text \<open>The first half: the handshake with the device.\<close>

definition init_device :: "hardware \<Rightarrow> 'a virtio_scheme \<Rightarrow> pci_device \<Rightarrow> 'a virtio_scheme" where
  "init_device hw w dev =
     (let w = w\<lparr>net_iobase := ucast (pd_bar dev ! 0)\<rparr> in
      case pci_read_config_16 hw w (pd_bus dev) (pd_slot dev) (pd_func dev) PCI_REG_COMMAND of (w, pci_cmd) \<Rightarrow>
      let w = pci_write_config_16 w (pd_bus dev) (pd_slot dev) (pd_func dev) PCI_REG_COMMAND
                (pci_cmd OR (PCI_COMMAND_IO OR PCI_COMMAND_MASTER));
          w = outb w (net_iobase w + VIRTIO_PCI_STATUS) 0;
          w = outb w (net_iobase w + VIRTIO_PCI_STATUS) VIRTIO_STATUS_ACKNOWLEDGE;
          w = outb w (net_iobase w + VIRTIO_PCI_STATUS) (VIRTIO_STATUS_ACKNOWLEDGE OR VIRTIO_STATUS_DRIVER) in
      case inl hw w (net_iobase w + VIRTIO_PCI_HOST_FEATURES) of (w, host_features) \<Rightarrow>
      let w = outl w (net_iobase w + VIRTIO_PCI_GUEST_FEATURES) (host_features AND (VIRTIO_NET_F_MAC OR VIRTIO_NET_F_STATUS)) in
      if host_features AND VIRTIO_NET_F_MAC \<noteq> 0 then read_mac hw [0..<6] w else w)"

definition virtio_net_init :: "hardware \<Rightarrow> 'a virtio_scheme \<Rightarrow> ('a virtio_scheme \<times> int) option" where
  "virtio_net_init hw w =
     (let dev = (case pci_find_device w VIRTIO_VENDOR_ID VIRTIO_DEV_NET_LEGACY of
                   None \<Rightarrow> pci_find_class w 0x02 0xFF
                 | Some d \<Rightarrow> Some d);
          w = w\<lparr>net_pci_dev := dev\<rparr> in
      case dev of
        None \<Rightarrow> Some (w\<lparr>card_present := False\<rparr>, - 1)
      | Some d \<Rightarrow>
         (let w = init_device hw w (pci_device_list w ! d) in
          case init_virtqueue hw w (rx_queue w) 0 of
            None \<Rightarrow> None
          | Some (w, vq, r) \<Rightarrow>
             (let w = w\<lparr>rx_queue := vq\<rparr> in
              if r \<noteq> 0 then Some (w, - 1)
              else
                case init_virtqueue hw w (tx_queue w) 1 of
                  None \<Rightarrow> None
                | Some (w, vq, r) \<Rightarrow>
                   (let w = w\<lparr>tx_queue := vq\<rparr> in
                    if r \<noteq> 0 then Some (w, - 1) else init_buffers w))))"

definition virtio_net_is_present :: "'a virtio_scheme \<Rightarrow> bool" where
  "virtio_net_is_present w = card_present w"

definition virtio_net_get_mac :: "'a virtio_scheme \<Rightarrow> bytes" where
  "virtio_net_get_mac w = take 6 (card_mac w)"

text \<open>Filling the buffer and the ring, up to the notification.\<close>

definition tx_queued :: "'a virtio_scheme \<Rightarrow> bytes \<Rightarrow> 'a virtio_scheme" where
  "tx_queued w data =
     (let q = tx_queue w;
          m = poke (kmemset (vmem w) (tx_buffer w) 0 VIRTIO_NET_HDR_SIZE) (tx_buffer w + of_nat VIRTIO_NET_HDR_SIZE) data;
          m = poke m (desc_at q 0) (put_desc (tx_buffer w) (of_nat (VIRTIO_NET_HDR_SIZE + length data)) 0 0);
          slot = ld16 m (avail_idx q) mod queue_size q;
          m = st16 m (avail_ring q (unat slot)) 0;
          m = st16 m (avail_idx q) (ld16 m (avail_idx q) + 1) in
      outw (set_mem w m) (net_iobase w + VIRTIO_PCI_QUEUE_NOTIFY) 1)"

fun wait_tx :: "dma \<Rightarrow> nat \<Rightarrow> 'a virtio_scheme \<Rightarrow> 'a virtio_scheme" where
  "wait_tx dma 0 w = w"
| "wait_tx dma (Suc timeout) w =
     (let w = look dma w in
      if last_used_idx (tx_queue w) \<noteq> ld16 (vmem w) (used_idx (tx_queue w))
      then w\<lparr>tx_queue := (tx_queue w)\<lparr>last_used_idx := last_used_idx (tx_queue w) + 1\<rparr>\<rparr>
      else wait_tx dma timeout w)"

definition virtio_net_send_packet :: "dma \<Rightarrow> 'a virtio_scheme \<Rightarrow> bytes option \<Rightarrow> 'a virtio_scheme \<times> int" where
  "virtio_net_send_packet dma w data =
     (case data of
        None \<Rightarrow> (w, - 1)
      | Some data \<Rightarrow>
          if \<not> card_present w \<or> length data = 0 \<or> MAX_PKT_SIZE < length data then (w, - 1)
          else (wait_tx dma 500000 (tx_queued w data), int (length data)))"

text \<open>
  \<open>virtio_net_poll_packet\<close>; the bytes it copies to the caller's buffer are returned, and their
  number is the C result.
\<close>

definition virtio_net_poll_packet :: "dma \<Rightarrow> 'a virtio_scheme \<Rightarrow> nat \<Rightarrow> 'a virtio_scheme \<times> bytes" where
  "virtio_net_poll_packet dma w max_len =
     (if \<not> card_present w \<or> max_len = 0 then (w, [])
      else
        let w = look dma w; q = rx_queue w in
        if last_used_idx q = ld16 (vmem w) (used_idx q) then (w, [])
        else
          let used_slot = last_used_idx q mod queue_size q;
              desc_id = ldw32 (vmem w) (used_ring q (unat used_slot));
              total_len = ldw32 (vmem w) (used_ring q (unat used_slot) + 4);
              out = (if VIRTIO_NET_HDR_SIZE < unat total_len
                     then peek (vmem w) (rx_buffers w + of_nat (sizeof_rx_buf * unat desc_id) + of_nat VIRTIO_NET_HDR_SIZE)
                            (min (unat total_len - VIRTIO_NET_HDR_SIZE) max_len)
                     else []);
              q = q\<lparr>last_used_idx := last_used_idx q + 1\<rparr>;
              avail_slot = ld16 (vmem w) (avail_idx q) mod queue_size q;
              m = st16 (vmem w) (avail_ring q (unat avail_slot)) (ucast desc_id);
              m = st16 m (avail_idx q) (ld16 m (avail_idx q) + 1);
              w = (set_mem w m)\<lparr>rx_queue := q\<rparr> in
          (outw w (net_iobase w + VIRTIO_PCI_QUEUE_NOTIFY) 0, out))"

end
