(* ===== verification/VirtioRing.thy ===== *)
theory VirtioRing
  imports Virtio
begin

text \<open>
  Correctness of the rings of the virtio driver.  \<open>device_receive\<close> is what the virtio
  specification says of a card that gets a frame from the wire: it takes the next descriptor of
  the available ring, writes header and frame to its buffer, enters it into the used ring and
  advances the used index; without a free descriptor it drops the frame.
\<close>

section \<open>Disjoint accesses\<close>

definition sep :: "u64 \<Rightarrow> nat \<Rightarrow> u64 \<Rightarrow> nat \<Rightarrow> bool" where
  "sep a n b k \<longleftrightarrow> unat a + n \<le> 2 ^ 64 \<and> unat b + k \<le> 2 ^ 64 \<and> (unat a + n \<le> unat b \<or> unat b + k \<le> unat a)"

lemma unat_offset: "unat base + k < 2 ^ 64 \<Longrightarrow> unat (base + of_nat k) = unat base + k" for base :: u64
  by (simp add: unat_word_ariths unat_of_nat)

lemma poke_other:
  assumes "unat b + length bs \<le> 2 ^ 64" and "unat x < unat b \<or> unat b + length bs \<le> unat x"
  shows "poke m b bs x = m x"
proof -
  have "length bs \<le> unat (x - b)"
    using assms unsigned_less [of x, where 'a = nat] unsigned_less [of b, where 'a = nat] by (auto simp: unat_sub_if')
  then show ?thesis by (simp add: poke_def)
qed

lemma peek_poke_other [mem_simps]:
  assumes "sep a n b (length bs)"
  shows "peek (poke m b bs) a n = peek m a n"
proof -
  have "poke m b bs (a + of_nat i) = m (a + of_nat i)" if "i < n" for i
    by (rule poke_other) (use assms that in \<open>auto simp: sep_def unat_offset\<close>)
  then show ?thesis by (simp add: peek_def)
qed

lemma peek_poke_part:
  assumes "j + n \<le> length bs" and "length bs < 2 ^ 64"
  shows "peek (poke m a bs) (a + of_nat j) n = take n (drop j bs)"
proof (rule nth_equalityI)
  fix i assume "i < length (peek (poke m a bs) (a + of_nat j) n)"
  then have i: "i < n" by (simp add: peek_def)
  have "unat (a + of_nat j + of_nat i - a) = j + i"
  proof -
    have "a + of_nat j + of_nat i - a = (of_nat (j + i) :: u64)" by simp
    also have "unat (of_nat (j + i) :: u64) = j + i"
      using assms i by (intro of_nat_inverse) auto
    finally show ?thesis .
  qed
  then show "peek (poke m a bs) (a + of_nat j) n ! i = take n (drop j bs) ! i"
    using i assms(1) by (simp add: peek_def poke_def)
qed (use assms in \<open>simp add: peek_def\<close>)

lemma peek_poke_same: "length bs < 2 ^ 64 \<Longrightarrow> peek (poke m a bs) a (length bs) = bs"
  using peek_poke_part [of 0 "length bs" bs m a] by simp

lemma length_peek [simp]: "length (peek m a n) = n"
  by (simp add: peek_def)

lemma ld16_other: "sep a 2 b (length bs) \<Longrightarrow> ld16 (poke m b bs) a = ld16 m a"
  by (simp add: ld16_def mem_simps)

lemma ldw32_other: "sep a 4 b (length bs) \<Longrightarrow> ldw32 (poke m b bs) a = ldw32 m a"
  by (simp add: ldw32_def mem_simps)

lemma ld16_st16 [simp]: "ld16 (st16 m a v) a = v"
  using peek_poke_same [of "put16 v" m a] get16_put16 [of "[]" 0 v "[]"] by (simp add: ld16_def st16_def)

lemma ldw32_poke: "length xs = 4 * k \<Longrightarrow> 4 * k + 4 + length ys < 2 ^ 64 \<Longrightarrow> ldw32 (poke m a (xs @ put32 v @ ys)) (a + of_nat (4 * k)) = v"
  using peek_poke_part [of "4 * k" 4 "xs @ put32 v @ ys" m a] get32_put32 [of "[]" 0 v "[]"] by (simp add: ldw32_def)

section \<open>The layout of a queue\<close>

definition uoff :: "nat \<Rightarrow> nat" where
  "uoff n = (18 * n + 4 + 4095) div 4096 * 4096"

definition queue_bytes :: "nat \<Rightarrow> nat" where
  "queue_bytes n = uoff n + 4 + 8 * n"

definition queue_ok :: "virtqueue \<Rightarrow> bool" where
  "queue_ok q \<longleftrightarrow> 0 < queue_size q \<and> unat (queue_size q) \<le> 256 \<and> unat (queue_size q) dvd 65536 \<and>
     desc q = raw_pages q \<and> avail q = raw_pages q + of_nat (16 * unat (queue_size q)) \<and>
     used q = raw_pages q + of_nat (uoff (unat (queue_size q))) \<and>
     unat (raw_pages q) + queue_bytes (unat (queue_size q)) < 2 ^ 63"

lemma uoff_ge: "18 * n + 4 \<le> uoff n"
  by (simp add: uoff_def)

text \<open>The addresses of the ring entries as numbers.\<close>

lemma queue_addrs:
  assumes "queue_ok q"
  defines "r \<equiv> unat (raw_pages q)" and "n \<equiv> unat (queue_size q)"
  shows "i < n \<Longrightarrow> unat (desc_at q i) = r + 16 * i"
    and "unat (avail_flags q) = r + 16 * n" and "unat (avail_idx q) = r + 16 * n + 2"
    and "i < n \<Longrightarrow> unat (avail_ring q i) = r + 16 * n + 4 + 2 * i"
    and "unat (used_idx q) = r + uoff n + 2" and "i < n \<Longrightarrow> unat (used_ring q i) = r + uoff n + 4 + 8 * i"
    and "i < n \<Longrightarrow> unat (used_ring q i + 4) = r + uoff n + 8 + 8 * i"
    and "18 * n + 4 \<le> uoff n" and "r + uoff n + 4 + 8 * n < 2 ^ 63"
proof -
  note q = assms(1) [unfolded queue_ok_def queue_bytes_def, folded r_def n_def]
  show u: "18 * n + 4 \<le> uoff n" and e: "r + uoff n + 4 + 8 * n < 2 ^ 63"
    using q uoff_ge [of n] by simp_all
  have k: "unat (raw_pages q + of_nat k) = r + k" if "k \<le> uoff n + 4 + 8 * n" for k
    unfolding r_def by (rule unat_offset) (use that e in \<open>simp add: r_def\<close>)
  have a: "avail q + of_nat k = raw_pages q + of_nat (16 * n + k)" and s: "used q + of_nat k = raw_pages q + of_nat (uoff n + k)" for k
    using q by (simp_all add: n_def)
  show "unat (desc_at q i) = r + 16 * i" if "i < n"
    using k [of "16 * i"] that u q by (simp add: desc_at_def)
  show "unat (avail_flags q) = r + 16 * n" and "unat (avail_idx q) = r + 16 * n + 2" and "unat (used_idx q) = r + uoff n + 2"
    using k [of "16 * n"] k [of "16 * n + 2"] k [of "uoff n + 2"] a [of 0] a [of 2] s [of 2] u
    by (simp_all add: avail_flags_def avail_idx_def used_idx_def ac_simps)
  show "unat (avail_ring q i) = r + 16 * n + 4 + 2 * i" if "i < n"
    unfolding avail_ring_def a using k [of "16 * n + (4 + 2 * i)"] that u by simp
  show "unat (used_ring q i) = r + uoff n + 4 + 8 * i" if "i < n"
    unfolding used_ring_def s using k [of "uoff n + (4 + 8 * i)"] that by simp
  have "used_ring q i + 4 = raw_pages q + of_nat (uoff n + (8 + 8 * i))"
    unfolding used_ring_def s by simp
  then show "unat (used_ring q i + 4) = r + uoff n + 8 + 8 * i" if "i < n"
    using k [of "uoff n + (8 + 8 * i)"] that by (simp only:)
qed


section \<open>The card\<close>

definition ldw64 :: "memory \<Rightarrow> u64 \<Rightarrow> u64" where
  "ldw64 m a = get64 (peek m a 8) 0"

definition device_receive :: "virtqueue \<Rightarrow> bytes \<Rightarrow> bytes \<Rightarrow> memory \<Rightarrow> memory" where
  "device_receive q hdr frame m =
     (let u = ld16 m (used_idx q) in
      if u = ld16 m (avail_idx q) then m
      else
        let d = ld16 m (avail_ring q (unat u mod unat (queue_size q)));
            addr = ldw64 m (desc_at q (unat d));
            len = ldw32 m (desc_at q (unat d) + 8) in
        if unat len < length hdr + length frame then m
        else st16 (poke (poke m addr (hdr @ frame)) (used_ring q (unat u mod unat (queue_size q)))
                     (put32 (ucast d) @ put32 (of_nat (length hdr + length frame))))
               (used_idx q) (u + 1))"

section \<open>The receive queue\<close>

text \<open>
  The slot of the i-th entry after the last one that the driver has taken, the descriptors in the
  order in which they will be used, the number of frames the driver has not taken yet, and
  these frames.
\<close>

definition rx_slot :: "virtqueue \<Rightarrow> nat \<Rightarrow> nat" where
  "rx_slot q i = unat (last_used_idx q + of_nat i) mod unat (queue_size q)"

definition rx_id :: "virtqueue \<Rightarrow> memory \<Rightarrow> nat \<Rightarrow> nat" where
  "rx_id q m i = unat (ld16 m (avail_ring q (rx_slot q i)))"

definition rx_count :: "virtqueue \<Rightarrow> memory \<Rightarrow> nat" where
  "rx_count q m = unat (ld16 m (used_idx q) - last_used_idx q)"

definition rx_len :: "virtqueue \<Rightarrow> memory \<Rightarrow> nat \<Rightarrow> nat" where
  "rx_len q m i = unat (ldw32 m (used_ring q (rx_slot q i) + 4))"

definition rx_frame :: "virtqueue \<Rightarrow> u64 \<Rightarrow> memory \<Rightarrow> nat \<Rightarrow> bytes" where
  "rx_frame q bufs m i = peek m (bufs + of_nat (sizeof_rx_buf * rx_id q m i + VIRTIO_NET_HDR_SIZE)) (rx_len q m i - VIRTIO_NET_HDR_SIZE)"

definition rx_pending :: "virtqueue \<Rightarrow> u64 \<Rightarrow> memory \<Rightarrow> bytes list" where
  "rx_pending q bufs m = map (rx_frame q bufs m) [0..<rx_count q m]"

definition rx_layout :: "virtqueue \<Rightarrow> u64 \<Rightarrow> bool" where
  "rx_layout q bufs \<longleftrightarrow> queue_ok q \<and> unat bufs + sizeof_rx_buf * VIRTIO_NET_RX_BUFFERS < 2 ^ 63 \<and>
     sep (raw_pages q) (queue_bytes (unat (queue_size q))) bufs (sizeof_rx_buf * VIRTIO_NET_RX_BUFFERS)"

definition rx_inv :: "virtqueue \<Rightarrow> u64 \<Rightarrow> memory \<Rightarrow> bool" where
  "rx_inv q bufs m \<longleftrightarrow> rx_layout q bufs \<and>
     ld16 m (avail_idx q) = last_used_idx q + of_nat (num_rx q) \<and>
     rx_count q m \<le> num_rx q \<and>
     inj_on (rx_id q m) {..<num_rx q} \<and> (\<forall>i < num_rx q. rx_id q m i < num_rx q) \<and>
     (\<forall>d < num_rx q. peek m (desc_at q d) 16 =
        put_desc (bufs + of_nat (sizeof_rx_buf * d)) (of_nat sizeof_rx_buf) VRING_DESC_F_WRITE 0) \<and>
     (\<forall>i < rx_count q m. unat (ldw32 m (used_ring q (rx_slot q i))) = rx_id q m i \<and>
        VIRTIO_NET_HDR_SIZE \<le> rx_len q m i \<and> rx_len q m i \<le> sizeof_rx_buf)"

lemma rx_slot_eq:
  assumes "queue_ok q"
  shows "rx_slot q i = (unat (last_used_idx q) + i) mod unat (queue_size q)"
proof -
  have "unat (last_used_idx q + of_nat i) = (unat (last_used_idx q) + i) mod 65536"
    by (simp add: unat_word_ariths unat_of_nat mod_simps)
  then show ?thesis
    using assms by (simp add: rx_slot_def queue_ok_def mod_mod_cancel)
qed

lemma rx_slot_less: "queue_ok q \<Longrightarrow> rx_slot q i < unat (queue_size q)"
  by (simp add: rx_slot_def queue_ok_def word_less_nat_alt)

lemma rx_slot_inj:
  assumes "queue_ok q" and "i < j" and "j < i + unat (queue_size q)"
  shows "rx_slot q i \<noteq> rx_slot q j"
proof
  assume "rx_slot q i = rx_slot q j"
  then have "i mod unat (queue_size q) = j mod unat (queue_size q)"
    using assms(1) by (auto simp: rx_slot_eq intro: mod_add_cancel_nat)
  then show False
    using assms(2, 3) by (metis add_diff_inverse_nat less_imp_le_nat mod_eq_dvd_iff_nat nat_add_left_cancel_less nat_dvd_not_less not_le zero_less_diff)
qed


lemma unat_buf:
  assumes "rx_layout q bufs" and "d < 16" and "o' \<le> 1552"
  shows "unat (bufs + of_nat (sizeof_rx_buf * d + o')) = unat bufs + 1552 * d + o'"
proof -
  have "unat bufs + (sizeof_rx_buf * d + o') < 2 ^ 64"
    using assms by (simp add: rx_layout_def sizeof_rx_buf_def VIRTIO_NET_RX_BUFFERS_def)
  from unat_offset [OF this] show ?thesis
    by (simp only: sizeof_rx_buf_def ac_simps)
qed

lemma num_rx_le: "num_rx q \<le> 16" "num_rx q \<le> unat (queue_size q)"
  by (auto simp: num_rx_def VIRTIO_NET_RX_BUFFERS_def)

lemma rx_layout_queue: "rx_layout q bufs \<Longrightarrow> queue_ok q"
  by (simp add: rx_layout_def)

text \<open>The buffers do not overlap the rings.\<close>

lemma sep_rings_bufs:
  assumes lay: "rx_layout q bufs" and d: "d < 16" and o': "o' + l \<le> 1552"
  defines "a \<equiv> bufs + of_nat (sizeof_rx_buf * d + o')" and "n \<equiv> unat (queue_size q)"
  shows "sep (avail_idx q) 2 a l" "i < n \<Longrightarrow> sep (avail_ring q i) 2 a l" "sep (used_idx q) 2 a l"
    "i < n \<Longrightarrow> sep (used_ring q i) 4 a l" "i < n \<Longrightarrow> sep (used_ring q i + 4) 4 a l" "i < n \<Longrightarrow> sep (desc_at q i) 16 a l"
    "i < n \<Longrightarrow> sep (used_ring q i) 8 a l"
proof -
  note adr = queue_addrs [OF rx_layout_queue [OF lay]]
  have a: "unat a = unat bufs + 1552 * d + o'"
    unfolding a_def by (rule unat_buf [OF lay d]) (use o' in simp)
  define e where "e = unat bufs + 24832"
  have e: "unat a + l \<le> e" "unat bufs \<le> unat a"
    using a d o' by (simp_all add: e_def)
  define t where "t = unat (raw_pages q) + uoff (unat (queue_size q)) + 4 + 8 * unat (queue_size q)"
  have "t \<le> unat bufs \<or> e \<le> unat (raw_pages q)" "e < 2 ^ 63"
    using lay by (auto simp: rx_layout_def sep_def queue_bytes_def sizeof_rx_buf_def VIRTIO_NET_RX_BUFFERS_def t_def e_def)
  then have s: "sep x n a l" if "unat (raw_pages q) \<le> unat x" "unat x + n \<le> t" for x n
    unfolding sep_def using that e adr(9) t_def by auto
  show "sep (avail_idx q) 2 a l" "i < n \<Longrightarrow> sep (avail_ring q i) 2 a l" "sep (used_idx q) 2 a l"
    "i < n \<Longrightarrow> sep (used_ring q i) 4 a l" "i < n \<Longrightarrow> sep (used_ring q i + 4) 4 a l" "i < n \<Longrightarrow> sep (desc_at q i) 16 a l"
    "i < n \<Longrightarrow> sep (used_ring q i) 8 a l"
    by (rule s; use adr(8) in \<open>simp add: adr(1-7) t_def n_def\<close>)+
qed

lemma sep_commute: "sep a n b k \<longleftrightarrow> sep b k a n"
  by (auto simp: sep_def)

lemma sep_bufs_rings:
  assumes lay: "rx_layout q bufs" and d: "d < 16" and o': "o' + l \<le> 1552"
  defines "a \<equiv> bufs + of_nat (sizeof_rx_buf * d + o')" and "n \<equiv> unat (queue_size q)"
  shows "sep a l (avail_idx q) 2" "sep a l (used_idx q) 2" "i < n \<Longrightarrow> sep a l (avail_ring q i) 2" "i < n \<Longrightarrow> sep a l (used_ring q i) 8"
proof -
  note s = sep_rings_bufs [OF lay d o', folded a_def n_def]
  show "sep a l (avail_idx q) 2" "sep a l (used_idx q) 2" "i < n \<Longrightarrow> sep a l (avail_ring q i) 2" "i < n \<Longrightarrow> sep a l (used_ring q i) 8"
    using s(1-3, 7) by (simp_all add: sep_commute)
qed

lemma sep_bufs:
  assumes "rx_layout q bufs" and "d < 16" and "d' < 16" and "d \<noteq> d'" and "o' + l \<le> 1552" and "p + n \<le> 1552"
  shows "sep (bufs + of_nat (sizeof_rx_buf * d + o')) l (bufs + of_nat (sizeof_rx_buf * d' + p)) n"
proof -
  have "d < d' \<or> d' < d" using assms(4) by auto
  moreover have "unat bufs + 24832 < 2 ^ 63"
    using assms(1) by (simp add: rx_layout_def sizeof_rx_buf_def VIRTIO_NET_RX_BUFFERS_def)
  ultimately show ?thesis
    unfolding sep_def using assms unat_buf [OF assms(1, 2), of o'] unat_buf [OF assms(1, 3), of p] by auto
qed

text \<open>The fields of the rings do not overlap.\<close>

lemma sep_rings:
  assumes q: "queue_ok q"
  defines "n \<equiv> unat (queue_size q)"
  shows "i < n \<Longrightarrow> sep (avail_idx q) 2 (used_ring q i) 8" "sep (avail_idx q) 2 (used_idx q) 2" "i < n \<Longrightarrow> sep (avail_idx q) 2 (avail_ring q i) 2"
    "i < n \<Longrightarrow> j < n \<Longrightarrow> sep (avail_ring q j) 2 (used_ring q i) 8" "j < n \<Longrightarrow> sep (avail_ring q j) 2 (used_idx q) 2"
    "j < n \<Longrightarrow> sep (avail_ring q j) 2 (avail_idx q) 2"
    "i < n \<Longrightarrow> sep (used_idx q) 2 (used_ring q i) 8" "i < n \<Longrightarrow> sep (used_idx q) 2 (avail_ring q i) 2" "sep (used_idx q) 2 (avail_idx q) 2"
    "j < n \<Longrightarrow> sep (used_ring q j) 4 (used_idx q) 2" "j < n \<Longrightarrow> sep (used_ring q j + 4) 4 (used_idx q) 2"
    "j < n \<Longrightarrow> sep (used_ring q j) 4 (avail_idx q) 2" "j < n \<Longrightarrow> sep (used_ring q j + 4) 4 (avail_idx q) 2"
    "i < n \<Longrightarrow> j < n \<Longrightarrow> sep (used_ring q j) 4 (avail_ring q i) 2" "i < n \<Longrightarrow> j < n \<Longrightarrow> sep (used_ring q j + 4) 4 (avail_ring q i) 2"
    "i < n \<Longrightarrow> j < n \<Longrightarrow> sep (desc_at q j) 16 (used_ring q i) 8" "j < n \<Longrightarrow> sep (desc_at q j) 16 (used_idx q) 2"
    "i < n \<Longrightarrow> j < n \<Longrightarrow> sep (desc_at q j) 16 (avail_ring q i) 2" "j < n \<Longrightarrow> sep (desc_at q j) 16 (avail_idx q) 2"
  using queue_addrs(8, 9) [OF q] by (simp_all add: sep_def n_def queue_addrs(1-7) [OF q])

lemma sep_ring_entries:
  assumes q: "queue_ok q" and i: "i < unat (queue_size q)" and j: "j < unat (queue_size q)" and "i \<noteq> j"
  shows "sep (avail_ring q i) 2 (avail_ring q j) 2" "sep (used_ring q i) 4 (used_ring q j) 8" "sep (used_ring q i + 4) 4 (used_ring q j) 8"
proof -
  have "i < j \<or> j < i" using assms(4) by auto
  then show "sep (avail_ring q i) 2 (avail_ring q j) 2" "sep (used_ring q i) 4 (used_ring q j) 8" "sep (used_ring q i + 4) 4 (used_ring q j) 8"
    using i j queue_addrs(8, 9) [OF q] by (auto simp: sep_def queue_addrs(1-7) [OF q])
qed

text \<open>What the descriptors say.\<close>

lemma peek_part: "j + k \<le> n \<Longrightarrow> peek m (a + of_nat j) k = take k (drop j (peek m a n))"
  by (rule nth_equalityI) (simp_all add: peek_def ac_simps)

lemma get64_halves: "get64 (put32 (ucast a) @ put32 (ucast (drop_bit 32 a)) @ zs) 0 = a"
proof -
  have "get32 (put32 (ucast a) @ put32 (ucast (drop_bit 32 a)) @ zs) 0 = ucast a"
    using get32_put32 [of "[]" 0] by simp
  moreover have "get32 (put32 (ucast a) @ put32 (ucast (drop_bit 32 a)) @ zs) 4 = ucast (drop_bit 32 a)"
    using get32_put32 [of "put32 (ucast a)" 4] by simp
  ultimately show ?thesis
    by (intro bit_word_eqI) (auto simp: get64_def bit_simps)
qed

lemma desc_fields:
  assumes "peek m a 16 = put_desc addr len flags nxt"
  shows "ldw64 m a = addr" and "ldw32 m (a + 8) = len"
proof -
  have "peek m a 8 = take 8 (put_desc addr len flags nxt)"
    using peek_part [of 0 8 16 m a] assms by simp
  also have "\<dots> = put32 (ucast addr) @ put32 (ucast (drop_bit 32 addr))"
    by (simp add: put_desc_def)
  finally show "ldw64 m a = addr"
    using get64_halves [of addr "[]"] by (simp add: ldw64_def)
  have "peek m (a + 8) 4 = put32 len"
    using peek_part [of 8 4 16 m a] assms by (simp add: put_desc_def)
  then show "ldw32 m (a + 8) = len"
    using get32_put32 [of "[]" 0 len "[]"] by (simp add: ldw32_def)
qed

section \<open>A frame arrives\<close>

lemma rx_invD:
  assumes "rx_inv q bufs m"
  shows "rx_layout q bufs" "queue_ok q" "ld16 m (avail_idx q) = last_used_idx q + of_nat (num_rx q)" "rx_count q m \<le> num_rx q"
    "inj_on (rx_id q m) {..<num_rx q}" "i < num_rx q \<Longrightarrow> rx_id q m i < num_rx q"
    "d < num_rx q \<Longrightarrow> peek m (desc_at q d) 16 = put_desc (bufs + of_nat (sizeof_rx_buf * d)) (of_nat sizeof_rx_buf) VRING_DESC_F_WRITE 0"
    "i < rx_count q m \<Longrightarrow> unat (ldw32 m (used_ring q (rx_slot q i))) = rx_id q m i"
    "i < rx_count q m \<Longrightarrow> VIRTIO_NET_HDR_SIZE \<le> rx_len q m i" "i < rx_count q m \<Longrightarrow> rx_len q m i \<le> sizeof_rx_buf"
  using assms by (auto simp: rx_inv_def rx_layout_def)

lemma used_idx_count: "ld16 m (used_idx q) = last_used_idx q + of_nat (rx_count q m)"
  by (simp add: rx_count_def)

lemma of_nat_u16_eq: "a \<le> 16 \<Longrightarrow> b \<le> 16 \<Longrightarrow> (of_nat a :: u16) = of_nat b \<longleftrightarrow> a = b"
  by (simp add: word_of_nat_eq_iff take_bit_nat_eq_self)


lemma receive_full:
  assumes "rx_inv q bufs m" and "rx_count q m = num_rx q"
  shows "device_receive q hdr frame m = m"
  using rx_invD(3) [OF assms(1)] assms(2) by (simp add: device_receive_def used_idx_count)

lemma receive_room:
  assumes inv: "rx_inv q bufs m" and k: "rx_count q m < num_rx q" and hdr: "length hdr = VIRTIO_NET_HDR_SIZE"
    and len: "length hdr + length frame \<le> sizeof_rx_buf"
  defines "k \<equiv> rx_count q m"
  shows "device_receive q hdr frame m =
    st16 (poke (poke m (bufs + of_nat (sizeof_rx_buf * rx_id q m k)) (hdr @ frame)) (used_ring q (rx_slot q k))
       (put32 (of_nat (rx_id q m k)) @ put32 (of_nat (length hdr + length frame)))) (used_idx q) (last_used_idx q + of_nat (Suc k))"
proof -
  have k': "k < num_rx q" using k by (simp add: k_def)
  let ?d = "rx_id q m k"
  have d: "?d < num_rx q" by (rule rx_invD(6) [OF inv k'])
  have u: "ld16 m (used_idx q) = last_used_idx q + of_nat k" by (simp add: k_def used_idx_count)
  have ne: "ld16 m (used_idx q) \<noteq> ld16 m (avail_idx q)"
    using rx_invD(3) [OF inv] k' num_rx_le [of q] by (simp add: u of_nat_u16_eq)
  have slot: "unat (ld16 m (used_idx q)) mod unat (queue_size q) = rx_slot q k"
    by (simp add: u rx_slot_def)
  have dd: "unat (ld16 m (avail_ring q (rx_slot q k))) = ?d" by (simp add: rx_id_def)
  note desc = desc_fields [OF rx_invD(7) [OF inv d]]
  have "(ucast (ld16 m (avail_ring q (rx_slot q k))) :: u32) = of_nat ?d"
    by (simp add: rx_id_def)
  moreover have "unat (of_nat sizeof_rx_buf :: u32) = sizeof_rx_buf"
    by (simp add: sizeof_rx_buf_def)
  ultimately show ?thesis
    unfolding device_receive_def Let_def slot using ne desc len
    by (simp add: dd) (simp add: u ac_simps)
qed

lemma receive_reads:
  assumes inv: "rx_inv q bufs m" and k: "rx_count q m < num_rx q" and hdr: "length hdr = VIRTIO_NET_HDR_SIZE"
    and len: "length hdr + length frame \<le> sizeof_rx_buf"
  defines "k \<equiv> rx_count q m" and "m' \<equiv> device_receive q hdr frame m"
  shows "ld16 m' (avail_idx q) = ld16 m (avail_idx q)" "rx_id q m' = rx_id q m" "rx_count q m' = Suc k"
    "d < num_rx q \<Longrightarrow> peek m' (desc_at q d) 16 = peek m (desc_at q d) 16"
    "i < k \<Longrightarrow> ldw32 m' (used_ring q (rx_slot q i)) = ldw32 m (used_ring q (rx_slot q i)) \<and> rx_len q m' i = rx_len q m i"
    "ldw32 m' (used_ring q (rx_slot q k)) = of_nat (rx_id q m k)" "rx_len q m' k = length hdr + length frame"
    "i < k \<Longrightarrow> rx_frame q bufs m' i = rx_frame q bufs m i" "rx_frame q bufs m' k = frame"
proof -
  let ?D = "rx_id q m k"
  define a where "a = bufs + of_nat (sizeof_rx_buf * ?D)"
  define e where "e = put32 (of_nat ?D) @ put32 (of_nat (length hdr + length frame))"
  define u where "u = last_used_idx q + of_nat (Suc k)"
  define m1 where "m1 = poke m a (hdr @ frame)"
  define m2 where "m2 = poke m1 (used_ring q (rx_slot q k)) e"
  have m': "m' = poke m2 (used_idx q) (put16 u)"
    using receive_room [OF inv k hdr len, folded k_def] by (simp only: m'_def m1_def m2_def st16_def a_def e_def u_def)
  have le: "length e = 8" by (simp add: e_def)
  note lay = rx_invD(1) [OF inv] and qok = rx_invD(2) [OF inv]
  have k': "k < num_rx q" using k by (simp add: k_def)
  have D: "?D < 16" using rx_invD(6) [OF inv k'] num_rx_le [of q] by simp
  have L: "0 + (length hdr + length frame) \<le> 1552" using len by (simp add: sizeof_rx_buf_def)
  note slot = rx_slot_less [OF qok]
  note seps = sep_rings_bufs [OF lay D L, unfolded add_0_right, folded a_def] sep_rings [OF qok] le
  show "ld16 m' (avail_idx q) = ld16 m (avail_idx q)"
    by (simp add: m' m2_def m1_def ld16_other seps slot)
  show id': "rx_id q m' = rx_id q m"
    by (rule ext) (simp add: rx_id_def m' m2_def m1_def ld16_other seps slot)
  show "peek m' (desc_at q d) 16 = peek m (desc_at q d) 16" if "d < num_rx q"
    using that num_rx_le(2) [of q] by (simp add: m' m2_def m1_def peek_poke_other seps slot)
  have "ld16 m' (used_idx q) = last_used_idx q + of_nat (Suc k)"
    unfolding m' u_def using ld16_st16 [of m2 "used_idx q"] by (simp add: st16_def)
  moreover have "unat (of_nat (Suc k) :: u16) = Suc k"
    using k' num_rx_le(1) [of q] by (intro of_nat_inverse) auto
  ultimately show "rx_count q m' = Suc k" by (simp add: rx_count_def)
  show old: "ldw32 m' (used_ring q (rx_slot q i)) = ldw32 m (used_ring q (rx_slot q i)) \<and> rx_len q m' i = rx_len q m i" if "i < k" for i
  proof -
    have "rx_slot q i \<noteq> rx_slot q k"
      by (rule rx_slot_inj [OF qok that]) (use k' num_rx_le(2) [of q] in simp)
    then show ?thesis
      by (simp add: rx_len_def m' m2_def m1_def ldw32_other seps slot sep_ring_entries [OF qok])
  qed
  have e2: "ldw32 m2 (used_ring q (rx_slot q k)) = of_nat ?D" "ldw32 m2 (used_ring q (rx_slot q k) + 4) = of_nat (length hdr + length frame)"
    using ldw32_poke [of "[]" 0 "put32 (of_nat (length hdr + length frame))" m1 "used_ring q (rx_slot q k)" "of_nat ?D"]
      ldw32_poke [of "put32 (of_nat ?D)" 1 "[]" m1 "used_ring q (rx_slot q k)" "of_nat (length hdr + length frame)"]
    by (simp_all add: m2_def e_def)
  show "ldw32 m' (used_ring q (rx_slot q k)) = of_nat ?D"
    using e2(1) by (simp add: m' ldw32_other seps slot)
  have "unat (of_nat (length hdr + length frame) :: u32) = length hdr + length frame"
    using L by (intro of_nat_inverse) auto
  then show lenk: "rx_len q m' k = length hdr + length frame"
    using e2(2) by (simp add: rx_len_def m' ldw32_other seps slot)
  have b: "peek m' (bufs + of_nat (sizeof_rx_buf * d + VIRTIO_NET_HDR_SIZE)) n = peek m1 (bufs + of_nat (sizeof_rx_buf * d + VIRTIO_NET_HDR_SIZE)) n"
    if "d < 16" "VIRTIO_NET_HDR_SIZE + n \<le> sizeof_rx_buf" for d n
  proof -
    have "VIRTIO_NET_HDR_SIZE + n \<le> 1552" using that(2) by (simp add: sizeof_rx_buf_def)
    note s = sep_bufs_rings [OF lay that(1) this]
    then show ?thesis by (simp only: m' m2_def) (simp add: peek_poke_other slot le)
  qed
  have "rx_frame q bufs m' k = peek m1 (a + of_nat VIRTIO_NET_HDR_SIZE) (length frame)"
    using b [of ?D "length frame"] D len hdr lenk id' by (simp add: rx_frame_def a_def ac_simps)
  also have "\<dots> = frame"
    unfolding m1_def using peek_poke_part [of VIRTIO_NET_HDR_SIZE "length frame" "hdr @ frame" m a] L hdr by simp
  finally show "rx_frame q bufs m' k = frame" .
  show "rx_frame q bufs m' i = rx_frame q bufs m i" if i: "i < k"
  proof -
    have i': "i < num_rx q" using i k' by simp
    then have "rx_id q m i \<noteq> ?D"
      using rx_invD(5) [OF inv] i k' by (auto dest: inj_onD)
    moreover have Di: "rx_id q m i < 16" using rx_invD(6) [OF inv i'] num_rx_le [of q] by simp
    moreover have n: "VIRTIO_NET_HDR_SIZE + (rx_len q m i - VIRTIO_NET_HDR_SIZE) \<le> sizeof_rx_buf"
      using rx_invD(9, 10) [OF inv] i by (simp add: k_def)
    ultimately have "sep (bufs + of_nat (sizeof_rx_buf * rx_id q m i + VIRTIO_NET_HDR_SIZE)) (rx_len q m i - VIRTIO_NET_HDR_SIZE) a (length (hdr @ frame))"
      unfolding a_def using sep_bufs [OF lay Di D _, of VIRTIO_NET_HDR_SIZE "rx_len q m i - VIRTIO_NET_HDR_SIZE" 0 "length (hdr @ frame)"] L
      by (simp only: sizeof_rx_buf_def add_0_right) simp
    then show ?thesis
      using b [OF Di n] old [OF i] id' by (simp add: rx_frame_def m1_def peek_poke_other)
  qed
qed

lemma receive_inv:
  assumes inv: "rx_inv q bufs m" and hdr: "length hdr = VIRTIO_NET_HDR_SIZE" and len: "length hdr + length frame \<le> sizeof_rx_buf"
  shows "rx_inv q bufs (device_receive q hdr frame m)"
    and "rx_pending q bufs (device_receive q hdr frame m) = take (num_rx q) (rx_pending q bufs m @ [frame])"
proof -
  let ?m = "device_receive q hdr frame m" and ?k = "rx_count q m"
  have "rx_inv q bufs ?m \<and> rx_pending q bufs ?m = take (num_rx q) (rx_pending q bufs m @ [frame])"
  proof (cases "?k < num_rx q")
    case True
    note r = receive_reads [OF inv True hdr len]
    have d: "rx_id q m ?k < num_rx q" by (rule rx_invD(6) [OF inv True])
    have "unat (of_nat (rx_id q m ?k) :: u32) = rx_id q m ?k"
      using d num_rx_le(1) [of q] by (intro of_nat_inverse) auto
    then have "unat (ldw32 ?m (used_ring q (rx_slot q i))) = rx_id q ?m i \<and> VIRTIO_NET_HDR_SIZE \<le> rx_len q ?m i \<and> rx_len q ?m i \<le> sizeof_rx_buf"
      if "i < Suc ?k" for i
      using that r(5) [of i] r(2, 6, 7) rx_invD(8-10) [OF inv, of i] len hdr by (cases "i = ?k") auto
    then have "rx_inv q bufs ?m"
      unfolding rx_inv_def r(1-3) using rx_invD(1, 3, 5, 6, 7) [OF inv] r(4) True by auto
    moreover have "rx_pending q bufs ?m = rx_pending q bufs m @ [frame]"
      using r(8, 9) by (simp add: rx_pending_def r(3))
    moreover have "length (rx_pending q bufs m) = ?k" by (simp add: rx_pending_def)
    ultimately show ?thesis using True by simp
  next
    case False
    then have "?k = num_rx q" using rx_invD(4) [OF inv] by simp
    then show ?thesis
      using inv by (simp add: receive_full [OF inv]) (simp add: rx_pending_def)
  qed
  then show "rx_inv q bufs ?m" and "rx_pending q bufs ?m = take (num_rx q) (rx_pending q bufs m @ [frame])" by auto
qed

text \<open>What the card does between two looks of the driver: it receives a list of frames, each with its header.\<close>

definition device_receives :: "virtqueue \<Rightarrow> (bytes \<times> bytes) list \<Rightarrow> memory \<Rightarrow> memory" where
  "device_receives q = fold (\<lambda>(hdr, frame). device_receive q hdr frame)"

definition frames_fit :: "(bytes \<times> bytes) list \<Rightarrow> bool" where
  "frames_fit fs = (\<forall>(hdr, frame) \<in> set fs. length hdr = VIRTIO_NET_HDR_SIZE \<and> length hdr + length frame \<le> sizeof_rx_buf)"

lemma receives_inv:
  assumes "rx_inv q bufs m" and "frames_fit fs"
  shows "rx_inv q bufs (device_receives q fs m) \<and>
    rx_pending q bufs (device_receives q fs m) = take (num_rx q) (rx_pending q bufs m @ map snd fs)"
  using assms
proof (induction fs arbitrary: m)
  case Nil
  then show ?case
    using rx_invD(4) [OF Nil(1)] by (simp add: device_receives_def rx_pending_def)
next
  case (Cons f fs)
  obtain hdr frame where f: "f = (hdr, frame)" by fastforce
  then have hf: "length hdr = VIRTIO_NET_HDR_SIZE" "length hdr + length frame \<le> sizeof_rx_buf" "frames_fit fs"
    using Cons.prems(2) by (auto simp: frames_fit_def)
  note r = receive_inv [OF Cons.prems(1) hf(1, 2)]
  have "take (num_rx q) (take (num_rx q) (rx_pending q bufs m @ [frame]) @ map snd fs) =
      take (num_rx q) (rx_pending q bufs m @ map snd (f # fs))"
    unfolding take_append_take by (simp add: f)
  then show ?case
    using Cons.IH [OF r(1) hf(3)] r(2) by (simp add: device_receives_def f)
qed

section \<open>The driver takes a frame\<close>

lemma rx_slot_Suc: "rx_slot (q\<lparr>last_used_idx := last_used_idx q + 1\<rparr>) i = rx_slot q (Suc i)"
  by (simp add: rx_slot_def ac_simps)

lemma addr_last_used [simp]:
  "avail_ring (q\<lparr>last_used_idx := v\<rparr>) = avail_ring q" "avail_idx (q\<lparr>last_used_idx := v\<rparr>) = avail_idx q"
  "used_idx (q\<lparr>last_used_idx := v\<rparr>) = used_idx q" "used_ring (q\<lparr>last_used_idx := v\<rparr>) = used_ring q"
  "desc_at (q\<lparr>last_used_idx := v\<rparr>) = desc_at q" "num_rx (q\<lparr>last_used_idx := v\<rparr>) = num_rx q"
  "rx_layout (q\<lparr>last_used_idx := v\<rparr>) = rx_layout q"
  by (auto simp: avail_ring_def avail_idx_def used_idx_def used_ring_def desc_at_def num_rx_def rx_layout_def queue_ok_def fun_eq_iff)

text \<open>The state of the ring after the driver has taken the oldest frame and recycled its descriptor.\<close>

definition recycled :: "virtqueue \<Rightarrow> memory \<Rightarrow> memory" where
  "recycled q m = st16 (st16 m (avail_ring q (rx_slot q (num_rx q))) (of_nat (rx_id q m 0))) (avail_idx q) (last_used_idx q + of_nat (Suc (num_rx q)))"

lemma recycled_reads:
  assumes inv: "rx_inv q bufs m" and k: "0 < rx_count q m"
  defines "q' \<equiv> q\<lparr>last_used_idx := last_used_idx q + 1\<rparr>" and "m' \<equiv> recycled q m"
  shows "ld16 m' (avail_idx q) = last_used_idx q' + of_nat (num_rx q)" "rx_count q' m' = rx_count q m - 1"
    "Suc i < num_rx q \<Longrightarrow> rx_id q' m' i = rx_id q m (Suc i)" "rx_id q' m' (num_rx q - 1) = rx_id q m 0"
    "d < num_rx q \<Longrightarrow> peek m' (desc_at q d) 16 = peek m (desc_at q d) 16"
    "ldw32 m' (used_ring q (rx_slot q' i)) = ldw32 m (used_ring q (rx_slot q (Suc i)))" "rx_len q' m' i = rx_len q m (Suc i)"
    "Suc i < rx_count q m \<Longrightarrow> rx_frame q' bufs m' i = rx_frame q bufs m (Suc i)"
proof -
  let ?n = "num_rx q"
  define s where "s = avail_ring q (rx_slot q ?n)"
  define v where "v = last_used_idx q + of_nat (Suc ?n)"
  define x :: u16 where "x = of_nat (rx_id q m 0)"
  have m': "m' = poke (poke m s (put16 x)) (avail_idx q) (put16 v)"
    by (simp only: m'_def recycled_def s_def v_def x_def st16_def)
  note lay = rx_invD(1) [OF inv] and qok = rx_invD(2) [OF inv]
  note slot = rx_slot_less [OF qok]
  note seps = sep_rings [OF qok]
  have n: "0 < ?n" "?n \<le> 16" "?n \<le> unat (queue_size q)" using k rx_invD(4) [OF inv] num_rx_le [of q] by auto
  have "ld16 m' (avail_idx q) = v"
    unfolding m' using ld16_st16 [of "poke m s (put16 x)" "avail_idx q"] by (simp add: st16_def)
  then show "ld16 m' (avail_idx q) = last_used_idx q' + of_nat ?n"
    by (simp add: v_def q'_def ac_simps)
  have u: "ld16 m' (used_idx q) = ld16 m (used_idx q)"
    by (simp add: m' s_def ld16_other seps slot)
  show "rx_count q' m' = rx_count q m - 1"
    using k unat_minus_one [of "ld16 m (used_idx q) - last_used_idx q"]
    by (cases "ld16 m (used_idx q) = last_used_idx q") (simp_all add: rx_count_def q'_def u diff_diff_eq [symmetric])
  show ids: "rx_id q' m' i = rx_id q m (Suc i)" if "Suc i < ?n" for i
  proof -
    have "rx_slot q (Suc i) \<noteq> rx_slot q ?n"
      by (rule rx_slot_inj [OF qok that]) (use n in simp)
    then show ?thesis
      by (simp add: rx_id_def q'_def rx_slot_Suc m' s_def ld16_other seps slot sep_ring_entries [OF qok])
  qed
  have "ld16 (poke m s (put16 x)) s = x" using ld16_st16 [of m s x] by (simp add: st16_def)
  moreover have "rx_slot q' (?n - 1) = rx_slot q ?n" using n by (simp add: q'_def rx_slot_Suc)
  moreover have "unat x = rx_id q m 0" by (simp add: x_def rx_id_def)
  ultimately show "rx_id q' m' (?n - 1) = rx_id q m 0"
    by (simp add: rx_id_def q'_def m' s_def ld16_other seps slot)
  show "peek m' (desc_at q d) 16 = peek m (desc_at q d) 16" if "d < ?n"
    using that n by (simp add: m' s_def peek_poke_other seps slot)
  show "ldw32 m' (used_ring q (rx_slot q' i)) = ldw32 m (used_ring q (rx_slot q (Suc i)))"
    by (simp add: q'_def rx_slot_Suc m' s_def ldw32_other seps slot)
  show l: "rx_len q' m' i = rx_len q m (Suc i)" for i
    by (simp add: rx_len_def q'_def rx_slot_Suc m' s_def ldw32_other seps slot)
  show "rx_frame q' bufs m' i = rx_frame q bufs m (Suc i)" if i: "Suc i < rx_count q m"
  proof -
    have i': "Suc i < ?n" using i rx_invD(4) [OF inv] by simp
    have "rx_id q m (Suc i) < 16" using rx_invD(6) [OF inv i'] n by simp
    moreover have "VIRTIO_NET_HDR_SIZE + (rx_len q m (Suc i) - VIRTIO_NET_HDR_SIZE) \<le> 1552"
      using rx_invD(9, 10) [OF inv i] by (simp add: sizeof_rx_buf_def)
    ultimately show ?thesis
      unfolding rx_frame_def ids [OF i'] l using sep_bufs_rings [OF lay]
      by (simp only: m' s_def) (simp add: peek_poke_other slot)
  qed
qed

lemma recycled_inv:
  assumes inv: "rx_inv q bufs m" and k: "0 < rx_count q m"
  defines "q' \<equiv> q\<lparr>last_used_idx := last_used_idx q + 1\<rparr>" and "m' \<equiv> recycled q m"
  shows "rx_inv q' bufs m'" and "rx_pending q' bufs m' = tl (rx_pending q bufs m)"
proof -
  note r = recycled_reads [OF inv k, folded q'_def m'_def]
  let ?n = "num_rx q"
  have n: "0 < ?n" "num_rx q' = ?n" using k rx_invD(4) [OF inv] by (auto simp: q'_def)
  have ids: "rx_id q' m' i = (if Suc i < ?n then rx_id q m (Suc i) else rx_id q m 0)" if "i < ?n" for i
  proof (cases "Suc i < ?n")
    case False
    then have "i = ?n - 1" using that by simp
    then show ?thesis using False r(4) by simp
  qed (simp add: r(3))
  have "inj_on (rx_id q' m') {..<?n}"
  proof (rule inj_onI)
    fix i j assume ij: "i \<in> {..<?n}" "j \<in> {..<?n}" "rx_id q' m' i = rx_id q' m' j"
    let ?s = "\<lambda>i. if Suc i < ?n then Suc i else 0"
    have "rx_id q m (?s i) = rx_id q m (?s j)" "?s i \<in> {..<?n}" "?s j \<in> {..<?n}"
      using ij ids [of i] ids [of j] n by (auto split: if_splits)
    then have "?s i = ?s j" by (rule inj_onD [OF rx_invD(5) [OF inv]])
    then show "i = j" using ij by (auto split: if_splits)
  qed
  moreover have "rx_id q' m' i < ?n" if "i < ?n" for i
    using ids [OF that] rx_invD(6) [OF inv] n by auto
  moreover have "unat (ldw32 m' (used_ring q' (rx_slot q' i))) = rx_id q' m' i \<and> VIRTIO_NET_HDR_SIZE \<le> rx_len q' m' i \<and>
      rx_len q' m' i \<le> sizeof_rx_buf" if "i < rx_count q' m'" for i
  proof -
    have i: "Suc i < rx_count q m" "Suc i < ?n" using that r(2) rx_invD(4) [OF inv] by auto
    then show ?thesis
      using rx_invD(8-10) [OF inv i(1)] r(6, 7) [of i] r(3) [OF i(2)] by (simp add: q'_def)
  qed
  moreover have "rx_count q' m' \<le> ?n" using r(2) rx_invD(4) [OF inv] by simp
  ultimately show "rx_inv q' bufs m'"
    unfolding rx_inv_def n using rx_invD(1, 7) [OF inv] r(1, 5) by (simp add: q'_def)
  have "map (rx_frame q' bufs m') [0..<rx_count q m - 1] = map (\<lambda>i. rx_frame q bufs m (Suc i)) [0..<rx_count q m - 1]"
    using r(8) by simp
  also have "\<dots> = tl (map (rx_frame q bufs m) [0..<rx_count q m])"
    by (rule nth_equalityI) (simp_all add: nth_tl)
  finally show "rx_pending q' bufs m' = tl (rx_pending q bufs m)"
    by (simp add: rx_pending_def r(2))
qed

text \<open>The driver is ready: the card is there and its receive queue is sound.\<close>

definition rx_ok :: "'a virtio_scheme \<Rightarrow> bool" where
  "rx_ok w \<longleftrightarrow> card_present w \<and> rx_inv (rx_queue w) (rx_buffers w) (vmem w)"

definition pending :: "'a virtio_scheme \<Rightarrow> bytes list" where
  "pending w = rx_pending (rx_queue w) (rx_buffers w) (vmem w)"

lemma outw_fields [simp]:
  "kmm (outw w p v) = kmm w" "rx_queue (outw w p v) = rx_queue w" "rx_buffers (outw w p v) = rx_buffers w"
  "card_present (outw w p v) = card_present w" "looks (outw w p v) = looks w" "tx_queue (outw w p v) = tx_queue w"
  "tx_buffer (outw w p v) = tx_buffer w" "net_iobase (outw w p v) = net_iobase w"
  by (simp_all add: outw_def)

lemma set_mem_fields [simp]:
  "vmem (set_mem w m) = m" "rx_queue (set_mem w m) = rx_queue w" "rx_buffers (set_mem w m) = rx_buffers w"
  "card_present (set_mem w m) = card_present w" "looks (set_mem w m) = looks w" "tx_queue (set_mem w m) = tx_queue w"
  "tx_buffer (set_mem w m) = tx_buffer w" "net_iobase (set_mem w m) = net_iobase w"
  by (simp_all add: set_mem_def)

lemma look_fields [simp]:
  "vmem (look dma w) = dma (looks w) (vmem w)" "rx_queue (look dma w) = rx_queue w" "rx_buffers (look dma w) = rx_buffers w"
  "card_present (look dma w) = card_present w" "looks (look dma w) = looks w + 1" "tx_queue (look dma w) = tx_queue w"
  "tx_buffer (look dma w) = tx_buffer w" "net_iobase (look dma w) = net_iobase w"
  by (simp_all add: look_def)

lemma take_peek: "take k (peek m a n) = peek m a (min n k)"
  by (rule nth_equalityI) (simp_all add: peek_def)

lemma peek_0 [simp]: "peek m a 0 = []"
  by (simp add: peek_def)

lemma poll_packet:
  assumes ok: "rx_ok (look dma w)" and max: "0 < max_len"
  defines "w' \<equiv> fst (virtio_net_poll_packet dma w max_len)" and "out \<equiv> snd (virtio_net_poll_packet dma w max_len)"
  shows "rx_ok w' \<and> pending w' = tl (pending (look dma w)) \<and> looks w' = looks w + 1 \<and>
    out = (case pending (look dma w) of [] \<Rightarrow> [] | f # _ \<Rightarrow> take max_len f) \<and>
    rx_queue w' \<in> {rx_queue w, (rx_queue w)\<lparr>last_used_idx := last_used_idx (rx_queue w) + 1\<rparr>}"
proof -
  define q where "q = rx_queue w"
  define m where "m = dma (looks w) (vmem w)"
  have pres: "card_present w" and inv: "rx_inv q (rx_buffers w) m"
    using ok by (simp_all add: rx_ok_def q_def m_def)
  have pend: "pending (look dma w) = rx_pending q (rx_buffers w) m" by (simp add: pending_def q_def m_def)
  show ?thesis
  proof (cases "rx_count q m = 0")
    case True
    then have "last_used_idx q = ld16 m (used_idx q)" using used_idx_count [of m q] by simp
    then have "virtio_net_poll_packet dma w max_len = (look dma w, [])"
      using pres max by (simp add: virtio_net_poll_packet_def Let_def q_def m_def)
    then show ?thesis
      using True ok by (simp add: w'_def out_def pend rx_pending_def)
  next
    case False
    then have k: "0 < rx_count q m" by simp
    note r = recycled_inv [OF inv k] and qok = rx_invD(2) [OF inv]
    let ?s = "unat (last_used_idx q mod queue_size q)" and ?id = "ldw32 m (used_ring q (rx_slot q 0))"
    have s0: "?s = rx_slot q 0" and sn: "unat (ld16 m (avail_idx q) mod queue_size q) = rx_slot q (num_rx q)"
      using rx_invD(3) [OF inv] by (simp_all add: rx_slot_def unat_mod_distrib)
    have id: "unat ?id = rx_id q m 0" by (rule rx_invD(8) [OF inv k])
    have id16: "(ucast ?id :: u16) = of_nat (rx_id q m 0)" unfolding id [symmetric] by simp
    have ne: "last_used_idx q \<noteq> ld16 m (used_idx q)" using False by (auto simp: rx_count_def)
    have rec: "st16 (st16 m (avail_ring q (rx_slot q (num_rx q))) x) (avail_idx q)
        (ld16 (st16 m (avail_ring q (rx_slot q (num_rx q))) x) (avail_idx q) + 1) = recycled q m" if "x = of_nat (rx_id q m 0)" for x
      using that rx_invD(3) [OF inv]
      by (simp add: recycled_def st16_def ld16_other sep_rings [OF qok] rx_slot_less [OF qok] ac_simps)
    have o: "out = take max_len (rx_frame q (rx_buffers w) m 0)"
      using pres max ne id
      by (simp add: out_def virtio_net_poll_packet_def Let_def rx_frame_def take_peek s0 rx_len_def ac_simps flip: q_def m_def)
    have w': "w' = outw ((set_mem (look dma w) (recycled q m))\<lparr>rx_queue := q\<lparr>last_used_idx := last_used_idx q + 1\<rparr>\<rparr>)
        (net_iobase w + VIRTIO_PCI_QUEUE_NOTIFY) 0"
      using pres max ne id16
      by (simp add: w'_def virtio_net_poll_packet_def Let_def s0 sn rec flip: q_def m_def)
    have "pending (look dma w) = rx_frame q (rx_buffers w) m 0 # map (rx_frame q (rx_buffers w) m) [1..<rx_count q m]"
      using k by (simp add: pend rx_pending_def upt_conv_Cons)
    then show ?thesis
      using r pres by (simp add: w' o rx_ok_def pending_def q_def m_def)
  qed
qed

end
