(* ===== verification/VirtioInit.thy ===== *)
theory VirtioInit
  imports VirtioRing
begin

text \<open>
  The initialisation of the virtio driver leaves the receive queue in the state that the lemmas of
  \<^verbatim>\<open>VirtioRing\<close> assume, and the properties of the driver: frames are received in order and once each,
  and a frame to send is what the card finds in the transmit queue.
\<close>

section \<open>Allocated blocks\<close>

lemma kmemset_poke: "n \<le> 2 ^ 64 \<Longrightarrow> kmemset m p c n = poke m p (replicate n c)"
  by (auto simp: kmemset_eq poke_def in_block_def fun_eq_iff)

definition block :: "mm \<Rightarrow> u64 \<Rightarrow> nat \<Rightarrow> bool" where
  "block m p n \<longleftrightarrow> (\<exists>i. p = frame_addr i \<and> 0 < n \<and> i + n \<le> MAX_PAGES \<and> {i..<i + n} \<subseteq> used_frames m)"

lemma block_bound: "block m p n \<Longrightarrow> unat p + n * 4096 < 2 ^ 63"
  by (auto simp: block_def unat_frame_addr MAX_PAGES_def)

lemma alloc_pages_block:
  assumes ok: "mm_ok m" and c: "0 < c" "c \<le> MAX_PAGES" and al: "alloc_pages m (of_nat c) = Some (m', p)" and p: "p \<noteq> 0"
  shows "mm_ok m'" "block m' p c" "used_frames m \<subseteq> used_frames m'" "ram m' = poke (ram m) p (replicate (c * 4096) 0)"
    and "block m b n \<Longrightarrow> sep b (n * 4096) p (c * 4096)"
proof -
  have u: "unat (of_nat c :: u64) = c" using c by (intro of_nat_inverse) (auto simp: MAX_PAGES_def)
  have c': "0 < (of_nat c :: u64)" "unat (of_nat c :: u64) \<le> MAX_PAGES"
    using c u by (simp_all add: word_less_nat_alt)
  obtain i where i: "first_fit (page_bitmap m) c = Some i" "p = frame_addr i"
      "m' = m\<lparr>page_bitmap := set_frames (page_bitmap m) i c, ram := kmemset (ram m) (frame_addr i) 0 (c * PAGE_SIZE)\<rparr>"
    using al p alloc_pages_eq [OF ok c'] by (auto simp: u split: option.splits)
  note fit = first_fit_SomeD [OF i(1) c(2)]
  have used: "used_frames m' = used_frames m \<union> {i..<i + c}"
    unfolding i(3) by (rule used_frames_set_frames [OF ok fit(1)])
  have free: "used_frames m \<inter> {i..<i + c} = {}"
    using fit(2) by (auto simp: used_frames_def run_free_def le_iff_add)
  have "c * 4096 \<le> 2 ^ 64" using c(2) by (simp add: MAX_PAGES_def)
  then show "ram m' = poke (ram m) p (replicate (c * 4096) 0)"
    by (simp add: i(2, 3) PAGE_SIZE_def kmemset_poke)
  show "mm_ok m'" using ok by (simp add: i(3) mm_ok_def)
  show "used_frames m \<subseteq> used_frames m'" using used by simp
  show "block m' p c" unfolding block_def using i(2) fit(1) c used by blast
  show "sep b (n * 4096) p (c * 4096)" if b: "block m b n"
  proof -
    obtain j where j: "b = frame_addr j" "0 < n" "j + n \<le> MAX_PAGES" "{j..<j + n} \<subseteq> used_frames m"
      using b by (auto simp: block_def)
    then have "{j..<j + n} \<inter> {i..<i + c} = {}" using free by blast
    then have "j + n \<le> i \<or> i + c \<le> j"
      using j(2) c by (metis add_less_cancel_left add.right_neutral atLeastLessThan_empty_iff2 ivl_disj_int_two(3) disjoint_iff atLeastLessThan_iff le_add1 not_le nle_le)
    then show ?thesis
      unfolding sep_def using unat_frame_addr [of i] unat_frame_addr [of j] fit(1) j(1-3) c i(2) by (auto simp: MAX_PAGES_def)
  qed
qed

section \<open>Setting a queue up\<close>

lemma queue_geometry:
  fixes qs :: u16
  defines "n \<equiv> unat qs"
  assumes "n \<le> 256"
  shows "(ucast qs * 16 :: u64) = of_nat (16 * n)"
    and "((ucast qs * 16 + (4 + 2 * ucast qs) + 4095) AND NOT 4095 :: u64) = of_nat (uoff n)"
    and "((of_nat (uoff n) + (4 + 8 * ucast qs) + of_nat PAGE_SIZE - 1) div of_nat PAGE_SIZE :: u64) =
      of_nat ((queue_bytes n + 4095) div 4096)"
proof -
  have qs: "(ucast qs :: u64) = of_nat n" by (simp add: n_def)
  show "(ucast qs * 16 :: u64) = of_nat (16 * n)" by (simp add: qs)
  have mask: "(4095 :: u64) = mask 12" by (simp add: mask_eq_exp_minus_1)
  have "unat ((of_nat (18 * n + 4 + 4095) :: u64) AND NOT 4095) = (18 * n + 4 + 4095) div 4096 * 4096"
    unfolding mask unat_and_not_mask by (subst of_nat_inverse [OF refl]) (use assms(2) in auto)
  then have "(of_nat (18 * n + 4 + 4095) :: u64) AND NOT 4095 = of_nat (uoff n)"
    unfolding uoff_def by (metis of_nat_unat ucast_id)
  moreover have "(ucast qs * 16 + (4 + 2 * ucast qs) + 4095 :: u64) = of_nat (18 * n + 4 + 4095)"
    by (simp add: qs)
  ultimately show "((ucast qs * 16 + (4 + 2 * ucast qs) + 4095) AND NOT 4095 :: u64) = of_nat (uoff n)"
    by simp
  have "uoff n \<le> 8192" using assms(2) by (simp add: uoff_def) 
  then have b: "queue_bytes n + 4095 < 2 ^ 64" using assms(2) by (simp add: queue_bytes_def)
  have "(of_nat (uoff n) + (4 + 8 * ucast qs) + of_nat PAGE_SIZE - 1 :: u64) = of_nat (queue_bytes n + 4095)"
    by (simp add: qs queue_bytes_def PAGE_SIZE_def)
  moreover have "(of_nat (queue_bytes n + 4095) div of_nat PAGE_SIZE :: u64) = of_nat ((queue_bytes n + 4095) div PAGE_SIZE)"
  proof (rule word_unat_eq_iff [THEN iffD2])
    have "unat (of_nat (queue_bytes n + 4095) :: u64) = queue_bytes n + 4095"
      using b by (intro of_nat_inverse) auto
    moreover have "unat (of_nat ((queue_bytes n + 4095) div PAGE_SIZE) :: u64) = (queue_bytes n + 4095) div PAGE_SIZE"
      using b by (intro of_nat_inverse) (auto intro: le_less_trans [OF div_le_dividend])
    ultimately show "unat (of_nat (queue_bytes n + 4095) div of_nat PAGE_SIZE :: u64) = unat (of_nat ((queue_bytes n + 4095) div PAGE_SIZE) :: u64)"
      by (simp only: unat_div_distrib) (simp add: PAGE_SIZE_def)
  qed
  ultimately have "((of_nat (uoff n) + (4 + 8 * ucast qs) + of_nat PAGE_SIZE - 1) div of_nat PAGE_SIZE :: u64) =
      of_nat ((queue_bytes n + 4095) div PAGE_SIZE)"
    by (simp only:)
  then show "((of_nat (uoff n) + (4 + 8 * ucast qs) + of_nat PAGE_SIZE - 1) div of_nat PAGE_SIZE :: u64) =
      of_nat ((queue_bytes n + 4095) div 4096)"
    by (simp only: PAGE_SIZE_def)
qed

text \<open>The card offers queues whose sizes are powers of two, as the virtio specification asks.\<close>

definition queue_sizes_ok :: "hardware \<Rightarrow> u16 \<Rightarrow> bool" where
  "queue_sizes_ok hw iobase = (\<forall>log. unat (ucast (hw log 16 (iobase + VIRTIO_PCI_QUEUE_NUM)) :: u16) dvd 65536)"

definition queue_pages :: "virtqueue \<Rightarrow> nat" where
  "queue_pages q = (queue_bytes (unat (queue_size q)) + 4095) div 4096"

definition same_but :: "'a virtio_scheme \<Rightarrow> 'a virtio_scheme \<Rightarrow> bool" where
  "same_but w w' \<longleftrightarrow> net_iobase w' = net_iobase w \<and> rx_queue w' = rx_queue w \<and> tx_queue w' = tx_queue w \<and>
     card_present w' = card_present w \<and> looks w' = looks w"

lemma place_virtqueue_spec:
  assumes ok: "mm_ok (kmm w)" and n: "unat (queue_size vq) \<le> 256" "unat (queue_size vq) dvd 65536" "0 < queue_size vq"
    and place: "place_virtqueue w vq = Some (w', q, 0)"
  shows "queue_ok q" "last_used_idx q = 0" "same_but w w'" "mm_ok (kmm w')" "block (kmm w') (raw_pages q) (queue_pages q)"
    "used_frames (kmm w) \<subseteq> used_frames (kmm w')" "vmem w' = poke (vmem w) (raw_pages q) (replicate (queue_pages q * 4096) 0)"
    "block (kmm w) b k \<Longrightarrow> sep b (k * 4096) (raw_pages q) (queue_pages q * 4096)"
proof -
  define qs where "qs = queue_size vq"
  note geo = queue_geometry [OF n(1)]
  let ?pages = "(queue_bytes (unat qs) + 4095) div 4096"
  obtain m p where al: "alloc_pages (kmm w) (of_nat ?pages) = Some (m, p)" "p \<noteq> 0"
    and q: "q = vq\<lparr>raw_pages := p, pfn := drop_bit 12 p, desc := p, avail := p + of_nat (16 * unat qs),
        used := p + of_nat (uoff (unat qs)), last_used_idx := 0, free_head := 0, num_free := qs\<rparr>"
    and w': "w' = outl (w\<lparr>kmm := m\<rparr>) (net_iobase w + VIRTIO_PCI_QUEUE_PFN) (ucast (drop_bit 12 p))"
    using place unfolding place_virtqueue_def Let_def geo(2) unfolding geo(3) unfolding geo(1) qs_def by (auto split: option.splits prod.splits if_splits)
  have "uoff (unat qs) \<le> 8192" using n(1) by (simp add: uoff_def qs_def)
  then have pages: "0 < ?pages" "?pages \<le> MAX_PAGES"
    using n(1) by (auto simp: queue_bytes_def MAX_PAGES_def qs_def)
  note b = alloc_pages_block [OF ok pages al]
  have qp: "queue_pages q = ?pages" "raw_pages q = p" by (simp_all add: queue_pages_def q qs_def)
  show "mm_ok (kmm w')" "block (kmm w') (raw_pages q) (queue_pages q)" "used_frames (kmm w) \<subseteq> used_frames (kmm w')"
    "vmem w' = poke (vmem w) (raw_pages q) (replicate (queue_pages q * 4096) 0)"
    unfolding qp using b(1-4) by (simp_all add: w' outl_def)
  show "sep b (k * 4096) (raw_pages q) (queue_pages q * 4096)" if "block (kmm w) b k"
    unfolding qp by (rule b(5) [OF that])
  show "last_used_idx q = 0" by (simp add: q)
  show "same_but w w'" by (simp add: w' outl_def same_but_def)
  have "queue_bytes (unat qs) \<le> ?pages * 4096" by simp
  then show "queue_ok q"
    unfolding queue_ok_def using n block_bound [OF b(2)] by (simp add: q qs_def)
qed

lemma init_virtqueue_places:
  assumes sizes: "queue_sizes_ok hw (net_iobase w)" and init: "init_virtqueue hw w vq0 index = Some (w', q, 0)"
  obtains w1 vq where "place_virtqueue w1 vq = Some (w', q, 0)" "kmm w1 = kmm w" "same_but w w1"
    "unat (queue_size vq) \<le> 256" "unat (queue_size vq) dvd 65536" "0 < queue_size vq"
proof -
  obtain w1 n where io: "inw hw (outw w (net_iobase w + VIRTIO_PCI_QUEUE_SEL) index) (net_iobase w + VIRTIO_PCI_QUEUE_NUM) = (w1, n)"
    by fastforce
  have w1: "kmm w1 = kmm w" "same_but w w1" and n: "unat n dvd 65536"
    using io sizes by (auto simp: inw_def outw_def same_but_def queue_sizes_ok_def)
  let ?vq = "if 256 < n then vq0\<lparr>queue_index := index, queue_size := 256\<rparr> else vq0\<lparr>queue_index := index, queue_size := n\<rparr>"
  have "n \<noteq> 0" "place_virtqueue w1 ?vq = Some (w', q, 0)"
    using init by (auto simp: init_virtqueue_def io Let_def split: if_splits)
  then show thesis
    using that [of w1 ?vq] w1 n by (auto simp: word_less_nat_alt unat_gt_0 split: if_splits)
qed

section \<open>Arming the receive queue\<close>

lemma sep_descs:
  assumes q: "queue_ok q" and i: "i < unat (queue_size q)" and j: "j < unat (queue_size q)"
  shows "i \<noteq> j \<Longrightarrow> sep (desc_at q i) 16 (desc_at q j) 16" "sep (avail_ring q i) 2 (desc_at q j) 16" "sep (used_idx q) 2 (desc_at q j) 16"
proof -
  show "sep (desc_at q i) 16 (desc_at q j) 16" if "i \<noteq> j"
  proof -
    have "i < j \<or> j < i" using that by auto
    then show ?thesis
      using i j queue_addrs(8, 9) [OF q] by (auto simp: sep_def queue_addrs(1-7) [OF q])
  qed
  show "sep (avail_ring q i) 2 (desc_at q j) 16" "sep (used_idx q) 2 (desc_at q j) 16"
    using i j queue_addrs(8, 9) [OF q] by (simp_all add: sep_def queue_addrs(1-7) [OF q])
qed

lemma length_put_desc [simp]: "length (put_desc addr len flags nxt) = 16"
  by (simp add: put_desc_def)

lemma arm_fold:
  assumes q: "queue_ok (rx_queue w)"
  shows "n \<le> num_rx (rx_queue w) \<Longrightarrow>
    (\<forall>d < n. peek (fold (arm_rx w) [0..<n] m) (desc_at (rx_queue w) d) 16 =
      put_desc (rx_buffers w + of_nat (sizeof_rx_buf * d)) (of_nat sizeof_rx_buf) VRING_DESC_F_WRITE 0) \<and>
    (\<forall>i < n. ld16 (fold (arm_rx w) [0..<n] m) (avail_ring (rx_queue w) i) = of_nat i) \<and>
    ld16 (fold (arm_rx w) [0..<n] m) (used_idx (rx_queue w)) = ld16 m (used_idx (rx_queue w))"
proof (induction n)
  case (Suc n)
  let ?q = "rx_queue w" and ?m = "fold (arm_rx w) [0..<n] m"
  define e where "e = put_desc (rx_buffers w + of_nat (sizeof_rx_buf * n)) (of_nat sizeof_rx_buf) VRING_DESC_F_WRITE 0"
  have le: "length e = 16" by (simp add: e_def)
  define x :: u16 where "x = of_nat n"
  have f: "fold (arm_rx w) [0..<Suc n] m = poke (poke ?m (desc_at ?q n) e) (avail_ring ?q n) (put16 x)"
    by (simp only: upt_Suc_append [OF le0] fold_append fold.simps comp_def id_def arm_rx_def e_def x_def st16_def)
  have nq: "n < unat (queue_size ?q)" "n \<le> num_rx ?q" using Suc.prems num_rx_le [of ?q] by auto
  note seps = sep_rings [OF q] sep_descs [OF q] sep_ring_entries [OF q] nq le
  note IH = Suc.IH [OF nq(2)]
  have "peek (fold (arm_rx w) [0..<Suc n] m) (desc_at ?q d) 16 =
      put_desc (rx_buffers w + of_nat (sizeof_rx_buf * d)) (of_nat sizeof_rx_buf) VRING_DESC_F_WRITE 0" if "d < Suc n" for d
  proof (cases "d = n")
    case True
    then show ?thesis
      unfolding f using peek_poke_same [of e ?m "desc_at ?q n"] by (simp add: peek_poke_other seps) (simp add: e_def)
  next
    case False
    then have "d < n" "d < unat (queue_size ?q)" using that nq by auto
    then show ?thesis unfolding f using IH False by (simp add: peek_poke_other seps)
  qed
  moreover have "ld16 (fold (arm_rx w) [0..<Suc n] m) (avail_ring ?q i) = of_nat i" if "i < Suc n" for i
  proof (cases "i = n")
    case True
    then show ?thesis
      unfolding f using ld16_st16 [of "poke ?m (desc_at ?q n) e" "avail_ring ?q n" x] by (simp add: st16_def x_def)
  next
    case False
    then have "i < n" "i < unat (queue_size ?q)" using that nq by auto
    then show ?thesis unfolding f using IH False by (simp add: ld16_other seps)
  qed
  moreover have "ld16 (fold (arm_rx w) [0..<Suc n] m) (used_idx ?q) = ld16 m (used_idx ?q)"
    unfolding f using IH by (simp add: ld16_other seps sep_descs(3) [OF q nq(1) nq(1)])
  ultimately show ?case by blast
qed simp


lemma sep_part: "sep a n b k \<Longrightarrow> unat a \<le> unat x \<Longrightarrow> unat x + l \<le> unat a + n \<Longrightarrow> j \<le> k \<Longrightarrow> sep x l b j"
  by (auto simp: sep_def)

lemma sep_avail_flags:
  assumes q: "queue_ok q"
  shows "i < unat (queue_size q) \<Longrightarrow> sep (desc_at q i) 16 (avail_flags q) 2"
    "i < unat (queue_size q) \<Longrightarrow> sep (avail_ring q i) 2 (avail_flags q) 2" "sep (used_idx q) 2 (avail_flags q) 2"
  using queue_addrs(8, 9) [OF q] by (simp_all add: sep_def queue_addrs(1-7) [OF q])

text \<open>A queue whose descriptors are armed and whose used ring is empty is sound.\<close>

lemma rx_inv_armed:
  assumes lay: "rx_layout q bufs" and lu: "last_used_idx q = 0" "ld16 m (used_idx q) = 0"
    and a: "ld16 m (avail_idx q) = of_nat (num_rx q)" and r: "\<And>i. i < num_rx q \<Longrightarrow> ld16 m (avail_ring q i) = of_nat i"
    and d: "\<And>d. d < num_rx q \<Longrightarrow> peek m (desc_at q d) 16 = put_desc (bufs + of_nat (sizeof_rx_buf * d)) (of_nat sizeof_rx_buf) VRING_DESC_F_WRITE 0"
  shows "rx_inv q bufs m \<and> rx_pending q bufs m = []"
proof -
  have cnt: "rx_count q m = 0" by (simp add: rx_count_def lu)
  have id: "rx_id q m i = i" if "i < num_rx q" for i
  proof -
    have i: "unat (of_nat i :: u16) = i" "i < unat (queue_size q)"
      using that num_rx_le [of q] by (auto intro: of_nat_inverse)
    then show ?thesis using r [OF that] by (simp add: rx_id_def rx_slot_def lu)
  qed
  then have "inj_on (rx_id q m) {..<num_rx q}" by (auto intro: inj_onI)
  then show ?thesis
    using lay a d id by (simp add: rx_inv_def lu cnt rx_pending_def)
qed

lemma init_buffers_armed:
  assumes ok: "mm_ok (kmm w)" and q: "queue_ok (rx_queue w)" "last_used_idx (rx_queue w) = 0" "ld16 (vmem w) (used_idx (rx_queue w)) = 0"
    and blk: "block (kmm w) (raw_pages (rx_queue w)) (queue_pages (rx_queue w))"
    and init: "init_buffers w = Some (w', 0)"
  shows "rx_ok w' \<and> pending w' = []"
proof -
  let ?q = "rx_queue w"
  obtain m1 p m t where al: "alloc_pages (kmm w) (of_nat rx_pages) = Some (m1, p)" "alloc_pages m1 1 = Some (m, t)" "p \<noteq> 0" "t \<noteq> 0"
    using init by (auto simp: init_buffers_def Let_def split: option.splits prod.splits if_splits)
  have pages: "0 < rx_pages" "rx_pages \<le> MAX_PAGES" "rx_pages * PAGE_SIZE = 28672"
    by (simp_all add: rx_pages_def sizeof_rx_buf_def VIRTIO_NET_RX_BUFFERS_def PAGE_SIZE_def MAX_PAGES_def)
  note b1 = alloc_pages_block [OF ok pages(1, 2) al(1, 3)]
  have al2: "alloc_pages m1 (of_nat 1) = Some (m, t)" using al(2) by simp
  note b2 = alloc_pages_block [OF b1(1) _ _ al2 al(4)]
  have sq: "sep (raw_pages ?q) (queue_pages ?q * 4096) p (rx_pages * 4096)" "sep (raw_pages ?q) (queue_pages ?q * 4096) t 4096"
  proof -
    show "sep (raw_pages ?q) (queue_pages ?q * 4096) p (rx_pages * 4096)" by (rule b1(5) [OF blk])
    have "block m1 (raw_pages ?q) (queue_pages ?q)" using blk b1(3) by (auto simp: block_def)
    then show "sep (raw_pages ?q) (queue_pages ?q * 4096) t 4096" using b2(5) by (simp add: MAX_PAGES_def)
  qed
  have bytes: "queue_bytes (unat (queue_size ?q)) \<le> queue_pages ?q * 4096" by (simp add: queue_pages_def)
  have "sep (raw_pages ?q) (queue_bytes (unat (queue_size ?q))) p (sizeof_rx_buf * VIRTIO_NET_RX_BUFFERS)"
    using sep_part [OF sq(1) order_refl] bytes pages(3) by (simp add: sizeof_rx_buf_def VIRTIO_NET_RX_BUFFERS_def PAGE_SIZE_def)
  then have lay: "rx_layout ?q p"
    using q(1) block_bound [OF b1(2)] pages(3) by (simp add: rx_layout_def sizeof_rx_buf_def VIRTIO_NET_RX_BUFFERS_def PAGE_SIZE_def)
  have su: "sep (used_idx ?q) 2 p (rx_pages * 4096)" "sep (used_idx ?q) 2 t 4096"
    by (rule sep_part [OF sq(1)] sep_part [OF sq(2)]; use bytes queue_addrs(5) [OF q(1)] in \<open>simp add: queue_bytes_def\<close>)+
  define w1 where "w1 = w\<lparr>kmm := m, rx_buffers := p, tx_buffer := t\<rparr>"
  define mb where "mb = kmemset (kmemset (ram m) p 0 (rx_pages * PAGE_SIZE)) t 0 PAGE_SIZE"
  have "ram m = poke (poke (vmem w) p (replicate (rx_pages * 4096) 0)) t (replicate 4096 0)"
    using b2(4) b1(4) by (simp add: MAX_PAGES_def)
  then have ub: "ld16 mb (used_idx ?q) = 0"
    using q(3) su pages(3) by (simp add: mb_def kmemset_poke ld16_other PAGE_SIZE_def)
  define w2 where "w2 = set_mem w1 mb"
  define mf where "mf = fold (arm_rx w2) [0..<num_rx ?q] mb"
  have w2: "rx_queue w2 = ?q" "rx_buffers w2 = p" by (simp_all add: w2_def w1_def)
  note arm = arm_fold [of w2 "num_rx ?q" mb, unfolded w2, OF q(1) order_refl, folded mf_def]
  let ?m = "st16 (st16 mf (avail_flags ?q) 0) (avail_idx ?q) (of_nat (num_rx ?q))"
  have w': "vmem w' = ?m" "rx_queue w' = ?q" "rx_buffers w' = p" "card_present w'"
    using init al by (auto simp: init_buffers_def Let_def outw_def outb_def w2_def w1_def mf_def mb_def set_mem_def)
  note seps = sep_rings [OF q(1)] sep_avail_flags [OF q(1)]
  have nq: "i < unat (queue_size ?q)" if "i < num_rx ?q" for i
    using that num_rx_le(2) [of ?q] by simp
  have "rx_inv ?q p ?m \<and> rx_pending ?q p ?m = []"
    by (rule rx_inv_armed [OF lay q(2)]; use arm ub nq in \<open>simp add: st16_def ld16_other peek_poke_other seps ld16_st16 [unfolded st16_def]\<close>)
  then show ?thesis by (simp add: rx_ok_def pending_def w')
qed


lemma read_mac_kmm [simp]: "kmm (read_mac hw is w) = kmm w"
  by (induction hw "is" w rule: read_mac.induct) (auto simp: inb_def)

lemma init_device_kmm [simp]: "kmm (init_device hw w dev) = kmm w"
  by (auto simp: init_device_def Let_def pci_read_config_16_def pci_write_config_16_def inw_def outw_def outl_def outb_def inl_def)

lemma same_butD:
  "same_but w w' \<Longrightarrow> net_iobase w' = net_iobase w" "same_but w w' \<Longrightarrow> rx_queue w' = rx_queue w"
  by (simp_all add: same_but_def)

lemma virtio_net_init_parts:
  assumes "virtio_net_init hw w = Some (w', 0)"
  obtains w0 w1 q1 w2 q2 where "kmm w0 = kmm w" "init_virtqueue hw w0 (rx_queue w0) 0 = Some (w1, q1, 0)"
    "init_virtqueue hw (w1\<lparr>rx_queue := q1\<rparr>) (tx_queue w1) 1 = Some (w2, q2, 0)"
    "init_buffers (w2\<lparr>tx_queue := q2\<rparr>) = Some (w', 0)"
  using assms by (auto simp: virtio_net_init_def Let_def split: option.splits prod.splits if_splits)
    ((rule that [rotated], assumption, assumption, assumption, simp)+)

text \<open>A queue in fresh pages has empty rings.\<close>

lemma placed_zero:
  assumes q: "queue_ok q" and m: "m = poke m0 (raw_pages q) (replicate (queue_pages q * 4096) 0)" and b: "queue_pages q * 4096 < 2 ^ 64"
  shows "ld16 m (used_idx q) = 0" and "ld16 m (avail_idx q) = 0"
proof -
  have z: "ld16 m (raw_pages q + of_nat k) = 0" if "k + 2 \<le> queue_pages q * 4096" for k
  proof -
    have "peek m (raw_pages q + of_nat k) 2 = [0, 0]"
      unfolding m using peek_poke_part [of k 2 "replicate (queue_pages q * 4096) 0"] that b by (simp add: numeral_2_eq_2)
    then show ?thesis by (simp add: ld16_def get16_def)
  qed
  have bytes: "queue_bytes (unat (queue_size q)) \<le> queue_pages q * 4096" by (simp add: queue_pages_def)
  have "used_idx q = raw_pages q + of_nat (uoff (unat (queue_size q)) + 2)" "avail_idx q = raw_pages q + of_nat (16 * unat (queue_size q) + 2)"
    using q by (simp_all add: used_idx_def avail_idx_def queue_ok_def)
  then show "ld16 m (used_idx q) = 0" and "ld16 m (avail_idx q) = 0"
    using z [of "uoff (unat (queue_size q)) + 2"] z [of "16 * unat (queue_size q) + 2"] bytes uoff_ge [of "unat (queue_size q)"]
    by (simp_all only: queue_bytes_def)
qed

text \<open>The state in which \<open>virtio_net_init\<close> allocates the buffers: two sound queues in pages of their own.\<close>

lemma virtio_net_init_queues:
  assumes ok: "mm_ok (kmm w)" and init: "virtio_net_init hw w = Some (w', 0)" and sizes: "\<And>iobase. queue_sizes_ok hw iobase"
  obtains w2 q1 q2 where "init_buffers (w2\<lparr>tx_queue := q2\<rparr>) = Some (w', 0)" "mm_ok (kmm w2)" "rx_queue w2 = q1"
    "queue_ok q1" "last_used_idx q1 = 0" "block (kmm w2) (raw_pages q1) (queue_pages q1)" "ld16 (vmem w2) (used_idx q1) = 0"
    "queue_ok q2" "block (kmm w2) (raw_pages q2) (queue_pages q2)" "ld16 (vmem w2) (used_idx q2) = 0" "ld16 (vmem w2) (avail_idx q2) = 0"
    "sep (raw_pages q1) (queue_pages q1 * 4096) (raw_pages q2) (queue_pages q2 * 4096)"
proof -
  obtain w0 w1 q1 w2 q2 where w0: "kmm w0 = kmm w" and rx: "init_virtqueue hw w0 (rx_queue w0) 0 = Some (w1, q1, 0)"
    and tx: "init_virtqueue hw (w1\<lparr>rx_queue := q1\<rparr>) (tx_queue w1) 1 = Some (w2, q2, 0)"
    and bufs: "init_buffers (w2\<lparr>tx_queue := q2\<rparr>) = Some (w', 0)"
    by (rule virtio_net_init_parts [OF init])
  obtain wa va where a: "place_virtqueue wa va = Some (w1, q1, 0)" "kmm wa = kmm w0" "same_but w0 wa"
      "unat (queue_size va) \<le> 256" "unat (queue_size va) dvd 65536" "0 < queue_size va"
    by (rule init_virtqueue_places [OF sizes rx])
  note p1 = place_virtqueue_spec [OF _ a(4-6) a(1), unfolded a(2) w0, OF ok]
  obtain wb vb where b: "place_virtqueue wb vb = Some (w2, q2, 0)" "kmm wb = kmm (w1\<lparr>rx_queue := q1\<rparr>)" "same_but (w1\<lparr>rx_queue := q1\<rparr>) wb"
      "unat (queue_size vb) \<le> 256" "unat (queue_size vb) dvd 65536" "0 < queue_size vb"
    by (rule init_virtqueue_places [OF sizes tx])
  have kb: "kmm wb = kmm w1" using b(2) by simp
  note p2 = place_virtqueue_spec [OF _ b(4-6) b(1), unfolded kb, OF p1(4)]
  have q: "rx_queue w2 = q1" using same_butD(2) [OF p2(3)] same_butD(2) [OF b(3)] by simp
  note z1 = placed_zero [OF p1(1, 7)] and z2 = placed_zero [OF p2(1, 7)]
  note s = p2(8) [OF p1(5)]
  have "sep (used_idx q1) 2 (raw_pages q2) (queue_pages q2 * 4096)"
    using sep_part [OF s, of "used_idx q1" 2] queue_addrs(5) [OF p1(1)] by (simp add: queue_pages_def queue_bytes_def)
  then have "ld16 (vmem w2) (used_idx q1) = 0" using z1 block_bound [OF p1(5)] by (simp add: p2(7) ld16_other)
  moreover have "block (kmm w2) (raw_pages q1) (queue_pages q1)"
    using p1(5) p2(6) by (auto simp: block_def)
  ultimately show thesis
    using that [OF bufs p2(4) q p1(1, 2) _ _ p2(1, 5) _ _ s] z2 block_bound [OF p2(5)] by simp
qed

text \<open>The whole of \<open>virtio_net_init\<close>.\<close>

lemma virtio_net_init_ready:
  assumes "mm_ok (kmm w)" and "virtio_net_init hw w = Some (w', 0)" and "\<And>iobase. queue_sizes_ok hw iobase"
  shows "rx_ok w' \<and> pending w' = []"
  by (rule virtio_net_init_queues [OF assms]) (rule init_buffers_armed; simp)

section \<open>Frames are received in order\<close>

text \<open>Repeated polls, and the queue they implement: of the frames that wait, as many are kept as there are buffers.\<close>

fun poll_run :: "dma \<Rightarrow> nat list \<Rightarrow> 'a virtio_scheme \<Rightarrow> 'a virtio_scheme \<times> bytes list" where
  "poll_run dma [] w = (w, [])"
| "poll_run dma (max_len # ms) w =
     (case virtio_net_poll_packet dma w max_len of (w, out) \<Rightarrow>
      case poll_run dma ms w of (w, outs) \<Rightarrow> (w, out # outs))"

fun fifo_run :: "nat \<Rightarrow> (nat \<Rightarrow> bytes list) \<Rightarrow> nat \<Rightarrow> nat list \<Rightarrow> bytes list \<Rightarrow> bytes list \<times> bytes list" where
  "fifo_run cap arr k [] ps = (ps, [])"
| "fifo_run cap arr k (max_len # ms) ps =
     (let qs = take cap (ps @ arr k) in
      case fifo_run cap arr (k + 1) ms (tl qs) of (ps, outs) \<Rightarrow>
        (ps, (case qs of [] \<Rightarrow> [] | f # _ \<Rightarrow> take max_len f) # outs))"

lemma device_receives_last_used [simp]: "device_receives (q\<lparr>last_used_idx := v\<rparr>) = device_receives q"
proof -
  have "device_receive (q\<lparr>last_used_idx := v\<rparr>) = device_receive q"
    by (simp add: device_receive_def fun_eq_iff Let_def)
  then show ?thesis by (simp add: device_receives_def)
qed

lemma poll_run_fifo:
  assumes "rx_ok w" and "\<forall>n. frames_fit (arr n)" and "\<forall>max_len \<in> set ms. 0 < max_len"
    and "dma = (\<lambda>n. device_receives (rx_queue w) (arr n))"
  shows "\<exists>w'. poll_run dma ms w = (w', snd (fifo_run (num_rx (rx_queue w)) (\<lambda>n. map snd (arr n)) (looks w) ms (pending w))) \<and>
    rx_ok w' \<and> pending w' = fst (fifo_run (num_rx (rx_queue w)) (\<lambda>n. map snd (arr n)) (looks w) ms (pending w))"
  using assms
proof (induction ms arbitrary: w)
  case (Cons max_len ms)
  note rc = receives_inv [of "rx_queue w" "rx_buffers w" "vmem w" "arr (looks w)"]
  have l: "rx_ok (look dma w)" "pending (look dma w) = take (num_rx (rx_queue w)) (pending w @ map snd (arr (looks w)))"
    using rc Cons.prems(1, 2) by (simp_all add: rx_ok_def pending_def Cons.prems(4))
  obtain w1 out where p: "virtio_net_poll_packet dma w max_len = (w1, out)" by fastforce
  have pp: "rx_ok w1" "pending w1 = tl (pending (look dma w))" "looks w1 = looks w + 1"
    "out = (case pending (look dma w) of [] \<Rightarrow> [] | f # _ \<Rightarrow> take max_len f)"
    "rx_queue w1 = rx_queue w \<or> rx_queue w1 = (rx_queue w)\<lparr>last_used_idx := last_used_idx (rx_queue w) + 1\<rparr>"
    using poll_packet [OF l(1), of max_len] Cons.prems(3) p by auto
  have d: "dma = (\<lambda>n. device_receives (rx_queue w1) (arr n))" "num_rx (rx_queue w1) = num_rx (rx_queue w)"
    using pp(5) Cons.prems(4) by auto
  show ?case
    using Cons.IH [OF pp(1) Cons.prems(2) _ d(1)] Cons.prems(3) d(2) pp(2-4) l(2)
    by (auto simp: p Let_def split: prod.splits)
qed simp


section \<open>An example\<close>

text \<open>While only the first frames are in use, the allocator hands out the next ones.\<close>

lemma alloc_next:
  assumes ok: "mm_ok m" and used: "used_frames m = {..<k}" and c: "0 < c" "k + c \<le> MAX_PAGES"
  shows "\<exists>m'. alloc_pages m (of_nat c) = Some (m', frame_addr k) \<and> mm_ok m' \<and> used_frames m' = {..<k + c} \<and> frame_addr k \<noteq> 0"
proof -
  have u: "unat (of_nat c :: u64) = c" using c by (intro of_nat_inverse) (auto simp: MAX_PAGES_def)
  have c': "0 < (of_nat c :: u64)" "unat (of_nat c :: u64) \<le> MAX_PAGES"
    using c u by (simp_all add: word_less_nat_alt)
  have used': "frame_used (page_bitmap m) x \<longleftrightarrow> x < k" if "x < MAX_PAGES" for x
    using used that by (auto simp: used_frames_def)
  have "run_free (page_bitmap m) c k" using c used' by (auto simp: run_free_def)
  moreover have "\<not> run_free (page_bitmap m) c x" if "x < k" for x
    using that c used' by (auto simp: run_free_def intro!: exI [of _ 0])
  ultimately have "first_fit (page_bitmap m) c = Some k"
    using c by (auto simp: first_fit_def scan_Some_iff)
  moreover have "{..<k} \<union> {k..<k + c} = {..<k + c}" by auto
  ultimately show ?thesis
    using alloc_pages_eq [OF ok c'] used_frames_set_frames [OF ok c(2)] used ok c frame_addr_neq_0 [of k]
    by (auto simp: u mm_ok_def)
qed

definition demo_card :: hardware where
  "demo_card log n p = (if n = 16 then 16 else 0)"

definition queue_zero :: virtqueue where
  "queue_zero = \<lparr>queue_index = 0, queue_size = 0, raw_pages = 0, pfn = 0, desc = 0, avail = 0, used = 0, last_used_idx = 0,
     free_head = 0, num_free = 0\<rparr>"

definition demo_virtio :: virtio where
  "demo_virtio = pci.extend (blank_pci\<lparr>pci_device_count := 1,
       pci_device_list := [pci_device_zero\<lparr>pd_vendor_id := 0x1AF4, pd_device_id := 0x1000, pd_bar := 0xC000 # replicate 5 0\<rparr>]\<rparr>)
     (virtio.fields mm_empty False 0 [0x52, 0x54, 0x00, 0x12, 0x34, 0x56] None queue_zero queue_zero 0 0 0)"

lemma place_next:
  assumes "mm_ok (kmm w)" "used_frames (kmm w) = {..<k}" "k + 2 \<le> MAX_PAGES" "queue_size vq = 16"
  shows "\<exists>w' q. place_virtqueue w vq = Some (w', q, 0) \<and> mm_ok (kmm w') \<and> used_frames (kmm w') = {..<k + 2} \<and>
    queue_size q = 16 \<and> same_but w w'"
proof -
  obtain m where "alloc_pages (kmm w) (of_nat 2) = Some (m, frame_addr k)" "mm_ok m" "used_frames m = {..<k + 2}" "frame_addr k \<noteq> 0"
    using alloc_next [OF assms(1, 2) _ assms(3)] by auto
  then show ?thesis
    using assms(4) by (simp add: place_virtqueue_def Let_def PAGE_SIZE_def same_but_def outl_def)
qed

lemma init_next:
  assumes "mm_ok (kmm w)" "used_frames (kmm w) = {..<k}" "k + 2 \<le> MAX_PAGES"
  shows "\<exists>w' q. init_virtqueue demo_card w vq i = Some (w', q, 0) \<and> mm_ok (kmm w') \<and> used_frames (kmm w') = {..<k + 2} \<and>
    queue_size q = 16 \<and> same_but w w'"
proof -
  obtain w1 where w1: "inw demo_card (outw w (net_iobase w + VIRTIO_PCI_QUEUE_SEL) i) (net_iobase w + VIRTIO_PCI_QUEUE_NUM) = (w1, 16)"
      "kmm w1 = kmm w" "same_but w w1"
    by (simp add: inw_def outw_def demo_card_def same_but_def)
  show ?thesis
    using place_next [of w1 k "vq\<lparr>queue_index := i, queue_size := 16\<rparr>"] assms w1
    by (auto simp: init_virtqueue_def Let_def same_but_def)
qed

lemma demo_init: "\<exists>w0. virtio_net_init demo_card demo_virtio = Some (w0, 0) \<and> num_rx (rx_queue w0) = 16 \<and> looks w0 = 0"
proof -
  let ?w = "init_device demo_card (demo_virtio\<lparr>net_pci_dev := Some 0\<rparr>) (pci_device_list demo_virtio ! 0)"
  have dev: "pci_find_device demo_virtio VIRTIO_VENDOR_ID VIRTIO_DEV_NET_LEGACY = Some 0"
    by (simp add: demo_virtio_def pci_find_device_def blank_pci_def pci.defs virtio.defs VIRTIO_VENDOR_ID_def VIRTIO_DEV_NET_LEGACY_def)
  have w: "kmm ?w = mm_empty" "looks ?w = 0"
    by (simp_all add: demo_virtio_def virtio.defs pci.defs blank_pci_def init_device_def Let_def pci_read_config_16_def
        pci_write_config_16_def inw_def outw_def outl_def outb_def inl_def demo_card_def)
  have e: "used_frames mm_empty = {..<0}" using frame_used_empty by (auto simp: used_frames_def)
  obtain w1 q1 where r1: "init_virtqueue demo_card ?w (rx_queue ?w) 0 = Some (w1, q1, 0)" "mm_ok (kmm w1)" "used_frames (kmm w1) = {..<2}"
      "queue_size q1 = 16" "looks w1 = 0"
    using init_next [of ?w 0 "rx_queue ?w" 0] w e mm_ok_empty by (auto simp: same_but_def MAX_PAGES_def)
  let ?w1 = "w1\<lparr>rx_queue := q1\<rparr>"
  obtain w2 q2 where r2: "init_virtqueue demo_card ?w1 (tx_queue w1) 1 = Some (w2, q2, 0)" "mm_ok (kmm w2)" "used_frames (kmm w2) = {..<4}"
      "rx_queue w2 = q1" "looks w2 = 0"
    using init_next [of ?w1 2 "tx_queue w1" 1] r1 by (auto simp: same_but_def MAX_PAGES_def)
  obtain m p where m: "alloc_pages (kmm w2) (of_nat rx_pages) = Some (m, p)" "mm_ok m" "used_frames m = {..<11}" "p \<noteq> 0"
    using alloc_next [OF r2(2, 3), of rx_pages]
    by (auto simp: rx_pages_def sizeof_rx_buf_def VIRTIO_NET_RX_BUFFERS_def PAGE_SIZE_def MAX_PAGES_def)
  obtain m' t where m': "alloc_pages m 1 = Some (m', t)" "t \<noteq> 0"
    using alloc_next [OF m(2, 3), of 1] by (auto simp: MAX_PAGES_def)
  obtain w0 where "init_buffers (w2\<lparr>tx_queue := q2\<rparr>) = Some (w0, 0)" "rx_queue w0 = q1" "looks w0 = 0"
    using m m' r2(4, 5) by (auto simp: init_buffers_def Let_def outw_def outb_def)
  then have "virtio_net_init demo_card demo_virtio = Some (w0, 0)" "num_rx (rx_queue w0) = 16" "looks w0 = 0"
    using r1 r2 dev by (simp_all add: virtio_net_init_def Let_def num_rx_def VIRTIO_NET_RX_BUFFERS_def)
  then show ?thesis by blast
qed


section \<open>What the card finds to send\<close>

text \<open>
  The frames that the entries of the available ring describe which the card has not used yet,
  without the header.
\<close>

definition tx_count :: "virtqueue \<Rightarrow> memory \<Rightarrow> nat" where
  "tx_count q m = unat (ld16 m (avail_idx q) - ld16 m (used_idx q))"

definition tx_slot :: "virtqueue \<Rightarrow> memory \<Rightarrow> nat \<Rightarrow> nat" where
  "tx_slot q m i = unat (ld16 m (used_idx q) + of_nat i) mod unat (queue_size q)"

definition tx_entry :: "virtqueue \<Rightarrow> memory \<Rightarrow> nat \<Rightarrow> bytes" where
  "tx_entry q m i =
     (let d = unat (ld16 m (avail_ring q (tx_slot q m i))) in peek m (ldw64 m (desc_at q d)) (unat (ldw32 m (desc_at q d + 8))))"

definition tx_waiting :: "virtqueue \<Rightarrow> memory \<Rightarrow> bytes list" where
  "tx_waiting q m = map (tx_entry q m) [0..<tx_count q m]"

definition tx_ok :: "'a virtio_scheme \<Rightarrow> bool" where
  "tx_ok w \<longleftrightarrow> card_present w \<and> queue_ok (tx_queue w) \<and> unat (tx_buffer w) + 4096 < 2 ^ 63 \<and>
     sep (raw_pages (tx_queue w)) (queue_bytes (unat (queue_size (tx_queue w)))) (tx_buffer w) 4096 \<and>
     tx_count (tx_queue w) (vmem w) < unat (queue_size (tx_queue w)) \<and>
     (\<forall>i < tx_count (tx_queue w) (vmem w). ld16 (vmem w) (avail_ring (tx_queue w) (tx_slot (tx_queue w) (vmem w) i)) = 0)"

lemma tx_slot_eq:
  assumes "queue_ok q"
  shows "tx_slot q m i = (unat (ld16 m (used_idx q)) + i) mod unat (queue_size q)"
  using rx_slot_eq [of "q\<lparr>last_used_idx := ld16 m (used_idx q)\<rparr>" i] assms
  by (simp add: rx_slot_def tx_slot_def queue_ok_def)

lemma sep_queue_part:
  assumes q: "queue_ok q" and s: "sep (raw_pages q) (queue_bytes (unat (queue_size q))) b k" and i: "i < unat (queue_size q)"
  shows "sep (avail_idx q) 2 b k" "sep (avail_ring q i) 2 b k" "sep (used_idx q) 2 b k" "sep (desc_at q i) 16 b k"
  by (rule sep_part [OF s _ _ order_refl]; use i queue_addrs(8) [OF q] in \<open>simp add: queue_addrs(1-7) [OF q] queue_bytes_def\<close>)+

lemma poke_append:
  assumes "length xs + length ys < 2 ^ 64"
  shows "poke (poke m a xs) (a + of_nat (length xs)) ys = poke m a (xs @ ys)"
proof
  fix x
  have u: "unat (x - (a + of_nat (length xs))) = (if length xs \<le> unat (x - a) then unat (x - a) - length xs else unat (x - a) + 2 ^ 64 - length xs)"
  proof -
    have "unat (of_nat (length xs) :: u64) = length xs" using assms by (intro of_nat_inverse) auto
    then have "unat (y - of_nat (length xs)) = (if length xs \<le> unat y then unat y - length xs else unat y + 2 ^ 64 - length xs)" for y :: u64
      by (simp add: unat_sub_if')
    from this [of "x - a"] show ?thesis by (simp only: diff_diff_eq)
  qed
  show "poke (poke m a xs) (a + of_nat (length xs)) ys x = poke m a (xs @ ys) x"
    unfolding poke_def u using assms by (auto simp: nth_append)
qed

lemma tx_queued_reads:
  assumes ok: "tx_ok w" and len: "length data \<le> MAX_PKT_SIZE"
  defines "q \<equiv> tx_queue w" and "m \<equiv> vmem w" and "m' \<equiv> vmem (tx_queued w data)"
  shows "ld16 m' (used_idx q) = ld16 m (used_idx q)" "ld16 m' (avail_idx q) = ld16 m (avail_idx q) + 1"
    "i \<le> tx_count q m \<Longrightarrow> ld16 m' (avail_ring q (tx_slot q m i)) = 0"
    "peek m' (desc_at q 0) 16 = put_desc (tx_buffer w) (of_nat (VIRTIO_NET_HDR_SIZE + length data)) 0 0"
    "peek m' (tx_buffer w) (VIRTIO_NET_HDR_SIZE + length data) = replicate VIRTIO_NET_HDR_SIZE 0 @ data"
proof -
  have qok: "queue_ok q" and s: "sep (raw_pages q) (queue_bytes (unat (queue_size q))) (tx_buffer w) 4096"
    using ok by (simp_all add: tx_ok_def q_def)
  define e where "e = put_desc (tx_buffer w) (of_nat (VIRTIO_NET_HDR_SIZE + length data)) 0 0"
  define b where "b = replicate VIRTIO_NET_HDR_SIZE 0 @ data"
  have lb: "length b = VIRTIO_NET_HDR_SIZE + length data" "length b \<le> 4096" "length e = 16"
    using len by (simp_all add: b_def e_def VIRTIO_NET_HDR_SIZE_def MAX_PKT_SIZE_def)
  define m1 where "m1 = poke m (tx_buffer w) b"
  define m2 where "m2 = poke m1 (desc_at q 0) e"
  define sl where "sl = unat (ld16 m2 (avail_idx q) mod queue_size q)"
  define m3 where "m3 = poke m2 (avail_ring q sl) (put16 0)"
  have "poke (kmemset m (tx_buffer w) 0 VIRTIO_NET_HDR_SIZE) (tx_buffer w + of_nat VIRTIO_NET_HDR_SIZE) data = m1"
    using poke_append [of "replicate VIRTIO_NET_HDR_SIZE 0" data m "tx_buffer w"] len
    by (simp add: m1_def b_def kmemset_poke VIRTIO_NET_HDR_SIZE_def MAX_PKT_SIZE_def)
  then have m': "m' = poke m3 (avail_idx q) (put16 (ld16 m3 (avail_idx q) + 1))"
    by (simp only: m'_def tx_queued_def Let_def outw_fields set_mem_fields m2_def sl_def m3_def e_def st16_def m_def q_def)
  have n0: "0 < unat (queue_size q)" using qok by (simp add: queue_ok_def word_less_nat_alt)
  have sl: "sl < unat (queue_size q)" using n0 by (simp add: sl_def unat_mod_distrib)
  have s': "sep (raw_pages q) (queue_bytes (unat (queue_size q))) (tx_buffer w) (length b)"
    by (rule sep_part [OF s]) (use lb in simp_all)
  note sb = sep_queue_part [OF qok s'] and sb0 = sep_queue_part [OF qok s' n0]
  note sd = sep_descs [OF qok _ n0] and sd0 = sep_descs(3) [OF qok n0 n0]
  have sa: "sep (avail_idx q) 2 (desc_at q 0) 16" "sep (desc_at q 0) 16 (avail_idx q) 2" "sep (desc_at q 0) 16 (avail_ring q sl) 2"
    using sep_rings(18) [OF qok sl n0] sep_rings(19) [OF qok n0] sep_commute by auto
  note seps = sb0 sd0 sa sep_rings [OF qok] lb(3) sl n0
  show u: "ld16 m' (used_idx q) = ld16 m (used_idx q)"
    by (simp add: m' m3_def m2_def m1_def ld16_other seps)
  have a2: "ld16 m2 (avail_idx q) = ld16 m (avail_idx q)" and a3: "ld16 m3 (avail_idx q) = ld16 m (avail_idx q)"
    by (simp_all add: m3_def m2_def m1_def ld16_other seps)
  show "ld16 m' (avail_idx q) = ld16 m (avail_idx q) + 1"
    using ld16_st16 [of m3 "avail_idx q"] by (simp add: m' st16_def a3)
  have av: "ld16 m (avail_idx q) = ld16 m (used_idx q) + of_nat (tx_count q m)" by (simp add: tx_count_def)
  have sln: "sl = tx_slot q m (tx_count q m)"
    by (simp add: sl_def a2 av tx_slot_def unat_mod_distrib)
  have ts: "tx_slot q m j < unat (queue_size q)" for j using n0 by (simp add: tx_slot_def)
  show "ld16 m' (avail_ring q (tx_slot q m i)) = 0" if i: "i \<le> tx_count q m"
  proof (cases "tx_slot q m i = sl")
    case True
    then show ?thesis
      using ld16_st16 [of m2 "avail_ring q sl" 0] by (simp add: m' m3_def st16_def ld16_other seps)
  next
    case False
    then have "i < tx_count q m" using i sln by (cases "i = tx_count q m") auto
    then have "ld16 m (avail_ring q (tx_slot q m i)) = 0" using ok by (simp add: tx_ok_def q_def m_def)
    then show ?thesis
      using False by (simp add: m' m3_def m2_def m1_def ld16_other seps ts sd sb sep_ring_entries [OF qok])
  qed
  show "peek m' (desc_at q 0) 16 = e"
    using peek_poke_same [of e m1 "desc_at q 0"] by (simp add: m' m3_def m2_def peek_poke_other seps)
  have "peek m' (tx_buffer w) (length b) = peek m1 (tx_buffer w) (length b)"
    by (simp add: m' m3_def m2_def peek_poke_other seps sb(2) [OF sl] sep_commute [of "tx_buffer w"])
  also have "\<dots> = b" unfolding m1_def by (rule peek_poke_same) (use lb in simp)
  finally show "peek m' (tx_buffer w) (VIRTIO_NET_HDR_SIZE + length data) = replicate VIRTIO_NET_HDR_SIZE 0 @ data"
    by (simp add: lb b_def)
qed


lemma tx_queued_waiting:
  assumes ok: "tx_ok w" and len: "length data \<le> MAX_PKT_SIZE"
  defines "n \<equiv> length (tx_waiting (tx_queue w) (vmem w))"
  shows "tx_waiting (tx_queue w) (vmem (tx_queued w data)) = replicate (Suc n) (replicate VIRTIO_NET_HDR_SIZE 0 @ data)"
proof -
  let ?q = "tx_queue w" and ?m = "vmem w" and ?m' = "vmem (tx_queued w data)"
  note r = tx_queued_reads [OF ok len]
  have n: "n = tx_count ?q ?m" "n < 256" using ok by (simp_all add: n_def tx_waiting_def tx_ok_def queue_ok_def)
  have "ld16 ?m (avail_idx ?q) = ld16 ?m (used_idx ?q) + of_nat n" by (simp add: n tx_count_def)
  then have "tx_count ?q ?m' = unat (of_nat (Suc n) :: u16)" by (simp add: tx_count_def r(1, 2) ac_simps)
  also have "\<dots> = Suc n" using n(2) by (intro of_nat_inverse) auto
  finally have c: "tx_count ?q ?m' = Suc n" .
  note d = desc_fields [OF r(4)]
  have l: "unat (of_nat (VIRTIO_NET_HDR_SIZE + length data) :: u32) = VIRTIO_NET_HDR_SIZE + length data"
    using len by (intro of_nat_inverse) (auto simp: VIRTIO_NET_HDR_SIZE_def MAX_PKT_SIZE_def)
  have "tx_entry ?q ?m' i = replicate VIRTIO_NET_HDR_SIZE 0 @ data" if "i < Suc n" for i
  proof -
    have "tx_slot ?q ?m' i = tx_slot ?q ?m i" by (simp add: tx_slot_def r(1))
    then have "ld16 ?m' (avail_ring ?q (tx_slot ?q ?m' i)) = 0" using r(3) [of i] that n by simp
    then show ?thesis using r(5) d l by (simp add: tx_entry_def)
  qed
  then have "map (tx_entry ?q ?m') [0..<Suc n] = map (\<lambda>_. replicate VIRTIO_NET_HDR_SIZE 0 @ data) [0..<Suc n]" by simp
  then show ?thesis unfolding tx_waiting_def c by (simp only: map_replicate_const) simp
qed

text \<open>
  C23: a frame of at most 1536 bytes given to \<open>virtio_net_send_packet\<close> is accepted, and the call returns within
  its 500000 looks at the used ring.  When the card is notified and
  has nothing else to send, it finds exactly one entry: a header of zeros followed by the frame.
  When entries were still waiting, because an earlier call gave up waiting, the card finds the new frame in
  the place of every one of them.
\<close>

theorem virtio_tx_frame:
  assumes "tx_ok w" and "data \<noteq> []" and "length data \<le> MAX_PKT_SIZE"
  shows "virtio_net_send_packet dma w (Some data) = (wait_tx dma 500000 (tx_queued w data), int (length data)) \<and>
    tx_waiting (tx_queue w) (vmem (tx_queued w data)) =
      replicate (Suc (length (tx_waiting (tx_queue w) (vmem w)))) (replicate VIRTIO_NET_HDR_SIZE 0 @ data)"
  using tx_queued_waiting [OF assms(1, 3)] assms by (simp add: virtio_net_send_packet_def tx_ok_def)

text \<open>The initialisation leaves an empty transmit queue.\<close>

lemma arm_fold_other:
  assumes q: "queue_ok (rx_queue w)" and s: "sep (raw_pages (rx_queue w)) (queue_bytes (unat (queue_size (rx_queue w)))) x l"
  shows "n \<le> num_rx (rx_queue w) \<Longrightarrow> peek (fold (arm_rx w) [0..<n] m) x l = peek m x l"
proof (induction n)
  case (Suc n)
  have n: "n < unat (queue_size (rx_queue w))" using Suc.prems num_rx_le [of "rx_queue w"] by simp
  note s = sep_queue_part(2, 4) [OF q s n, THEN sep_commute [THEN iffD1]]
  show ?case
    using Suc s by (simp add: arm_rx_def st16_def peek_poke_other)
qed simp

lemma init_buffers_other:
  assumes ok: "mm_ok (kmm w)" and q: "queue_ok (rx_queue w)" and b: "block (kmm w) a n"
    and s: "sep (raw_pages (rx_queue w)) (queue_bytes (unat (queue_size (rx_queue w)))) a (n * 4096)"
    and init: "init_buffers w = Some (w', 0)" and x: "unat a \<le> unat x" "unat x + l \<le> unat a + n * 4096"
  shows "peek (vmem w') x l = peek (vmem w) x l" "tx_queue w' = tx_queue w" "card_present w'"
    "sep a (n * 4096) (tx_buffer w') 4096" "unat (tx_buffer w') + 4096 < 2 ^ 63"
proof -
  obtain m1 p m t where al: "alloc_pages (kmm w) (of_nat rx_pages) = Some (m1, p)" "alloc_pages m1 1 = Some (m, t)" "p \<noteq> 0" "t \<noteq> 0"
    using init by (auto simp: init_buffers_def Let_def split: option.splits prod.splits if_splits)
  have pages: "0 < rx_pages" "rx_pages \<le> MAX_PAGES" "rx_pages * PAGE_SIZE = 28672"
    by (simp_all add: rx_pages_def sizeof_rx_buf_def VIRTIO_NET_RX_BUFFERS_def PAGE_SIZE_def MAX_PAGES_def)
  note b1 = alloc_pages_block [OF ok pages(1, 2) al(1, 3)]
  have al2: "alloc_pages m1 (of_nat 1) = Some (m, t)" using al(2) by simp
  note b2 = alloc_pages_block [OF b1(1) _ _ al2 al(4), simplified]
  have bm: "block m1 a n" using b b1(3) by (auto simp: block_def)
  have M: "Suc 0 \<le> MAX_PAGES" by (simp add: MAX_PAGES_def)
  have sa: "sep a (n * 4096) p (rx_pages * 4096)" "sep a (n * 4096) t 4096"
    using b1(5) [OF b] b2(5) [OF M bm] by simp_all
  have sx: "sep x l p (rx_pages * 4096)" "sep x l t 4096"
    by (rule sep_part [OF sa(1) x order_refl] sep_part [OF sa(2) x order_refl])+
  have sr: "sep (raw_pages (rx_queue w)) (queue_bytes (unat (queue_size (rx_queue w)))) x l"
    using sep_part [OF iffD1 [OF sep_commute s] x order_refl] sep_commute by blast
  define w1 where "w1 = w\<lparr>kmm := m, rx_buffers := p, tx_buffer := t\<rparr>"
  define mb where "mb = kmemset (kmemset (ram m) p 0 (rx_pages * PAGE_SIZE)) t 0 PAGE_SIZE"
  define w2 where "w2 = set_mem w1 mb"
  define mf where "mf = fold (arm_rx w2) [0..<num_rx (rx_queue w)] mb"
  have w': "vmem w' = st16 (st16 mf (avail_flags (rx_queue w)) 0) (avail_idx (rx_queue w)) (of_nat (num_rx (rx_queue w)))"
      "tx_queue w' = tx_queue w" "tx_buffer w' = t" "card_present w'"
    using init al by (auto simp: init_buffers_def Let_def outw_def outb_def w2_def w1_def mf_def mb_def set_mem_def)
  then show "tx_queue w' = tx_queue w" "card_present w'" "sep a (n * 4096) (tx_buffer w') 4096" "unat (tx_buffer w') + 4096 < 2 ^ 63"
    using sa(2) block_bound [OF b2(2)] M by auto
  have "ram m = poke (poke (vmem w) p (replicate (rx_pages * 4096) 0)) t (replicate 4096 0)"
    using b2(4) b1(4) M by simp
  then have "peek mb x l = peek (vmem w) x l"
    using sx pages(3) by (simp add: mb_def kmemset_poke peek_poke_other PAGE_SIZE_def)
  moreover have "peek mf x l = peek mb x l"
    unfolding mf_def by (rule arm_fold_other) (simp_all add: w2_def w1_def q sr)
  moreover have "sep x l (avail_flags (rx_queue w)) 2" "sep x l (avail_idx (rx_queue w)) 2"
    by (rule sep_commute [THEN iffD1, OF sep_part [OF sr]];
      use queue_addrs(8) [OF q] in \<open>simp add: queue_addrs(1-7) [OF q] queue_bytes_def\<close>)+
  ultimately show "peek (vmem w') x l = peek (vmem w) x l"
    unfolding w'(1) by (simp add: st16_def peek_poke_other)
qed

lemma virtio_net_init_tx:
  assumes "mm_ok (kmm w)" and "virtio_net_init hw w = Some (w', 0)" and "\<And>iobase. queue_sizes_ok hw iobase"
  shows "tx_ok w' \<and> tx_waiting (tx_queue w') (vmem w') = []"
proof -
  obtain w2 q1 q2 where i: "init_buffers (w2\<lparr>tx_queue := q2\<rparr>) = Some (w', 0)" "mm_ok (kmm w2)" "rx_queue w2 = q1"
      "queue_ok q1" "last_used_idx q1 = 0" "block (kmm w2) (raw_pages q1) (queue_pages q1)" "ld16 (vmem w2) (used_idx q1) = 0"
      "queue_ok q2" "block (kmm w2) (raw_pages q2) (queue_pages q2)" "ld16 (vmem w2) (used_idx q2) = 0" "ld16 (vmem w2) (avail_idx q2) = 0"
      "sep (raw_pages q1) (queue_pages q1 * 4096) (raw_pages q2) (queue_pages q2 * 4096)"
    by (rule virtio_net_init_queues [OF assms])
  let ?w = "w2\<lparr>tx_queue := q2\<rparr>"
  have bytes: "queue_bytes (unat (queue_size q)) \<le> queue_pages q * 4096" for q by (simp add: queue_pages_def)
  have s1: "sep (raw_pages q1) (queue_bytes (unat (queue_size q1))) (raw_pages q2) (queue_pages q2 * 4096)"
    using sep_part [OF i(12) order_refl] bytes by simp
  note o = init_buffers_other [of ?w "raw_pages q2" "queue_pages q2" w', simplified, unfolded i(3), OF i(2, 4, 9) s1 i(1)]
  have "unat (raw_pages q2) \<le> unat x \<and> unat x + 2 \<le> unat (raw_pages q2) + queue_pages q2 * 4096" if "x \<in> {used_idx q2, avail_idx q2}" for x
    using that queue_addrs(3, 5, 8) [OF i(8)] bytes [of q2] by (auto simp: queue_bytes_def)
  then have z: "ld16 (vmem w') (used_idx q2) = 0" "ld16 (vmem w') (avail_idx q2) = 0"
    using o(1) [of _ 2] i(10, 11) by (simp_all add: ld16_def)
  have "sep (raw_pages q2) (queue_bytes (unat (queue_size q2))) (tx_buffer w') 4096"
    using sep_part [OF o(4) [of "raw_pages q2" 0] order_refl] bytes by simp
  then show ?thesis
    using o(2, 3, 5) [of "raw_pages q2" 0] i(8) z by (simp add: tx_ok_def tx_count_def tx_waiting_def queue_ok_def word_less_nat_alt)
qed

theorem virtio_tx_frame_witness:
  "\<exists>w0. virtio_net_init demo_card demo_virtio = Some (w0, 0) \<and>
     snd (virtio_net_send_packet (\<lambda>_ m. m) w0 (Some [1, 2, 3])) = 3 \<and>
     tx_waiting (tx_queue w0) (vmem (tx_queued w0 [1, 2, 3])) = [replicate 10 0 @ [1, 2, 3]]"
proof -
  obtain w0 where w0: "virtio_net_init demo_card demo_virtio = Some (w0, 0)"
    using demo_init by blast
  have "mm_ok (kmm demo_virtio)" using mm_ok_empty by (simp add: demo_virtio_def virtio.defs pci.defs blank_pci_def)
  moreover have "queue_sizes_ok demo_card iobase" for iobase by (simp add: queue_sizes_ok_def demo_card_def)
  ultimately have "tx_ok w0" "tx_waiting (tx_queue w0) (vmem w0) = []"
    using virtio_net_init_tx [OF _ w0] by auto
  then show ?thesis
    using w0 virtio_tx_frame [of w0 "[1, 2, 3]" "\<lambda>_ m. m"] by (simp add: VIRTIO_NET_HDR_SIZE_def MAX_PKT_SIZE_def)
qed

end
