(* ===== verification/Spec2Isabelle.thy ===== *)
theory Spec2Isabelle
  imports Fork NetWire Ext2Files Synch VirtioInit
begin

text \<open>
  A verification development for bangos, a small x86_64 operating system in C.  The theories follow
  the parts of the kernel under \<^verbatim>\<open>src/kernel\<close> (and the locks of \<^verbatim>\<open>src/userland\<close>); each defines the state
  and the operations of one part under the names of the C functions, and proves what makes them
  correct.

  \<^bold>\<open>The parts and how they work together.\<close>  Physical frames come from a bitmap allocator; page
  tables are built in them; each process has a table of virtual memory areas, which the page-fault handler
  backs with frames.  Programs are ELF images taken from a tar archive in memory.  Processes
  are scheduled round robin on timer ticks.  A virtual file system mounts the archive and an EXT2
  volume, which lives on an ATA disk behind a block device.  A network stack (ARP, IPv4, ICMP,
  UDP, DNS, TCP) sends and receives frames through a virtio card found on the PCI bus.

  \<^bold>\<open>Conventions.\<close>  A C integer of width \<open>w\<close> is a \<open>w word\<close>, so that arithmetic wraps as in the
  code; an \<open>int\<close> result code is an \<open>int\<close>.  Structs are records, static variables are fields of a state
  record, and records of later parts extend those of earlier ones.  Byte buffers are lists with
  bounds-checked accesses: an outer result \<open>None\<close> is an access outside an object (or another fault),
  never silently ignored.  Physical memory is a function from 64-bit addresses to bytes.
  Hardware is a parameter: the value of a port read as a function of the history of accesses (\<open>hw\<close>),
  the memory writes of the network card (\<open>dma\<close>), the time stamp counter (\<open>tsc\<close>).  What
  the code relies on of a device is a named predicate (\<open>ata_disk\<close>, \<open>pci_bus\<close>, \<open>queue_sizes_ok\<close>, \<open>device_receive\<close>)
  that states the documented behaviour, and every theorem with such a hypothesis has a witness
  with a concrete device.

  \<^bold>\<open>Memory.\<close>
  \<^item> \<^verbatim>\<open>Prelude\<close>, \<^verbatim>\<open>KString\<close> (\<^verbatim>\<open>lib/kstring.c\<close>): words, byte memory, struct fields, first-match scans;
    the string functions with their bounds.
  \<^item> \<^verbatim>\<open>PhysMem\<close>, \<^verbatim>\<open>Paging\<close> (\<^verbatim>\<open>mm/memory.c\<close>): the optimised frame search is first fit, and the locale
    \<open>page_allocator\<close> is its contract; mapping, unmapping and changing flags of a page have exactly the intended effect on
    the translation that the processor performs, also through split huge pages, and keep the translation cache right;
    \<open>mm_init\<close> yields the identity map.
  \<^item> \<^verbatim>\<open>Vmm\<close> (\<^verbatim>\<open>mm/vmm.c\<close>): the area table seen as a partial function from addresses; creating and removing
    areas update it, and a page fault inside an area is resolved.

  \<^bold>\<open>Processes.\<close>
  \<^item> \<^verbatim>\<open>Elf\<close> (\<^verbatim>\<open>loader/elf.c\<close>): loading records every segment it maps.
  \<^item> \<^verbatim>\<open>Process\<close>, \<^verbatim>\<open>Lifecycle\<close>, \<^verbatim>\<open>Fork\<close> (\<^verbatim>\<open>process/process.c\<close>): the tick keeps exactly one process running, every
    runnable process is reached, a preempted process continues with its registers; over all
    sequences of operations process numbers stay unique, an exit status is delivered once, and fork
    returns twice on copies of the same stack.
  \<^item> \<^verbatim>\<open>Synch\<close> (\<^verbatim>\<open>userland/include/synch.h\<close>): spin lock, mutex and semaphore as interleaved atomic
    actions; mutual exclusion and no lost wake-ups, on any futex that meets the locale \<open>futex\<close>, which
    the kernel's \<open>futex_wait\<close> and \<open>futex_wake\<close> do.

  \<^bold>\<open>Files.\<close>
  \<^item> \<^verbatim>\<open>Vfs\<close> (\<^verbatim>\<open>fs/vfs.c\<close>) with the locales \<open>descriptor_table\<close> and \<open>filesystem\<close>; \<^verbatim>\<open>Tarfs\<close> (\<^verbatim>\<open>fs/tarfs.c\<close>): path lookup
    takes the longest mount and walks the components; descriptors are allocated and freed; the archive
    scan finds the first member of a name.
  \<^item> \<^verbatim>\<open>Ports\<close>, \<^verbatim>\<open>Ata\<close>, \<^verbatim>\<open>AtaDisk\<close> (\<^verbatim>\<open>drivers/block.c\<close>, \<^verbatim>\<open>drivers/ata.c\<close>): on a disk that follows the ATA
    protocol the driver reads and writes sectors, that is, meets the locale \<open>block_device\<close>.
  \<^item> \<^verbatim>\<open>Ext2\<close>, \<^verbatim>\<open>Ext2Volume\<close>, \<^verbatim>\<open>Ext2File\<close>, \<^verbatim>\<open>Ext2Files\<close> (\<^verbatim>\<open>fs/ext2/ext2.c\<close>): in the locale \<open>volume\<close>, on any block
    device, allocation hands out free blocks, what is written is read back and files do not disturb each other;
    interpreted on the ATA driver.

  \<^bold>\<open>Network.\<close>
  \<^item> \<^verbatim>\<open>NetCore\<close>, \<^verbatim>\<open>NetState\<close>, \<^verbatim>\<open>Arp\<close>, \<^verbatim>\<open>Ipv4\<close>, \<^verbatim>\<open>Dns\<close>, \<^verbatim>\<open>Tcp\<close>, \<^verbatim>\<open>NetStack\<close>, \<^verbatim>\<open>NetWire\<close> (\<^verbatim>\<open>net/*.c\<close>): checksums verify, names
    are encoded and answers parsed, polling returns on every input (locale \<open>polling\<close>), and what one
    stack sends the other delivers.
  \<^item> \<^verbatim>\<open>Pci\<close>, \<^verbatim>\<open>Virtio\<close>, \<^verbatim>\<open>VirtioRing\<close>, \<^verbatim>\<open>VirtioInit\<close> (\<^verbatim>\<open>drivers/pci.c\<close>, \<^verbatim>\<open>drivers/virtio_net.c\<close>): enumeration lists
    the functions of the bus; the rings in memory implement a queue of frames.  The network theories see the
    card as the sequence of outcomes of the driver's calls.

  \<^bold>\<open>Bounds and fuel.\<close>  Loops with a counter of the code recurse on that counter.  \<open>net_poll\<close> has a
  nesting bound; one more than the number of frames that can arrive is enough and is shown to be.  The
  polling loops with a time limit get a number of rounds, which is enough when the time stamp counter moves.
  The busy-waiting loops of the disk driver and of \<open>wait_tx\<close> carry the code's own retry counts.

  \<^bold>\<open>Not modelled.\<close>  The socket layer and the system call dispatcher, which join the state of the network stack with the
  process table; the descriptor tables of the processor and the assembly entry code, whose effect on
  the registers of a process is part of \<^verbatim>\<open>Process\<close>; console, timer, keyboard and the boot loader, which are port and
  firmware accesses without state that other parts rely on; thread creation in \<^verbatim>\<open>synch.h\<close> (inline
  assembly); user programs, which use a C library that is not part of the sources; tests and scripts.
  Console output is left out everywhere.  Compiler reordering and the memory ordering of the
  processor are not modelled: accesses take effect in program order.
\<close>

end
